(* ===== verification/Prelude.thy ===== *)
theory Prelude
  imports Main "HOL-Library.AList" "HOL-Library.Word" "HOL-Library.Sublist"
begin

text \<open>
  Shared vocabulary of the development: machine integers and bytes, hash maps as association
  lists with distinct keys, the binary search of the Rust standard library, and the reachability
  machinery every state machine of the program uses.

  The interfaces are stated here as locales: \<open>hash_map\<close> (what the program relies on from \<open>HashMap\<close> and
  \<open>BTreeMap\<close>) and \<open>sorted_search\<close> (what it relies on from \<open>slice::binary_search\<close>) are interpreted on the
  definitions of this file; \<open>invariant_system\<close> (an initial condition, a step relation and an inductive
  invariant) and \<open>simulation\<close> (a component and its specification) by the components.
\<close>

section \<open>Types\<close>

type_synonym u8 = "8 word"
type_synonym u32 = "32 word"
type_synonym u64 = "64 word"
type_synonym bytes = "u8 list"
type_synonym ('k, 'v) hmap = "('k \<times> 'v) list"
type_synonym ('e, 'a) result = "'e + 'a"

abbreviation Err :: "'e \<Rightarrow> ('e, 'a) result" where
  "Err \<equiv> Inl"

abbreviation Ok :: "'a \<Rightarrow> ('e, 'a) result" where
  "Ok \<equiv> Inr"

named_theorems hmap_simps \<open>rewriting of lookups, keys and well-formedness of hash maps\<close>

section \<open>Hash maps\<close>

text \<open>
  A \<open>HashMap\<close> or \<open>BTreeMap\<close> is an association list with distinct keys. The list order stands for
  the iteration order, which Rust leaves open for a \<open>HashMap\<close>: no theorem of the development
  depends on it.
\<close>

abbreviation hget :: "('k, 'v) hmap \<Rightarrow> 'k \<Rightarrow> 'v option" where
  "hget \<equiv> map_of"

abbreviation hinsert :: "'k \<Rightarrow> 'v \<Rightarrow> ('k, 'v) hmap \<Rightarrow> ('k, 'v) hmap" where
  "hinsert \<equiv> AList.update"

abbreviation hremove :: "'k \<Rightarrow> ('k, 'v) hmap \<Rightarrow> ('k, 'v) hmap" where
  "hremove \<equiv> AList.delete"

abbreviation hkeys :: "('k, 'v) hmap \<Rightarrow> 'k list" where
  "hkeys m \<equiv> map fst m"

definition hok :: "('k, 'v) hmap \<Rightarrow> bool" where
  "hok m \<longleftrightarrow> distinct (hkeys m)"

lemma hok_Nil [simp]: "hok []"
  by (simp add: hok_def)

lemma hok_Cons: "hok ((k, v) # m) \<longleftrightarrow> k \<notin> fst ` set m \<and> hok m"
  by (auto simp: hok_def)

lemma hok_hinsert [simp, intro]: "hok m \<Longrightarrow> hok (hinsert k v m)"
  by (simp add: hok_def distinct_update)

lemma hok_hremove [simp, intro]: "hok m \<Longrightarrow> hok (hremove k m)"
  by (simp add: hok_def distinct_delete)

lemma hok_filter [simp, intro]: "hok m \<Longrightarrow> hok (filter P m)"
  by (auto simp: hok_def distinct_map intro: inj_on_subset)

lemma hget_hinsert [hmap_simps]: "hget (hinsert k v m) k' = (if k' = k then Some v else hget m k')"
  by (simp add: update_conv')

lemma hget_hremove [hmap_simps]: "hget (hremove k m) k' = (if k' = k then None else hget m k')"
  by (simp add: delete_conv')

lemma hget_None_iff [hmap_simps]: "hget m k = None \<longleftrightarrow> k \<notin> fst ` set m"
  by (simp add: map_of_eq_None_iff)

lemma hget_Some_iff: "hok m \<Longrightarrow> hget m k = Some v \<longleftrightarrow> (k, v) \<in> set m"
  by (simp add: hok_def)

lemma hget_dom: "fst ` set m = dom (hget m)"
  by (simp add: dom_map_of_conv_image_fst)

lemma set_hremove: "hok m \<Longrightarrow> set (hremove k m) = {(k', v) \<in> set m. k' \<noteq> k}"
  by (auto simp: AList.delete_eq)

lemma hinsert_fresh: "k \<notin> fst ` set m \<Longrightarrow> hinsert k v m = m @ [(k, v)]"
  by (induction m) auto

lemma hinsert_map_add:
  "k \<notin> fst ` set rest \<Longrightarrow> hget (hinsert k v m) ++ hget rest = hget m ++ hget ((k, v) # rest)"
  by (simp add: update_conv' map_add_upd_left dom_map_of_conv_image_fst)

text \<open>The map interface the components use, and its interpretation on association lists.\<close>

locale hash_map =
  fixes empty :: "'m"
    and get :: "'m \<Rightarrow> 'k \<Rightarrow> 'v option"
    and put :: "'k \<Rightarrow> 'v \<Rightarrow> 'm \<Rightarrow> 'm"
    and del :: "'k \<Rightarrow> 'm \<Rightarrow> 'm"
    and invar :: "'m \<Rightarrow> bool"
  assumes get_empty: "get empty k = None"
    and get_put: "get (put k v m) k' = (if k' = k then Some v else get m k')"
    and get_del: "get (del k m) k' = (if k' = k then None else get m k')"
    and invar_empty: "invar empty"
    and invar_put: "invar m \<Longrightarrow> invar (put k v m)"
    and invar_del: "invar m \<Longrightarrow> invar (del k m)"
begin

lemma put_many:
  "get (fold (\<lambda>k. put k (f k)) ks m) k' = (if k' \<in> set ks then Some (f k') else get m k')"
  by (induction ks arbitrary: m) (auto simp: get_put)

lemma invar_put_many: "invar m \<Longrightarrow> invar (fold (\<lambda>k. put k (f k)) ks m)"
  by (induction ks arbitrary: m) (auto intro: invar_put)

lemma del_many:
  "get (fold del ks m) k' = (if k' \<in> set ks then None else get m k')"
  by (induction ks arbitrary: m) (auto simp: get_del)

end

interpretation hm: hash_map "[]" hget hinsert hremove hok
  by unfold_locales (auto simp: hmap_simps)

subsection \<open>Sums over the values of a map\<close>

definition hsum :: "('v \<Rightarrow> nat) \<Rightarrow> ('k, 'v) hmap \<Rightarrow> nat" where
  "hsum f m = sum_list (map (f \<circ> snd) m)"

lemma hsum_Nil [simp]: "hsum f [] = 0"
  by (simp add: hsum_def)

lemma hsum_Cons [simp]: "hsum f ((k, v) # m) = f v + hsum f m"
  by (simp add: hsum_def)

lemma hsum_append [simp]: "hsum f (m @ m') = hsum f m + hsum f m'"
  by (simp add: hsum_def)

lemma hsum_hinsert_fresh: "k \<notin> fst ` set m \<Longrightarrow> hsum f (hinsert k v m) = hsum f m + f v"
  by (induction m) auto

lemma hsum_hremove:
  "hok m \<Longrightarrow> hget m k = Some v \<Longrightarrow> hsum f m = f v + hsum f (hremove k m)"
proof (induction m)
  case (Cons a m)
  obtain k' v' where a: "a = (k', v')" by force
  show ?case
  proof (cases "k' = k")
    case True
    with Cons.prems a have "k \<notin> fst ` set m" and "v' = v" by (auto simp: hok_Cons)
    then show ?thesis using a True by simp
  next
    case False
    with Cons a show ?thesis by (auto simp: hok_Cons)
  qed
qed simp

lemma hsum_hinsert:
  "hok m \<Longrightarrow> hget m k = Some v \<Longrightarrow> hsum f (hinsert k v' m) + f v = hsum f m + f v'"
  by (induction m) (auto simp: hok_Cons)

lemma hsum_ge: "hget m k = Some v \<Longrightarrow> f v \<le> hsum f m"
  by (induction m) (auto split: if_splits)

lemma hsum_zero_iff: "hsum f m = 0 \<longleftrightarrow> (\<forall>v \<in> snd ` set m. f v = 0)"
  by (auto simp: hsum_def)

lemma hsum_cong: "(\<And>v. v \<in> snd ` set m \<Longrightarrow> f v = g v) \<Longrightarrow> hsum f m = hsum g m"
  by (induction m) auto

section \<open>Filtering maps over lists\<close>

lemma set_map_filter: "set (List.map_filter f xs) = {y. \<exists>x \<in> set xs. f x = Some y}"
  by (force simp: List.map_filter_def)

lemma distinct_map_filter:
  assumes "distinct xs" and "\<And>x x' y. f x = Some y \<Longrightarrow> f x' = Some y \<Longrightarrow> x = x'"
  shows "distinct (List.map_filter f xs)"
  using assms by (auto simp: List.map_filter_def distinct_map intro!: inj_onI)

section \<open>Decimal printing\<close>

text \<open>What \<open>format!\<close> prints for an unsigned integer.\<close>

fun decimal :: "nat \<Rightarrow> string" where
  "decimal n = (if n < 10 then [char_of (48 + n)] else decimal (n div 10) @ [char_of (48 + n mod 10)])"

declare decimal.simps [simp del]

section \<open>Binary search\<close>

text \<open>
  \<open>slice::binary_search\<close> on a sorted slice returns \<open>Ok i\<close> with the element at \<open>i\<close>, or \<open>Err i\<close> with
  the position where inserting keeps the slice sorted. The loop halves the window \<open>[lo, hi)\<close>.
\<close>

function bsearch :: "'a::linorder list \<Rightarrow> 'a \<Rightarrow> nat \<Rightarrow> nat \<Rightarrow> (nat, nat) result" where
  "bsearch xs x lo hi =
     (if lo < hi
      then (let mid = lo + (hi - lo) div 2
            in if xs ! mid = x then Ok mid
               else if xs ! mid < x then bsearch xs x (Suc mid) hi
               else bsearch xs x lo mid)
      else Err lo)"
  by pat_completeness auto
termination
  by (relation "measure (\<lambda>(xs, x, lo, hi). hi - lo)") auto

declare bsearch.simps [simp del]

definition binary_search :: "'a::linorder list \<Rightarrow> 'a \<Rightarrow> (nat, nat) result" where
  "binary_search xs x = bsearch xs x 0 (length xs)"

lemma bsearch_step:
  assumes "lo < hi" and "mid = lo + (hi - lo) div 2"
  shows "bsearch xs x lo hi =
    (if xs ! mid = x then Ok mid
     else if xs ! mid < x then bsearch xs x (Suc mid) hi else bsearch xs x lo mid)"
  using assms by (subst bsearch.simps) (simp add: Let_def)

lemma bsearch_done: "\<not> lo < hi \<Longrightarrow> bsearch xs x lo hi = Err lo"
  by (subst bsearch.simps) simp

lemma bsearch_Ok: "hi \<le> length xs \<Longrightarrow> bsearch xs x lo hi = Ok i \<Longrightarrow> i < length xs \<and> xs ! i = x"
proof (induction xs x lo hi rule: bsearch.induct)
  case (1 xs x lo hi)
  show ?case
  proof (cases "lo < hi")
    case True
    define mid where "mid = lo + (hi - lo) div 2"
    have "mid < hi" using True by (simp add: mid_def)
    then show ?thesis
      using "1.IH" [OF True mid_def] "1.prems" bsearch_step [OF True mid_def, of xs x]
      by (simp split: if_splits)
  next
    case False
    with "1.prems" show ?thesis by (simp add: bsearch_done)
  qed
qed

lemma bsearch_Err:
  assumes "sorted_wrt (<) xs" and "lo \<le> hi" and "hi \<le> length xs"
    and "\<forall>j < lo. xs ! j < x" and "\<forall>j. hi \<le> j \<and> j < length xs \<longrightarrow> x < xs ! j"
    and "bsearch xs x lo hi = Err i"
  shows "i \<le> length xs \<and> (\<forall>j < i. xs ! j < x) \<and> (\<forall>j. i \<le> j \<and> j < length xs \<longrightarrow> x < xs ! j)"
  using assms
proof (induction xs x lo hi rule: bsearch.induct)
  case (1 xs x lo hi)
  show ?case
  proof (cases "lo < hi")
    case False
    with "1.prems"(2) have "hi = lo" by simp
    with "1.prems" False show ?thesis by (simp add: bsearch_done)
  next
    case True
    define mid where "mid = lo + (hi - lo) div 2"
    have mid: "lo \<le> mid" "mid < hi" using True by (auto simp: mid_def)
    note step = bsearch_step [OF True mid_def, of xs x]
    have ne: "xs ! mid \<noteq> x" using "1.prems"(6) step by auto
    show ?thesis
    proof (cases "xs ! mid < x")
      case less: True
      have "\<forall>j < Suc mid. xs ! j < x"
      proof (intro allI impI)
        fix j assume "j < Suc mid"
        then show "xs ! j < x"
          using less sorted_wrt_nth_less [OF "1.prems"(1), of j mid] mid "1.prems"(3)
          by (cases "j = mid") auto
      qed
      then show ?thesis
        using "1.IH"(1) [OF True mid_def ne less "1.prems"(1)] mid "1.prems"(2-6) less ne step
        by simp
    next
      case False
      with ne have gt: "x < xs ! mid" by simp
      have above: "\<forall>j. mid \<le> j \<and> j < length xs \<longrightarrow> x < xs ! j"
      proof (intro allI impI)
        fix j assume "mid \<le> j \<and> j < length xs"
        then show "x < xs ! j"
          using gt sorted_wrt_nth_less [OF "1.prems"(1), of mid j] by (cases "j = mid") auto
      qed
      have "bsearch xs x lo mid = Err i" using "1.prems"(6) False ne by (simp add: step)
      with "1.IH"(2) [OF True mid_def ne False "1.prems"(1) mid(1) _ "1.prems"(4) above]
      show ?thesis using mid(2) "1.prems"(3) by simp
    qed
  qed
qed

text \<open>
  What the program relies on: the documented contract of \<open>binary_search\<close> on a strictly sorted
  slice. Insertion and removal at the reported position are proved from it once.
\<close>

locale sorted_search =
  fixes search :: "'a::linorder list \<Rightarrow> 'a \<Rightarrow> (nat, nat) result"
  assumes search_Ok: "sorted_wrt (<) xs \<Longrightarrow> search xs x = Ok i \<Longrightarrow> i < length xs \<and> xs ! i = x"
    and search_Err: "sorted_wrt (<) xs \<Longrightarrow> search xs x = Err i \<Longrightarrow>
      i \<le> length xs \<and> (\<forall>j < i. xs ! j < x) \<and> (\<forall>j. i \<le> j \<and> j < length xs \<longrightarrow> x < xs ! j)"
begin

lemma found_iff:
  assumes "sorted_wrt (<) xs"
  shows "(\<exists>i. search xs x = Ok i) \<longleftrightarrow> x \<in> set xs"
proof
  assume "\<exists>i. search xs x = Ok i"
  then show "x \<in> set xs" using search_Ok [OF assms] by (metis nth_mem)
next
  assume x: "x \<in> set xs"
  then obtain j where j: "j < length xs" "xs ! j = x" by (auto simp: in_set_conv_nth)
  show "\<exists>i. search xs x = Ok i"
  proof (cases "search xs x")
    case (Inl i)
    from search_Err [OF assms Inl] j show ?thesis
      by (metis less_irrefl linorder_not_le)
  qed simp
qed

lemma insert_at:
  assumes s: "sorted_wrt (<) xs" and e: "search xs x = Err i"
  shows "sorted_wrt (<) (take i xs @ x # drop i xs)"
    and "set (take i xs @ x # drop i xs) = insert x (set xs)"
proof -
  note E = search_Err [OF s e]
  have 1: "\<forall>y \<in> set (take i xs). y < x"
    using E by (auto simp: in_set_conv_nth)
  have 2: "\<forall>y \<in> set (drop i xs). x < y"
    using E by (auto simp: in_set_conv_nth)
  have "sorted_wrt (<) (take i xs @ drop i xs)" using s by simp
  then show "sorted_wrt (<) (take i xs @ x # drop i xs)"
    using 1 2 unfolding sorted_wrt_append by simp
  have "set (take i xs) \<union> set (drop i xs) = set xs"
    by (metis append_take_drop_id set_append)
  then show "set (take i xs @ x # drop i xs) = insert x (set xs)" by auto
qed

lemma remove_at:
  assumes s: "sorted_wrt (<) xs" and e: "search xs x = Ok i"
  shows "sorted_wrt (<) (take i xs @ drop (Suc i) xs)"
    and "set (take i xs @ drop (Suc i) xs) = set xs - {x}"
proof -
  note E = search_Ok [OF s e]
  have split: "xs = take i xs @ x # drop (Suc i) xs"
    using E id_take_nth_drop by metis
  have d: "distinct xs" using s by (simp add: strict_sorted_iff)
  have "sorted_wrt (<) (take i xs @ x # drop (Suc i) xs)" using s by (simp add: split [symmetric])
  then show "sorted_wrt (<) (take i xs @ drop (Suc i) xs)"
    unfolding sorted_wrt_append by simp
  have "distinct (take i xs @ x # drop (Suc i) xs)" using split d by metis
  moreover have "set xs = set (take i xs @ x # drop (Suc i) xs)" using split by metis
  ultimately show "set (take i xs @ drop (Suc i) xs) = set xs - {x}" by auto
qed

end

interpretation bs: sorted_search binary_search
proof
  fix xs :: "'a::linorder list" and x i
  show "sorted_wrt (<) xs \<Longrightarrow> binary_search xs x = Ok i \<Longrightarrow> i < length xs \<and> xs ! i = x"
    by (auto simp: binary_search_def dest: bsearch_Ok [rotated])
  show "sorted_wrt (<) xs \<Longrightarrow> binary_search xs x = Err i \<Longrightarrow>
      i \<le> length xs \<and> (\<forall>j < i. xs ! j < x) \<and> (\<forall>j. i \<le> j \<and> j < length xs \<longrightarrow> x < xs ! j)"
    unfolding binary_search_def by (rule bsearch_Err) auto
qed

section \<open>Reachable states and invariants\<close>

inductive reach :: "('s \<Rightarrow> bool) \<Rightarrow> ('s \<Rightarrow> 's \<Rightarrow> bool) \<Rightarrow> 's \<Rightarrow> bool" for init step where
  reach_init: "init s \<Longrightarrow> reach init step s"
| reach_step: "reach init step s \<Longrightarrow> step s t \<Longrightarrow> reach init step t"

text \<open>
  A machine with an inductive invariant. Every component that keeps state interprets this locale
  with its own initial states, its own step relation and its own invariant.
\<close>

locale invariant_system =
  fixes init :: "'s \<Rightarrow> bool" and step :: "'s \<Rightarrow> 's \<Rightarrow> bool" and inv :: "'s \<Rightarrow> bool"
  assumes inv_init: "init s \<Longrightarrow> inv s"
    and inv_step: "inv s \<Longrightarrow> step s t \<Longrightarrow> inv t"
begin

lemma reach_inv: "reach init step s \<Longrightarrow> inv s"
  by (induction rule: reach.induct) (auto intro: inv_init inv_step)

lemma inv_steps: "step\<^sup>*\<^sup>* s t \<Longrightarrow> inv s \<Longrightarrow> inv t"
  by (induction rule: rtranclp_induct) (auto intro: inv_step)

end

text \<open>A relation every step respects is respected by every run (monotone counters, latches).\<close>

lemma steps_mono:
  assumes "step\<^sup>*\<^sup>* s t" and "\<And>s t. step s t \<Longrightarrow> rel s t"
    and "\<And>s. rel s s" and "\<And>s t u. rel s t \<Longrightarrow> rel t u \<Longrightarrow> rel s u"
  shows "rel s t"
  using assms(1) by (induction rule: rtranclp_induct) (auto intro: assms(2-4))

section \<open>Simulation\<close>

text \<open>
  Calls on a component that answers every call with a new state and a response, or panics (\<open>None\<close>), against
  a specification that says which responses are allowed. A component that simulates its specification runs
  every sequence of calls to the end with allowed responses.
\<close>

primrec run_calls :: "('c \<Rightarrow> 's \<Rightarrow> ('s \<times> 'r) option) \<Rightarrow> 'c list \<Rightarrow> 's \<Rightarrow> ('s \<times> 'r list) option" where
  "run_calls call [] s = Some (s, [])"
| "run_calls call (c # cs) s =
     (case call c s of None \<Rightarrow> None | Some (s, r) \<Rightarrow> map_option (\<lambda>(s, rs). (s, r # rs)) (run_calls call cs s))"

inductive spec_calls :: "('c \<Rightarrow> 'a \<Rightarrow> 'r \<Rightarrow> 'a \<Rightarrow> bool) \<Rightarrow> 'c list \<Rightarrow> 'a \<Rightarrow> 'r list \<Rightarrow> 'a \<Rightarrow> bool" for allows where
  spec_calls_Nil: "spec_calls allows [] a [] a"
| spec_calls_Cons: "allows c a r a' \<Longrightarrow> spec_calls allows cs a' rs a'' \<Longrightarrow> spec_calls allows (c # cs) a (r # rs) a''"

locale simulation =
  fixes call :: "'c \<Rightarrow> 's \<Rightarrow> ('s \<times> 'r) option" and allows :: "'c \<Rightarrow> 'a \<Rightarrow> 'r \<Rightarrow> 'a \<Rightarrow> bool" and sim :: "'s \<Rightarrow> 'a \<Rightarrow> bool"
  assumes sim_do: "sim s a \<Longrightarrow> \<exists>s' r a'. call c s = Some (s', r) \<and> allows c a r a' \<and> sim s' a'"
begin

lemma run_sim:
  "sim s a \<Longrightarrow> \<exists>s' rs a'. run_calls call cs s = Some (s', rs) \<and> spec_calls allows cs a rs a' \<and> sim s' a'"
proof (induction cs arbitrary: s a)
  case Nil
  then show ?case by (auto intro: spec_calls_Nil)
next
  case (Cons c cs)
  obtain s1 r a1 where 1: "call c s = Some (s1, r)" "allows c a r a1" "sim s1 a1"
    using sim_do [OF Cons.prems] by blast
  obtain s2 rs a2 where "run_calls call cs s1 = Some (s2, rs)" "spec_calls allows cs a1 rs a2" "sim s2 a2"
    using Cons.IH [OF 1(3)] by blast
  with 1 show ?case by (auto intro: spec_calls_Cons)
qed

end

end
