(* ===== verification/Trigram.thy ===== *)
theory Trigram
  imports Prelude
begin

text \<open>
  The trigram text index of \<open>src/live_index/trigram.rs\<close>.

  A \<open>HashSet<[u8; 3]>\<close> is a list without repetitions. File ids are \<open>nat\<close>: the counter moves by one
  for every newly tracked path and the program does not track \<open>2^64\<close> of them. The \<open>files\<close> argument
  keeps only what the index reads of an \<open>IndexedFile\<close>, its content.

  The central predicate is \<open>coherent\<close>: the postings are exactly the trigrams of the indexed
  contents. Building, updating and removing keep it, and under it a search returns exactly the
  files that contain the query up to ASCII case.
\<close>

unbundle bit_operations_syntax

section \<open>Data\<close>

type_synonym trigram = "u8 \<times> u8 \<times> u8"
type_synonym postings = "(trigram, nat list) hmap"
type_synonym contents = "(string, bytes) hmap"

record trigram_index =
  tri_map :: postings
  id_to_path :: "(nat, string) hmap"
  path_to_id :: "(string, nat) hmap"
  next_id :: nat

record persisted_trigram_index =
  p_next_id :: nat
  p_paths :: "(nat \<times> string) list"
  p_postings :: "(u32 \<times> nat list) list"

section \<open>Byte-level helpers\<close>

definition to_ascii_lowercase :: "u8 \<Rightarrow> u8" where
  "to_ascii_lowercase b = (if 0x41 \<le> b \<and> b \<le> 0x5A then b OR 0x20 else b)"

fun windows3 :: "bytes \<Rightarrow> trigram list" where
  "windows3 (a # b # c # r) = (a, b, c) # windows3 (b # c # r)"
| "windows3 _ = []"

definition extract_trigrams :: "bytes \<Rightarrow> trigram list" where
  "extract_trigrams bs = (if length bs < 3 then [] else remdups (windows3 bs))"

definition trigrams_of :: "bytes \<Rightarrow> trigram list" where
  "trigrams_of content = extract_trigrams (map to_ascii_lowercase content)"

definition contains_bytes_ci :: "bytes \<Rightarrow> bytes \<Rightarrow> bool" where
  "contains_bytes_ci haystack needle_lower =
     (if needle_lower = [] then True
      else if length needle_lower > length haystack then False
      else list_ex (\<lambda>i. list_all (\<lambda>j. to_ascii_lowercase (haystack ! (i + j)) = needle_lower ! j)
                              [0..<length needle_lower])
             [0..<length haystack - length needle_lower + 1])"

definition pack_trigram :: "trigram \<Rightarrow> u32" where
  "pack_trigram t = (case t of (a, b, c) \<Rightarrow>
     ucast a OR push_bit 8 (ucast b) OR push_bit 16 (ucast c))"

definition unpack_trigram :: "u32 \<Rightarrow> trigram option" where
  "unpack_trigram key =
     (if key > 0x00FFFFFF then None
      else Some (ucast key, ucast (drop_bit 8 key), ucast (drop_bit 16 key)))"

section \<open>Posting lists\<close>

definition insert_sorted :: "nat list \<Rightarrow> nat \<Rightarrow> nat list" where
  "insert_sorted l i =
     (case binary_search l i of Ok _ \<Rightarrow> l | Err pos \<Rightarrow> take pos l @ i # drop pos l)"

definition entry_or_default :: "trigram \<Rightarrow> postings \<Rightarrow> nat list" where
  "entry_or_default tg m = (case hget m tg of Some l \<Rightarrow> l | None \<Rightarrow> [])"

definition insert_posting :: "nat \<Rightarrow> trigram \<Rightarrow> postings \<Rightarrow> postings" where
  "insert_posting i tg m = hinsert tg (insert_sorted (entry_or_default tg m) i) m"

definition remove_at_found :: "nat list \<Rightarrow> nat \<Rightarrow> nat list" where
  "remove_at_found l i =
     (case binary_search l i of Ok pos \<Rightarrow> take pos l @ drop (Suc pos) l | Err _ \<Rightarrow> l)"

definition remove_id :: "nat \<Rightarrow> trigram \<Rightarrow> postings \<Rightarrow> postings" where
  "remove_id i tg m =
     (case hget m tg of
        None \<Rightarrow> m
      | Some l \<Rightarrow>
          (case binary_search l i of
             Err _ \<Rightarrow> m
           | Ok pos \<Rightarrow>
               (let l' = take pos l @ drop (Suc pos) l
                in if l' = [] then hremove tg m else hinsert tg l' m)))"

definition remove_id_everywhere :: "nat \<Rightarrow> postings \<Rightarrow> postings" where
  "remove_id_everywhere i m =
     filter (\<lambda>(_, l). l \<noteq> []) (map (\<lambda>(tg, l). (tg, remove_at_found l i)) m)"

section \<open>Operations of the index\<close>

definition new_index :: trigram_index where
  "new_index = \<lparr>tri_map = [], id_to_path = [], path_to_id = [], next_id = 0\<rparr>"

definition get_or_alloc_id :: "string \<Rightarrow> trigram_index \<Rightarrow> nat \<times> trigram_index" where
  "get_or_alloc_id path idx =
     (case hget (path_to_id idx) path of
        Some i \<Rightarrow> (i, idx)
      | None \<Rightarrow>
          (let i = next_id idx
           in (i, idx\<lparr>next_id := next_id idx + 1,
                      path_to_id := hinsert path i (path_to_id idx),
                      id_to_path := hinsert i path (id_to_path idx)\<rparr>)))"

definition insert_file :: "string \<Rightarrow> bytes \<Rightarrow> trigram_index \<Rightarrow> trigram_index" where
  "insert_file path content idx =
     (let (i, idx) = get_or_alloc_id path idx
      in idx\<lparr>tri_map := fold (insert_posting i) (trigrams_of content) (tri_map idx)\<rparr>)"

definition update_file :: "string \<Rightarrow> bytes option \<Rightarrow> bytes \<Rightarrow> trigram_index \<Rightarrow> trigram_index" where
  "update_file path old content idx =
     (case hget (path_to_id idx) path of
        None \<Rightarrow> insert_file path content idx
      | Some i \<Rightarrow>
          (case old of
             None \<Rightarrow> insert_file path content
                       (idx\<lparr>tri_map := remove_id_everywhere i (tri_map idx)\<rparr>)
           | Some old_content \<Rightarrow>
               (let old_tgs = trigrams_of old_content;
                    new_tgs = trigrams_of content;
                    m = fold (remove_id i) (filter (\<lambda>t. t \<notin> set new_tgs) old_tgs) (tri_map idx)
                in idx\<lparr>tri_map :=
                     fold (insert_posting i) (filter (\<lambda>t. t \<notin> set old_tgs) new_tgs) m\<rparr>)))"

definition remove_file :: "string \<Rightarrow> bytes option \<Rightarrow> trigram_index \<Rightarrow> trigram_index" where
  "remove_file path content idx =
     (case hget (path_to_id idx) path of
        None \<Rightarrow> idx
      | Some i \<Rightarrow>
          (let idx = idx\<lparr>path_to_id := hremove path (path_to_id idx),
                         id_to_path := hremove i (id_to_path idx)\<rparr>
           in case content of
                Some c \<Rightarrow> idx\<lparr>tri_map := fold (remove_id i) (trigrams_of c) (tri_map idx)\<rparr>
              | None \<Rightarrow> idx\<lparr>tri_map := remove_id_everywhere i (tri_map idx)\<rparr>))"

definition push_posting :: "nat \<Rightarrow> trigram \<Rightarrow> postings \<Rightarrow> postings" where
  "push_posting i tg m = hinsert tg (entry_or_default tg m @ [i]) m"

definition push_shards :: "nat \<Rightarrow> trigram list list \<Rightarrow> postings \<Rightarrow> postings" where
  "push_shards k shards m =
     fold (\<lambda>(i, tgs). fold (push_posting i) tgs) (List.enumerate k shards) m"

definition build_from_files :: "contents \<Rightarrow> trigram_index" where
  "build_from_files files =
     (let idx = fold (\<lambda>(path, _) idx. snd (get_or_alloc_id path idx)) files new_index;
          shards = map (\<lambda>(_, content). trigrams_of content) files;
          m = push_shards 0 shards (tri_map idx)
      in idx\<lparr>tri_map := map (\<lambda>(tg, l). (tg, remdups_adj (sort l))) m\<rparr>)"

fun intersect_lists :: "nat list \<Rightarrow> nat list list \<Rightarrow> nat list" where
  "intersect_lists candidates [] = candidates"
| "intersect_lists candidates (l # ls) =
     (let candidates = filter (\<lambda>i. case binary_search l i of Ok _ \<Rightarrow> True | Err _ \<Rightarrow> False) candidates
      in if candidates = [] then [] else intersect_lists candidates ls)"

definition verify_candidate :: "trigram_index \<Rightarrow> bytes \<Rightarrow> contents \<Rightarrow> nat \<Rightarrow> string option" where
  "verify_candidate idx query_lower files i =
     (case hget (id_to_path idx) i of
        None \<Rightarrow> None
      | Some path \<Rightarrow>
          (case hget files path of
             None \<Rightarrow> None
           | Some content \<Rightarrow> if contains_bytes_ci content query_lower then Some path else None))"

definition linear_scan_lower :: "bytes \<Rightarrow> contents \<Rightarrow> string list" where
  "linear_scan_lower query_lower files =
     List.map_filter
       (\<lambda>(path, content). if contains_bytes_ci content query_lower then Some path else None) files"

definition search :: "trigram_index \<Rightarrow> bytes \<Rightarrow> contents \<Rightarrow> string list" where
  "search idx query files =
     (if query = [] then []
      else let query_lower = map to_ascii_lowercase query
           in if length query_lower < 3 then linear_scan_lower query_lower files
              else let posting_lists = sort_key length
                         (List.map_filter (hget (tri_map idx)) (extract_trigrams query_lower))
                   in case posting_lists of
                        [] \<Rightarrow> []
                      | l # ls \<Rightarrow>
                          List.map_filter (verify_candidate idx query_lower files)
                            (intersect_lists l ls))"

definition covers_files :: "trigram_index \<Rightarrow> contents \<Rightarrow> bool" where
  "covers_files idx files =
     (if length (path_to_id idx) \<noteq> length files
         \<or> list_ex (\<lambda>(path, _). hget (path_to_id idx) path = None) files
      then False
      else let needs_postings = list_ex (\<lambda>(_, content). length content \<ge> 3) files
           in \<not> needs_postings \<or> tri_map idx \<noteq> [])"

definition posting_count :: "trigram_index \<Rightarrow> nat" where
  "posting_count idx = sum_list (map (\<lambda>(_, l). length l) (tri_map idx))"

section \<open>The persisted form\<close>

definition to_persisted :: "trigram_index \<Rightarrow> persisted_trigram_index" where
  "to_persisted idx =
     \<lparr>p_next_id = next_id idx,
      p_paths = sort_key fst (id_to_path idx),
      p_postings = sort_key fst (map (\<lambda>(tg, l). (pack_trigram tg, l)) (tri_map idx))\<rparr>"

definition persisted_posting_count :: "persisted_trigram_index \<Rightarrow> nat" where
  "persisted_posting_count p = sum_list (map (\<lambda>(_, l). length l) (p_postings p))"

fun restore_paths ::
  "nat \<Rightarrow> (nat \<times> string) list \<Rightarrow> (nat, string) hmap \<Rightarrow> (string, nat) hmap
   \<Rightarrow> ((nat, string) hmap \<times> (string, nat) hmap) option" where
  "restore_paths n [] itp pti = Some (itp, pti)"
| "restore_paths n ((i, path) # rest) itp pti =
     (if i \<ge> n then None
      else if hget pti path \<noteq> None then None
      else if hget itp i \<noteq> None then None
      else restore_paths n rest (hinsert i path itp) (hinsert path i pti))"

fun strictly_increasing :: "nat list \<Rightarrow> bool" where
  "strictly_increasing (a # b # r) = (if a \<ge> b then False else strictly_increasing (b # r))"
| "strictly_increasing _ = True"

fun restore_postings ::
  "(nat, string) hmap \<Rightarrow> (u32 \<times> nat list) list \<Rightarrow> postings \<Rightarrow> postings option" where
  "restore_postings itp [] m = Some m"
| "restore_postings itp ((key, ids) # rest) m =
     (case unpack_trigram key of
        None \<Rightarrow> None
      | Some tg \<Rightarrow>
          if \<not> strictly_increasing ids then None
          else if list_ex (\<lambda>i. hget itp i = None) ids then None
          else if hget m tg \<noteq> None then None
          else restore_postings itp rest (hinsert tg ids m))"

definition from_persisted :: "persisted_trigram_index \<Rightarrow> trigram_index option" where
  "from_persisted p =
     (case restore_paths (p_next_id p) (p_paths p) [] [] of
        None \<Rightarrow> None
      | Some (itp, pti) \<Rightarrow>
          (case restore_postings itp (p_postings p) [] of
             None \<Rightarrow> None
           | Some m \<Rightarrow> Some \<lparr>tri_map = m, id_to_path = itp, path_to_id = pti,
                             next_id = p_next_id p\<rparr>))"

section \<open>Bytes, windows and containment\<close>

lemma windows3_append_left: "set (windows3 xs) \<subseteq> set (windows3 (ps @ xs))"
proof (induction ps)
  case (Cons p ps)
  have "set (windows3 ys) \<subseteq> set (windows3 (p # ys))" for ys
    by (cases ys rule: windows3.cases) auto
  with Cons show ?case by fastforce
qed simp

lemma windows3_append_right: "set (windows3 xs) \<subseteq> set (windows3 (xs @ ss))"
  by (induction xs rule: windows3.induct) auto

lemma windows3_sublist: "sublist xs ys \<Longrightarrow> set (windows3 xs) \<subseteq> set (windows3 ys)"
  using windows3_append_left windows3_append_right by (fastforce simp: sublist_def)

lemma windows3_short: "length xs < 3 \<Longrightarrow> windows3 xs = []"
  by (cases xs rule: windows3.cases) auto

lemma windows3_Nil_iff: "windows3 xs = [] \<longleftrightarrow> length xs < 3"
  by (cases xs rule: windows3.cases) auto

lemma set_extract_trigrams [simp]: "set (extract_trigrams bs) = set (windows3 bs)"
  by (auto simp: extract_trigrams_def windows3_short)

lemma distinct_trigrams_of [simp]: "distinct (trigrams_of c)"
  by (simp add: trigrams_of_def extract_trigrams_def)

text \<open>The nested loop of \<open>contains_bytes_ci\<close> decides contiguous containment.\<close>

lemma nth_block: "i + length n \<le> length h \<Longrightarrow> (\<forall>j < length n. h ! (i + j) = n ! j) \<longleftrightarrow> take (length n) (drop i h) = n"
  by (auto simp: list_eq_iff_nth_eq)

lemma sublist_iff_block:
  "sublist n h \<longleftrightarrow> (\<exists>i. i + length n \<le> length h \<and> take (length n) (drop i h) = n)"
proof
  assume "sublist n h"
  then obtain ps ss where "h = ps @ n @ ss" by (auto simp: sublist_def)
  then show "\<exists>i. i + length n \<le> length h \<and> take (length n) (drop i h) = n"
    by (intro exI [of _ "length ps"]) simp
next
  assume "\<exists>i. i + length n \<le> length h \<and> take (length n) (drop i h) = n"
  then obtain i where "take (length n) (drop i h) = n" by blast
  then show "sublist n h" by (metis append_take_drop_id sublist_def)
qed

lemma contains_bytes_ci_sublist:
  "contains_bytes_ci h n \<longleftrightarrow> sublist n (map to_ascii_lowercase h)"
proof (cases "n = [] \<or> length n > length h")
  case True
  then show ?thesis by (auto simp: contains_bytes_ci_def dest: sublist_length_le)
next
  case False
  then have le: "length n \<le> length h" and "n \<noteq> []" by auto
  let ?h = "map to_ascii_lowercase h"
  have "contains_bytes_ci h n \<longleftrightarrow>
      (\<exists>i. i + length n \<le> length h \<and> (\<forall>j < length n. to_ascii_lowercase (h ! (i + j)) = n ! j))"
  proof -
    have "i \<in> set [0..<length h - length n + 1] \<longleftrightarrow> i + length n \<le> length h" for i
      using le by auto
    then show ?thesis
      using False by (simp add: contains_bytes_ci_def list_ex_iff list_all_iff Bex_def Ball_def
          del: upt_Suc set_upt) auto
  qed
  also have "\<dots> \<longleftrightarrow> (\<exists>i. i + length n \<le> length ?h \<and> (\<forall>j < length n. ?h ! (i + j) = n ! j))"
    by (intro ex_cong1 conj_cong refl) auto
  also have "\<dots> \<longleftrightarrow> sublist n ?h"
    unfolding sublist_iff_block using nth_block by blast
  finally show ?thesis .
qed

lemma contains_trigrams:
  "contains_bytes_ci content q \<Longrightarrow> set (extract_trigrams q) \<subseteq> set (trigrams_of content)"
  by (simp add: contains_bytes_ci_sublist trigrams_of_def windows3_sublist)

section \<open>Posting lists as sets of ids\<close>

definition posts :: "postings \<Rightarrow> trigram \<Rightarrow> nat set" where
  "posts m tg = set (entry_or_default tg m)"

definition lists_sorted :: "postings \<Rightarrow> bool" where
  "lists_sorted m \<longleftrightarrow> hok m \<and> (\<forall>l \<in> snd ` set m. sorted_wrt (<) l)"

lemma lists_sortedD: "lists_sorted m \<Longrightarrow> hget m tg = Some l \<Longrightarrow> sorted_wrt (<) l"
  by (force simp: lists_sorted_def dest: map_of_SomeD)

lemma entry_sorted: "lists_sorted m \<Longrightarrow> sorted_wrt (<) (entry_or_default tg m)"
  by (auto simp: entry_or_default_def lists_sortedD split: option.split)

lemma lists_sorted_hok: "lists_sorted m \<Longrightarrow> hok m"
  by (simp add: lists_sorted_def)

lemma posts_get: "hget m tg = Some l \<Longrightarrow> posts m tg = set l"
  by (simp add: posts_def entry_or_default_def)

lemma posts_none: "hget m tg = None \<Longrightarrow> posts m tg = {}"
  by (simp add: posts_def entry_or_default_def)

lemma posts_hinsert: "posts (hinsert tg l m) tg' = (if tg' = tg then set l else posts m tg')"
  by (auto simp: posts_def entry_or_default_def hmap_simps)

lemma posts_hremove: "posts (hremove tg m) tg' = (if tg' = tg then {} else posts m tg')"
  by (auto simp: posts_def entry_or_default_def hmap_simps)

lemma lists_sorted_hinsert: "lists_sorted m \<Longrightarrow> sorted_wrt (<) l \<Longrightarrow> lists_sorted (hinsert tg l m)"
proof -
  assume a: "lists_sorted m" "sorted_wrt (<) l"
  have "sorted_wrt (<) l'" if "(tg', l') \<in> set (hinsert tg l m)" for tg' l'
  proof -
    have "hget (hinsert tg l m) tg' = Some l'"
      using that a(1) by (simp add: hget_Some_iff lists_sorted_hok)
    then show ?thesis using a by (auto simp: hmap_simps lists_sortedD split: if_splits)
  qed
  then show ?thesis using a(1) by (auto simp: lists_sorted_def)
qed

lemma lists_sorted_hremove: "lists_sorted m \<Longrightarrow> lists_sorted (hremove tg m)"
  by (auto simp: lists_sorted_def set_hremove)

lemma insert_sorted_spec:
  assumes "sorted_wrt (<) l"
  shows "sorted_wrt (<) (insert_sorted l i)" and "set (insert_sorted l i) = insert i (set l)"
proof -
  show "sorted_wrt (<) (insert_sorted l i)"
    using assms bs.insert_at(1) [OF assms, of i] by (auto simp: insert_sorted_def split: sum.split)
  show "set (insert_sorted l i) = insert i (set l)"
  proof (cases "binary_search l i")
    case (Inl pos)
    with bs.insert_at(2) [OF assms this] show ?thesis by (simp add: insert_sorted_def)
  next
    case (Inr pos)
    with bs.found_iff [OF assms, of i] show ?thesis by (auto simp: insert_sorted_def)
  qed
qed

lemma remove_at_found_spec:
  assumes "sorted_wrt (<) l"
  shows "sorted_wrt (<) (remove_at_found l i)" and "set (remove_at_found l i) = set l - {i}"
proof -
  show "sorted_wrt (<) (remove_at_found l i)"
    using assms bs.remove_at(1) [OF assms, of i] by (auto simp: remove_at_found_def split: sum.split)
  show "set (remove_at_found l i) = set l - {i}"
  proof (cases "binary_search l i")
    case (Inl pos)
    with bs.found_iff [OF assms, of i] show ?thesis by (auto simp: remove_at_found_def)
  next
    case (Inr pos)
    with bs.remove_at(2) [OF assms this] show ?thesis by (simp add: remove_at_found_def)
  qed
qed

lemma insert_posting_spec:
  assumes "lists_sorted m"
  shows "lists_sorted (insert_posting i tg m)"
    and "posts (insert_posting i tg m) tg' = posts m tg' \<union> (if tg' = tg then {i} else {})"
  using assms insert_sorted_spec [OF entry_sorted [OF assms, of tg], of i]
  by (auto simp: insert_posting_def posts_hinsert lists_sorted_hinsert posts_def [of m])

lemma remove_id_eq:
  assumes "lists_sorted m"
  shows "remove_id i tg m =
    (case hget m tg of None \<Rightarrow> m
     | Some l \<Rightarrow> if i \<in> set l then (if remove_at_found l i = [] then hremove tg m
                                  else hinsert tg (remove_at_found l i) m) else m)"
proof (cases "hget m tg")
  case (Some l)
  show ?thesis
    using bs.found_iff [OF lists_sortedD [OF assms Some], of i] Some
    by (cases "binary_search l i") (auto simp: remove_id_def remove_at_found_def Let_def)
qed (simp add: remove_id_def)

lemma remove_id_spec:
  assumes "lists_sorted m"
  shows "lists_sorted (remove_id i tg m)"
    and "posts (remove_id i tg m) tg' = posts m tg' - (if tg' = tg then {i} else {})"
proof -
  show "lists_sorted (remove_id i tg m)"
    using assms
    by (auto simp: remove_id_eq lists_sorted_hinsert lists_sorted_hremove remove_at_found_spec(1)
        lists_sortedD split: option.split)
  show "posts (remove_id i tg m) tg' = posts m tg' - (if tg' = tg then {i} else {})"
  proof (cases "hget m tg")
    case None
    then show ?thesis using assms by (auto simp: remove_id_eq posts_none)
  next
    case (Some l)
    then have s: "set (remove_at_found l i) = set l - {i}"
      using assms by (simp add: remove_at_found_spec(2) lists_sortedD)
    moreover have "remove_at_found l i = [] \<longleftrightarrow> set l - {i} = {}" using s by (metis set_empty)
    ultimately show ?thesis
      using assms Some by (auto simp: remove_id_eq posts_hinsert posts_hremove posts_get)
  qed
qed

lemma insert_postings_spec:
  "lists_sorted m \<Longrightarrow> lists_sorted (fold (insert_posting i) tgs m) \<and>
     posts (fold (insert_posting i) tgs m) tg = posts m tg \<union> (if tg \<in> set tgs then {i} else {})"
  by (induction tgs arbitrary: m) (auto simp: insert_posting_spec)

lemma remove_ids_spec:
  "lists_sorted m \<Longrightarrow> lists_sorted (fold (remove_id i) tgs m) \<and>
     posts (fold (remove_id i) tgs m) tg = posts m tg - (if tg \<in> set tgs then {i} else {})"
  by (induction tgs arbitrary: m) (auto simp: remove_id_spec)

lemma remove_id_everywhere_spec:
  assumes m: "lists_sorted m"
  shows "lists_sorted (remove_id_everywhere i m)"
    and "posts (remove_id_everywhere i m) tg = posts m tg - {i}"
proof -
  have s: "sorted_wrt (<) (remove_at_found l i) \<and> set (remove_at_found l i) = set l - {i}"
    if "(t, l) \<in> set m" for t l
    using that m remove_at_found_spec by (fastforce simp: lists_sorted_def)
  have keys: "fst \<circ> (\<lambda>(t :: trigram, l). (t, remove_at_found l i)) = fst"
    by auto
  have ok: "hok (remove_id_everywhere i m)"
    unfolding remove_id_everywhere_def
    by (rule hok_filter) (use m keys in \<open>simp add: hok_def lists_sorted_def\<close>)
  then show "lists_sorted (remove_id_everywhere i m)"
    using s by (auto simp: lists_sorted_def remove_id_everywhere_def)
  have mem: "(tg, l') \<in> set (remove_id_everywhere i m) \<longleftrightarrow>
      (\<exists>l. (tg, l) \<in> set m \<and> l' = remove_at_found l i \<and> l' \<noteq> [])" for l'
    by (auto simp: remove_id_everywhere_def)
  show "posts (remove_id_everywhere i m) tg = posts m tg - {i}"
  proof (cases "hget m tg")
    case None
    then have "hget (remove_id_everywhere i m) tg = None"
      using mem by (force simp: hmap_simps)
    with None show ?thesis by (simp add: posts_none)
  next
    case (Some l)
    then have l: "(tg, l) \<in> set m" by (rule map_of_SomeD)
    show ?thesis
    proof (cases "remove_at_found l i = []")
      case True
      have "hget (remove_id_everywhere i m) tg = None"
      proof (rule ccontr)
        assume "hget (remove_id_everywhere i m) tg \<noteq> None"
        then obtain l' l2 where "(tg, l2) \<in> set m" "l' = remove_at_found l2 i" "l' \<noteq> []"
          using mem map_of_SomeD by (metis not_None_eq)
        with l m True show False by (metis hget_Some_iff lists_sorted_hok option.inject)
      qed
      with True s [OF l] Some show ?thesis by (auto simp: posts_none posts_get)
    next
      case False
      then have "hget (remove_id_everywhere i m) tg = Some (remove_at_found l i)"
        using ok l mem by (auto simp: hget_Some_iff)
      with s [OF l] Some show ?thesis by (simp add: posts_get)
    qed
  qed
qed

section \<open>Well-formedness and coherence\<close>

definition tri_wf :: "trigram_index \<Rightarrow> bool" where
  "tri_wf idx \<longleftrightarrow>
     lists_sorted (tri_map idx) \<and> hok (id_to_path idx) \<and> hok (path_to_id idx) \<and>
     (\<forall>i p. hget (id_to_path idx) i = Some p \<longleftrightarrow> hget (path_to_id idx) p = Some i) \<and>
     (\<forall>i p. hget (id_to_path idx) i = Some p \<longrightarrow> i < next_id idx) \<and>
     (\<forall>tg. posts (tri_map idx) tg \<subseteq> dom (hget (id_to_path idx)))"

definition indexed_with :: "trigram_index \<Rightarrow> contents \<Rightarrow> nat \<Rightarrow> trigram \<Rightarrow> bool" where
  "indexed_with idx files i tg \<longleftrightarrow>
     (\<exists>p c. hget (id_to_path idx) i = Some p \<and> hget files p = Some c \<and> tg \<in> set (trigrams_of c))"

definition coherent :: "trigram_index \<Rightarrow> contents \<Rightarrow> bool" where
  "coherent idx files \<longleftrightarrow>
     tri_wf idx \<and> hok files \<and>
     (\<forall>p. hget (path_to_id idx) p = None \<longleftrightarrow> hget files p = None) \<and>
     (\<forall>i tg. i \<in> posts (tri_map idx) tg \<longleftrightarrow> indexed_with idx files i tg)"

definition matching_paths :: "contents \<Rightarrow> bytes \<Rightarrow> string set" where
  "matching_paths files query =
     {p. \<exists>c. hget files p = Some c \<and>
             sublist (map to_ascii_lowercase query) (map to_ascii_lowercase c)}"

lemma coherentD:
  assumes "coherent idx files"
  shows "tri_wf idx" and "hok files" and "lists_sorted (tri_map idx)"
    and "hget (id_to_path idx) i = Some p \<longleftrightarrow> hget (path_to_id idx) p = Some i"
    and "hget (id_to_path idx) i = Some p \<Longrightarrow> i < next_id idx"
    and "hget (path_to_id idx) p = None \<longleftrightarrow> hget files p = None"
    and "i \<in> posts (tri_map idx) tg \<longleftrightarrow> indexed_with idx files i tg"
    and "hok (id_to_path idx)" and "hok (path_to_id idx)"
  using assms unfolding coherent_def tri_wf_def by blast+

lemma coherent_new: "coherent new_index []"
  by (simp add: coherent_def tri_wf_def new_index_def lists_sorted_def indexed_with_def posts_def
      entry_or_default_def)

section \<open>Search\<close>

lemma intersect_lists_spec:
  "\<forall>l \<in> set ls. sorted_wrt (<) l \<Longrightarrow>
     intersect_lists cs ls = filter (\<lambda>i. \<forall>l \<in> set ls. i \<in> set l) cs"
proof (induction ls arbitrary: cs)
  case (Cons l ls)
  have found: "(case binary_search l i of Ok _ \<Rightarrow> True | Err _ \<Rightarrow> False) \<longleftrightarrow> i \<in> set l" for i
    using bs.found_iff [of l i] Cons.prems by (auto split: sum.split)
  have nested: "filter (\<lambda>i. \<forall>l \<in> set ls. i \<in> set l) (filter (\<lambda>i. i \<in> set l) cs)
      = filter (\<lambda>i. \<forall>l \<in> set (l # ls). i \<in> set l) cs"
    by (simp add: conj_commute)
  show ?case
    using Cons.IH [of "filter (\<lambda>i. i \<in> set l) cs"] Cons.prems
    unfolding intersect_lists.simps found Let_def nested [symmetric]
    by (cases "filter (\<lambda>i. i \<in> set l) cs = []") simp_all
qed simp

lemma set_linear_scan_lower:
  "hok files \<Longrightarrow> set (linear_scan_lower q files) = {p. \<exists>c. hget files p = Some c \<and> contains_bytes_ci c q}"
  by (force simp: linear_scan_lower_def set_map_filter hget_Some_iff split: if_splits)

lemma distinct_linear_scan_lower: "hok files \<Longrightarrow> distinct (linear_scan_lower q files)"
proof -
  have "linear_scan_lower q files = map fst (filter (\<lambda>(_, c). contains_bytes_ci c q) files)"
    by (auto simp: linear_scan_lower_def List.map_filter_def intro!: map_cong filter_cong
        split: if_splits)
  then show "hok files \<Longrightarrow> ?thesis" using hok_filter by (auto simp: hok_def)
qed

lemma verify_candidate_Some:
  "verify_candidate idx q files i = Some p \<longleftrightarrow>
     hget (id_to_path idx) i = Some p \<and> (\<exists>c. hget files p = Some c \<and> contains_bytes_ci c q)"
  by (auto simp: verify_candidate_def split: option.split)

lemma matching_paths_eq:
  "matching_paths files q = {p. \<exists>c. hget files p = Some c \<and> contains_bytes_ci c (map to_ascii_lowercase q)}"
  by (simp add: matching_paths_def contains_bytes_ci_sublist)

text \<open>What the long-query branch computes, given the posting lists in any order.\<close>

lemma search_long:
  assumes "3 \<le> length q"
  shows "search idx q files =
    (case sort_key length (List.map_filter (hget (tri_map idx)) (extract_trigrams (map to_ascii_lowercase q))) of
       [] \<Rightarrow> []
     | l # ls \<Rightarrow> List.map_filter (verify_candidate idx (map to_ascii_lowercase q) files) (intersect_lists l ls))"
  using assms by (auto simp: search_def Let_def)

lemma search_short:
  "q \<noteq> [] \<Longrightarrow> length q < 3 \<Longrightarrow> search idx q files = linear_scan_lower (map to_ascii_lowercase q) files"
  by (simp add: search_def Let_def)

lemma search_long_candidates:
  assumes wf: "lists_sorted (tri_map idx)" and "3 \<le> length q"
    and ls: "sort_key length (List.map_filter (hget (tri_map idx))
               (extract_trigrams (map to_ascii_lowercase q))) = l # ls"
  shows "sorted_wrt (<) l"
    and "intersect_lists l ls = filter (\<lambda>i. \<forall>l' \<in> set ls. i \<in> set l') l"
proof -
  have "set (l # ls) = set (List.map_filter (hget (tri_map idx)) (extract_trigrams (map to_ascii_lowercase q)))"
    using ls by (metis set_sort)
  then have "\<forall>l' \<in> set (l # ls). sorted_wrt (<) l'"
    using lists_sortedD [OF wf] by (auto simp: set_map_filter)
  then show "sorted_wrt (<) l" and "intersect_lists l ls = filter (\<lambda>i. \<forall>l' \<in> set ls. i \<in> set l') l"
    by (auto simp: intersect_lists_spec)
qed

lemma search_set:
  assumes c: "coherent idx files" and "q \<noteq> []"
  shows "set (search idx q files) = matching_paths files q"
proof (cases "length q < 3")
  case True
  then show ?thesis
    using assms by (simp add: search_short set_linear_scan_lower matching_paths_eq coherentD(2))
next
  case False
  then have len: "3 \<le> length q" by simp
  let ?q = "map to_ascii_lowercase q"
  let ?found = "List.map_filter (hget (tri_map idx)) (extract_trigrams ?q)"
  have complete: "\<exists>i. hget (id_to_path idx) i = Some p \<and> (\<forall>tg \<in> set (extract_trigrams ?q). i \<in> posts (tri_map idx) tg)"
    if p: "p \<in> matching_paths files q" for p
  proof -
    obtain co where co: "hget files p = Some co" "contains_bytes_ci co ?q"
      using p by (auto simp: matching_paths_eq)
    obtain i where "hget (id_to_path idx) i = Some p"
      using coherentD(4,6) [OF c] co by (metis not_None_eq)
    then show ?thesis
      using contains_trigrams [OF co(2)] co(1) coherentD(7) [OF c] by (auto simp: indexed_with_def)
  qed
  have tgs: "extract_trigrams ?q \<noteq> []"
    using len by (metis length_map linorder_not_le set_empty set_extract_trigrams windows3_Nil_iff)
  show ?thesis
  proof (cases "sort_key length ?found")
    case Nil
    then have "?found = []" by (metis set_empty set_sort)
    then have "posts (tri_map idx) tg = {}" if "tg \<in> set (extract_trigrams ?q)" for tg
      using that by (cases "hget (tri_map idx) tg")
        (force simp: posts_none set_map_filter set_empty [symmetric] simp del: set_empty)+
    then have "matching_paths files q = {}"
      using complete tgs by (metis all_not_in_conv last_in_set)
    then show ?thesis using Nil len by (simp add: search_long)
  next
    case (Cons l ls)
    have found: "set (l # ls) = {l. \<exists>tg \<in> set (extract_trigrams ?q). hget (tri_map idx) tg = Some l}"
      using Cons by (metis set_map_filter set_sort)
    note cand = search_long_candidates [OF coherentD(3) [OF c] len Cons]
    have "set (search idx q files) = {p. \<exists>i. (\<forall>l' \<in> set (l # ls). i \<in> set l') \<and> verify_candidate idx ?q files i = Some p}"
      using Cons len by (auto simp: search_long cand set_map_filter)
    also have "\<dots> = matching_paths files q"
    proof (intro equalityI subsetI)
      fix p assume p: "p \<in> matching_paths files q"
      then obtain i where i: "hget (id_to_path idx) i = Some p" "\<forall>tg \<in> set (extract_trigrams ?q). i \<in> posts (tri_map idx) tg"
        using complete by blast
      then have "\<forall>l' \<in> set (l # ls). i \<in> set l'"
        unfolding found by (auto simp: posts_get)
      with p i(1) show "p \<in> {p. \<exists>i. (\<forall>l' \<in> set (l # ls). i \<in> set l') \<and> verify_candidate idx ?q files i = Some p}"
        by (auto simp: verify_candidate_Some matching_paths_eq)
    qed (auto simp: verify_candidate_Some matching_paths_eq)
    finally show ?thesis .
  qed
qed

lemma search_distinct:
  assumes "tri_wf idx" and "hok files"
  shows "distinct (search idx q files)"
proof (cases "q = [] \<or> length q < 3")
  case True
  then show ?thesis using assms(2)
    by (cases "q = []") (auto simp: search_short distinct_linear_scan_lower, simp add: search_def)
next
  case False
  then have len: "3 \<le> length q" by simp
  have wf: "lists_sorted (tri_map idx)" using assms(1) by (simp add: tri_wf_def)
  have inj: "i = i'" if "hget (id_to_path idx) i = Some p" "hget (id_to_path idx) i' = Some p" for i i' p
    using that assms(1) by (auto simp: tri_wf_def)
  show ?thesis
  proof (cases "sort_key length (List.map_filter (hget (tri_map idx)) (extract_trigrams (map to_ascii_lowercase q)))")
    case (Cons l ls)
    have "distinct (intersect_lists l ls)"
      using search_long_candidates [OF wf len Cons] by (simp add: strict_sorted_iff)
    then show ?thesis
      using Cons len inj by (auto simp: search_long verify_candidate_Some intro!: distinct_map_filter)
  qed (use len in \<open>simp add: search_long\<close>)
qed

lemma search_never_false_positive:
  assumes "hok files" and "p \<in> set (search idx q files)"
  shows "p \<in> matching_paths files q"
proof (cases "length q < 3")
  case True
  then show ?thesis
    using assms by (cases "q = []") (auto simp: search_short set_linear_scan_lower matching_paths_eq, simp add: search_def)
next
  case False
  then show ?thesis
    using assms(2)
    by (auto simp: search_long set_map_filter verify_candidate_Some matching_paths_eq split: list.splits)
qed

section \<open>Updates keep the index coherent\<close>

lemma coherentI:
  assumes "lists_sorted (tri_map idx)" and "hok (id_to_path idx)" and "hok (path_to_id idx)"
    and "hok files"
    and "\<And>i p. hget (id_to_path idx) i = Some p \<longleftrightarrow> hget (path_to_id idx) p = Some i"
    and "\<And>i p. hget (id_to_path idx) i = Some p \<Longrightarrow> i < next_id idx"
    and "\<And>p. hget (path_to_id idx) p = None \<longleftrightarrow> hget files p = None"
    and posts: "\<And>i tg. i \<in> posts (tri_map idx) tg \<longleftrightarrow> indexed_with idx files i tg"
  shows "coherent idx files"
proof -
  have "posts (tri_map idx) tg \<subseteq> dom (hget (id_to_path idx))" for tg
    using posts [of _ tg] by (auto simp: indexed_with_def)
  then show ?thesis using assms unfolding coherent_def tri_wf_def by blast
qed

lemma coherent_id_unique:
  assumes "coherent idx files" and "hget (path_to_id idx) p = Some i"
  shows "hget (id_to_path idx) j = Some p \<longleftrightarrow> j = i"
  using assms by (auto simp: coherentD(4))

text \<open>Replacing the postings of a tracked path.\<close>

lemma coherent_replace:
  assumes c: "coherent idx files" and i: "hget (path_to_id idx) p = Some i"
    and m: "lists_sorted m"
    and posts: "\<And>tg. posts m tg = posts (tri_map idx) tg - {i} \<union> (if tg \<in> set (trigrams_of co) then {i} else {})"
  shows "coherent (idx\<lparr>tri_map := m\<rparr>) (hinsert p co files)"
proof (rule coherentI)
  fix q
  show "hget (path_to_id (idx\<lparr>tri_map := m\<rparr>)) q = None \<longleftrightarrow> hget (hinsert p co files) q = None"
    using i coherentD(6) [OF c, of q] by (auto simp: hget_hinsert)
next
  fix j tg
  have "hget (id_to_path idx) i = Some p" using i by (simp add: coherentD(4) [OF c])
  then show "j \<in> posts (tri_map (idx\<lparr>tri_map := m\<rparr>)) tg \<longleftrightarrow>
      indexed_with (idx\<lparr>tri_map := m\<rparr>) (hinsert p co files) j tg"
    using coherent_id_unique [OF c i, of j]
    by (auto simp: posts indexed_with_def coherentD(7) [OF c] hget_hinsert split: if_splits)
qed (use m coherentD [OF c] in auto)

text \<open>Tracking a new path under the next id.\<close>

lemma coherent_add:
  assumes c: "coherent idx files" and p: "hget (path_to_id idx) p = None"
    and m: "lists_sorted m"
    and posts: "\<And>tg. posts m tg = posts (tri_map idx) tg \<union> (if tg \<in> set (trigrams_of co) then {next_id idx} else {})"
    and itp: "id_to_path idx' = hinsert (next_id idx) p (id_to_path idx)"
    and pti: "path_to_id idx' = hinsert p (next_id idx) (path_to_id idx)"
    and nx: "next_id idx' = next_id idx + 1" and mp: "tri_map idx' = m"
  shows "coherent idx' (hinsert p co files)"
proof (rule coherentI)
  have fresh: "hget (id_to_path idx) (next_id idx) = None"
    using coherentD(5) [OF c, of "next_id idx"] by (cases "hget (id_to_path idx) (next_id idx)") auto
  have unused: "hget (id_to_path idx) j \<noteq> Some p" for j
    using p by (simp add: coherentD(4) [OF c])
  have unused': "hget (path_to_id idx) q \<noteq> Some (next_id idx)" for q
    using fresh by (simp flip: coherentD(4) [OF c])
  fix j q
  show "hget (id_to_path idx') j = Some q \<longleftrightarrow> hget (path_to_id idx') q = Some j"
    using unused unused' coherentD(4) [OF c, of j q] by (auto simp: itp pti hget_hinsert)
  show "hget (id_to_path idx') j = Some q \<Longrightarrow> j < next_id idx'"
    using coherentD(5) [OF c, of j q] by (auto simp: itp nx hget_hinsert split: if_splits)
  show "hget (path_to_id idx') q = None \<longleftrightarrow> hget (hinsert p co files) q = None"
    using coherentD(6) [OF c, of q] by (auto simp: pti hget_hinsert)
  fix tg
  show "j \<in> posts (tri_map idx') tg \<longleftrightarrow> indexed_with idx' (hinsert p co files) j tg"
    using fresh unused [of j] coherentD(7) [OF c, of j tg]
    by (auto simp: mp posts indexed_with_def itp hget_hinsert split: if_splits)
qed (use m mp coherentD [OF c] in \<open>auto simp: itp pti\<close>)

lemma insert_file_coherent_new:
  assumes "coherent idx files" and "hget (path_to_id idx) p = None"
  shows "coherent (insert_file p co idx) (hinsert p co files)"
  using assms(2) insert_postings_spec [OF coherentD(3) [OF assms(1)]]
  by (intro coherent_add [OF assms, where m = "fold (insert_posting (next_id idx)) (trigrams_of co) (tri_map idx)"])
    (auto simp: insert_file_def get_or_alloc_id_def Let_def)

lemma update_file_coherent_aux:
  assumes c: "coherent idx files"
    and old: "\<And>o'. old = Some o' \<Longrightarrow> hget (path_to_id idx) p \<noteq> None \<Longrightarrow> hget files p = Some o'"
  shows "coherent (update_file p old co idx) (hinsert p co files)"
proof (cases "hget (path_to_id idx) p")
  case None
  then show ?thesis using c by (simp add: update_file_def insert_file_coherent_new)
next
  case (Some i)
  note sorted = coherentD(3) [OF c]
  show ?thesis
  proof (cases old)
    case None
    have "update_file p old co idx =
        idx\<lparr>tri_map := fold (insert_posting i) (trigrams_of co) (remove_id_everywhere i (tri_map idx))\<rparr>"
      using Some None by (simp add: update_file_def insert_file_def get_or_alloc_id_def)
    moreover note remove_id_everywhere_spec [OF sorted, of i]
    ultimately show ?thesis
      using coherent_replace [OF c Some] insert_postings_spec by metis
  next
    case (Some o')
    let ?rem = "filter (\<lambda>t. t \<notin> set (trigrams_of co)) (trigrams_of o')"
    let ?add = "filter (\<lambda>t. t \<notin> set (trigrams_of o')) (trigrams_of co)"
    let ?m = "fold (insert_posting i) ?add (fold (remove_id i) ?rem (tri_map idx))"
    have f: "hget files p = Some o'" using old Some \<open>hget (path_to_id idx) p = Some i\<close> by simp
    have i: "hget (id_to_path idx) i = Some p"
      using \<open>hget (path_to_id idx) p = Some i\<close> by (simp add: coherentD(4) [OF c])
    have was: "i \<in> posts (tri_map idx) tg \<longleftrightarrow> tg \<in> set (trigrams_of o')" for tg
      using i f by (auto simp: coherentD(7) [OF c] indexed_with_def)
    have r: "lists_sorted (fold (remove_id i) ?rem (tri_map idx))"
      using remove_ids_spec [OF sorted] by blast
    have "posts ?m tg = posts (tri_map idx) tg - {i} \<union> (if tg \<in> set (trigrams_of co) then {i} else {})" for tg
      using insert_postings_spec [OF r, of i ?add tg] remove_ids_spec [OF sorted, of i ?rem tg] was [of tg]
      by auto
    then have "coherent (idx\<lparr>tri_map := ?m\<rparr>) (hinsert p co files)"
      using insert_postings_spec [OF r] by (intro coherent_replace [OF c \<open>hget (path_to_id idx) p = Some i\<close>]) auto
    then show ?thesis
      using Some \<open>hget (path_to_id idx) p = Some i\<close> by (simp add: update_file_def Let_def)
  qed
qed

lemma coherent_forget:
  assumes c: "coherent idx files" and i: "hget (path_to_id idx) p = Some i"
    and m: "lists_sorted m" and posts: "\<And>tg. posts m tg = posts (tri_map idx) tg - {i}"
  shows "coherent (idx\<lparr>path_to_id := hremove p (path_to_id idx), id_to_path := hremove i (id_to_path idx),
                       tri_map := m\<rparr>) (hremove p files)"
proof (rule coherentI, goal_cases)
  case (5 j q)
  then show ?case
    using coherentD(4) [OF c, of j q] coherentD(4) [OF c, of j p] coherentD(4) [OF c, of i q] i
    by (auto simp: hget_hremove)
next
  case (6 j q)
  then show ?case using coherentD(5) [OF c, of j q] by (auto simp: hget_hremove split: if_splits)
next
  case (7 q)
  then show ?case using coherentD(6) [OF c, of q] by (auto simp: hget_hremove)
next
  case (8 j tg)
  then show ?case
    using coherent_id_unique [OF c i, of j]
    by (auto simp: posts indexed_with_def coherentD(7) [OF c] hget_hremove)
qed (use m coherentD [OF c] in auto)

lemma remove_file_coherent_aux:
  assumes c: "coherent idx files" and co: "\<And>o'. co = Some o' \<Longrightarrow> hget files p \<noteq> None \<Longrightarrow> hget files p = Some o'"
  shows "coherent (remove_file p co idx) (hremove p files)"
proof (cases "hget (path_to_id idx) p")
  case None
  then have "hget files p = None" by (simp add: coherentD(6) [OF c])
  then have "hremove p files = files" by (simp add: delete_idem hmap_simps)
  then show ?thesis using None c by (simp add: remove_file_def)
next
  case (Some i)
  note sorted = coherentD(3) [OF c]
  show ?thesis
  proof (cases co)
    case None
    then show ?thesis
      using coherent_forget [OF c Some remove_id_everywhere_spec(1) [OF sorted]]
        remove_id_everywhere_spec(2) [OF sorted] Some
      by (simp add: remove_file_def Let_def)
  next
    case (Some o')
    have i: "hget (id_to_path idx) i = Some p" and f: "hget files p = Some o'"
      using \<open>hget (path_to_id idx) p = Some i\<close> co Some coherentD(6) [OF c, of p]
      by (auto simp: coherentD(4) [OF c])
    have was: "i \<in> posts (tri_map idx) tg \<longleftrightarrow> tg \<in> set (trigrams_of o')" for tg
      using i f by (auto simp: coherentD(7) [OF c] indexed_with_def)
    have "posts (fold (remove_id i) (trigrams_of o') (tri_map idx)) tg = posts (tri_map idx) tg - {i}" for tg
      using remove_ids_spec [OF sorted, of i "trigrams_of o'" tg] was [of tg] by auto
    then show ?thesis
      using coherent_forget [OF c \<open>hget (path_to_id idx) p = Some i\<close>, of "fold (remove_id i) (trigrams_of o') (tri_map idx)"]
        remove_ids_spec [OF sorted] \<open>hget (path_to_id idx) p = Some i\<close> Some
      by (simp add: remove_file_def Let_def)
  qed
qed

section \<open>Building from scratch\<close>

lemma sorted_remdups_adj_strict: "sorted xs \<Longrightarrow> sorted_wrt (<) (remdups_adj (xs :: nat list))"
  by (induction xs rule: remdups_adj.induct) auto

definition alloc_all :: "contents \<Rightarrow> trigram_index" where
  "alloc_all files = fold (\<lambda>(path, _) idx. snd (get_or_alloc_id path idx)) files new_index"

lemma alloc_all_snoc: "alloc_all (fs @ [(p, c)]) = snd (get_or_alloc_id p (alloc_all fs))"
  by (simp add: alloc_all_def)

lemma alloc_all_spec:
  "hok files \<Longrightarrow>
     tri_map (alloc_all files) = [] \<and> next_id (alloc_all files) = length files \<and>
     hok (id_to_path (alloc_all files)) \<and> hok (path_to_id (alloc_all files)) \<and>
     (\<forall>p i. hget (path_to_id (alloc_all files)) p = Some i \<longleftrightarrow> i < length files \<and> fst (files ! i) = p) \<and>
     (\<forall>i p. hget (id_to_path (alloc_all files)) i = Some p \<longleftrightarrow> i < length files \<and> fst (files ! i) = p)"
proof (induction files rule: rev_induct)
  case Nil
  show ?case by (simp add: alloc_all_def new_index_def)
next
  case (snoc pc fs)
  obtain p c where pc: "pc = (p, c)" by (cases pc)
  have ok: "hok fs" and p: "p \<notin> fst ` set fs" using snoc.prems pc by (auto simp: hok_def)
  note IH = snoc.IH [OF ok]
  have "hget (path_to_id (alloc_all fs)) p = None"
  proof (rule ccontr)
    assume "hget (path_to_id (alloc_all fs)) p \<noteq> None"
    then obtain i where "i < length fs" "fst (fs ! i) = p" using IH by auto
    with p show False by (metis image_eqI nth_mem)
  qed
  moreover have "fst (fs ! i) \<noteq> p" if "i < length fs" for i using p that by (metis image_eqI nth_mem)
  ultimately show ?case
    using IH unfolding pc alloc_all_snoc
    by (auto simp: get_or_alloc_id_def Let_def hget_hinsert nth_append less_Suc_eq)
qed

lemma push_postings_spec:
  "hok m \<Longrightarrow> hok (fold (push_posting i) tgs m) \<and>
     posts (fold (push_posting i) tgs m) tg = posts m tg \<union> (if tg \<in> set tgs then {i} else {})"
proof (induction tgs arbitrary: m)
  case (Cons t tgs)
  have "hok (push_posting i t m)" using Cons.prems by (simp add: push_posting_def)
  moreover have "posts (push_posting i t m) tg = posts m tg \<union> (if tg = t then {i} else {})"
    by (auto simp: push_posting_def posts_hinsert posts_def [of m])
  ultimately show ?case using Cons.IH [of "push_posting i t m"] by auto
qed simp

lemma push_shards_spec:
  "hok m \<Longrightarrow> hok (fold (\<lambda>(i, tgs). fold (push_posting i) tgs) es m) \<and>
     posts (fold (\<lambda>(i, tgs). fold (push_posting i) tgs) es m) tg =
       posts m tg \<union> {i. \<exists>tgs. (i, tgs) \<in> set es \<and> tg \<in> set tgs}"
proof (induction es arbitrary: m)
  case (Cons e es)
  obtain i tgs where e: "e = (i, tgs)" by force
  have ok: "hok (fold (push_posting i) tgs m)" using push_postings_spec [OF Cons.prems] by blast
  show ?case
    using Cons.IH [OF ok] push_postings_spec [OF Cons.prems, of i tgs tg] by (auto simp: e)
qed simp

lemma sort_values_spec:
  assumes "hok m"
  shows "lists_sorted (map (\<lambda>(tg, l). (tg, remdups_adj (sort l))) m)"
    and "posts (map (\<lambda>(tg, l). (tg, remdups_adj (sort l))) m) tg = posts m tg"
proof -
  have "fst \<circ> (\<lambda>(tg :: trigram, l :: nat list). (tg, remdups_adj (sort l))) = fst" by auto
  then show "lists_sorted (map (\<lambda>(tg, l). (tg, remdups_adj (sort l))) m)"
    using assms by (auto simp: lists_sorted_def hok_def sorted_remdups_adj_strict)
  have "hget (map (\<lambda>(tg, l). (tg, remdups_adj (sort l))) m) tg = map_option (\<lambda>l. remdups_adj (sort l)) (hget m tg)"
    by (simp add: map_of_map)
  then show "posts (map (\<lambda>(tg, l). (tg, remdups_adj (sort l))) m) tg = posts m tg"
    by (cases "hget m tg") (simp_all add: posts_get posts_none)
qed

lemma build_coherent:
  assumes ok: "hok files"
  shows "coherent (build_from_files files) files"
proof -
  let ?shards = "map (\<lambda>(_, content). trigrams_of content) files"
  let ?m = "push_shards 0 ?shards []"
  note A = alloc_all_spec [OF ok]
  have b: "build_from_files files = (alloc_all files)\<lparr>tri_map := map (\<lambda>(tg, l). (tg, remdups_adj (sort l))) ?m\<rparr>"
    using A by (simp add: build_from_files_def alloc_all_def Let_def)
  have m: "hok ?m" "posts ?m tg = {i. i < length files \<and> tg \<in> set (trigrams_of (snd (files ! i)))}" for tg
    using push_shards_spec [of "[]" "List.enumerate 0 ?shards"]
    by (auto simp: push_shards_def posts_none in_set_enumerate_eq split_beta)
  show ?thesis
  proof (rule coherentI)
    fix p
    have "hget files p = None \<longleftrightarrow> (\<forall>i < length files. fst (files ! i) \<noteq> p)"
      unfolding hget_None_iff by (metis (no_types, lifting) image_iff in_set_conv_nth)
    then show "hget (path_to_id (build_from_files files)) p = None \<longleftrightarrow> hget files p = None"
      using A by (simp add: b) (metis not_None_eq)
  next
    fix i tg
    have get: "hget files p = Some c \<longleftrightarrow> snd (files ! i) = c" if "i < length files" "fst (files ! i) = p" for p c
      using that ok by (metis hget_Some_iff nth_mem option.inject prod.collapse)
    show "i \<in> posts (tri_map (build_from_files files)) tg \<longleftrightarrow> indexed_with (build_from_files files) files i tg"
      using A m get by (auto simp: b indexed_with_def sort_values_spec)
  qed (use A m ok sort_values_spec(1) in \<open>auto simp: b\<close>)
qed

section \<open>Persistence\<close>

lemma bit_u8_bound: "bit (a::u8) n \<Longrightarrow> n < 8"
  using bit_imp_le_length [of a n] by simp

lemma le_24_bits: "(k :: u32) \<le> 0xFFFFFF \<longleftrightarrow> take_bit 24 k = k"
proof -
  have "k \<le> 0xFFFFFF \<longleftrightarrow> unat k < 2 ^ 24" by (simp add: word_le_nat_alt) auto
  also have "\<dots> \<longleftrightarrow> take_bit 24 (unat k) = unat k" by (simp add: take_bit_nat_eq_self_iff)
  also have "\<dots> \<longleftrightarrow> take_bit 24 k = k" by (simp add: word_unat_eq_iff unsigned_take_bit_eq)
  finally show ?thesis .
qed

lemma pack_trigram_le: "pack_trigram t \<le> 0xFFFFFF"
  unfolding le_24_bits
  by (auto simp: bit_eq_iff bit_simps pack_trigram_def split: prod.split dest: bit_u8_bound)

lemma unpack_pack: "unpack_trigram (pack_trigram t) = Some t"
proof -
  obtain a b c where t: "t = (a, b, c)" by (cases t)
  have "ucast (pack_trigram t) = a" "ucast (drop_bit 8 (pack_trigram t)) = b" "ucast (drop_bit 16 (pack_trigram t)) = c"
    unfolding t pack_trigram_def 
    by (auto simp: bit_eq_iff bit_simps dest: bit_u8_bound)
  then show ?thesis using pack_trigram_le [of t] t by (simp add: unpack_trigram_def not_less)
qed

lemma pack_unpack: 
  assumes "unpack_trigram k = Some t" shows "pack_trigram t = k"
proof -
  have k: "take_bit 24 k = k" and t: "t = (ucast k, ucast (drop_bit 8 k), ucast (drop_bit 16 k))"
    using assms by (auto simp: unpack_trigram_def not_less le_24_bits split: if_splits)
  have small: "bit k n \<Longrightarrow> n < 24" for n using k by (metis bit_take_bit_iff)
  show ?thesis
  proof (rule bit_word_eqI)
    fix n assume "n < LENGTH(32)"
    consider "n < 8" | "8 \<le> n" "n < 16" | "16 \<le> n" "n < 24" | "24 \<le> n" by linarith
    then show "bit (pack_trigram t) n \<longleftrightarrow> bit k n"
      using \<open>n < LENGTH(32)\<close> by cases (auto simp: t pack_trigram_def bit_simps dest: small)
  qed
qed

lemma strictly_increasing_iff: "strictly_increasing l \<longleftrightarrow> sorted_wrt (<) l"
  by (induction l rule: strictly_increasing.induct) (auto intro: less_trans)

definition paths_ok :: "nat \<Rightarrow> (nat, string) hmap \<Rightarrow> (string, nat) hmap \<Rightarrow> bool" where
  "paths_ok n itp pti \<longleftrightarrow> hok itp \<and> hok pti \<and> (\<forall>i p. hget itp i = Some p \<longleftrightarrow> hget pti p = Some i) \<and>
     (\<forall>i p. hget itp i = Some p \<longrightarrow> i < n)"

lemma restore_paths_wf:
  "restore_paths n ps itp pti = Some (itp', pti') \<Longrightarrow> paths_ok n itp pti \<Longrightarrow> paths_ok n itp' pti'"
proof (induction n ps itp pti rule: restore_paths.induct)
  case (2 n i path rest itp pti)
  then have new: "hget itp i = None" "hget pti path = None" "i < n"
    and rest: "restore_paths n rest (hinsert i path itp) (hinsert path i pti) = Some (itp', pti')"
    by (auto split: if_splits)
  have "hget itp j \<noteq> Some path" and "hget pti q \<noteq> Some i" for j q
    using new "2.prems"(2) unfolding paths_ok_def by (metis option.discI)+
  then have "paths_ok n (hinsert i path itp) (hinsert path i pti)"
    using "2.prems"(2) new unfolding paths_ok_def by (auto simp: hget_hinsert)
  with 2 new rest show ?case by simp
qed simp

lemma restore_paths_complete:
  "\<forall>i \<in> fst ` set ps. i < n \<Longrightarrow> distinct (map fst ps) \<Longrightarrow> distinct (map snd ps) \<Longrightarrow>
   \<forall>i \<in> fst ` set ps. hget itp i = None \<Longrightarrow> \<forall>p \<in> snd ` set ps. hget pti p = None \<Longrightarrow>
   \<exists>itp' pti'. restore_paths n ps itp pti = Some (itp', pti') \<and>
     hget itp' = hget itp ++ map_of ps \<and> hget pti' = hget pti ++ map_of (map prod.swap ps)"
proof (induction n ps itp pti rule: restore_paths.induct)
  case (2 n i path rest itp pti)
  have "\<exists>itp' pti'. restore_paths n rest (hinsert i path itp) (hinsert path i pti) = Some (itp', pti') \<and>
     hget itp' = hget (hinsert i path itp) ++ map_of rest \<and>
     hget pti' = hget (hinsert path i pti) ++ map_of (map prod.swap rest)"
    using 2 by (intro "2.IH") (auto simp: hget_hinsert)
  moreover have "hget (hinsert i path itp) ++ map_of rest = hget itp ++ map_of ((i, path) # rest)"
    using "2.prems"(2) by (intro hinsert_map_add) simp
  moreover have "path \<notin> fst ` set (map prod.swap rest)" using "2.prems"(3) by force
  then have "hget (hinsert path i pti) ++ map_of (map prod.swap rest) = hget pti ++ map_of (map prod.swap ((i, path) # rest))"
    by (simp add: hinsert_map_add)
  moreover have "restore_paths n ((i, path) # rest) itp pti =
      restore_paths n rest (hinsert i path itp) (hinsert path i pti)"
    using "2.prems" by simp
  ultimately show ?case by metis
qed simp

lemma restore_postings_wf:
  "restore_postings itp ps m = Some m' \<Longrightarrow> lists_sorted m \<Longrightarrow> \<forall>tg. posts m tg \<subseteq> dom (hget itp) \<Longrightarrow>
     lists_sorted m' \<and> (\<forall>tg. posts m' tg \<subseteq> dom (hget itp))"
proof (induction itp ps m rule: restore_postings.induct)
  case (2 itp key ids rest m)
  from "2.prems"(1) obtain tg where tg: "unpack_trigram key = Some tg" "sorted_wrt (<) ids"
    "\<not> list_ex (\<lambda>i. hget itp i = None) ids"
    "restore_postings itp rest (hinsert tg ids m) = Some m'" "hget m tg = None"
    by (cases "unpack_trigram key") (auto simp: strictly_increasing_iff split: if_splits)
  have known: "set ids \<subseteq> dom (hget itp)" using tg(3) by (auto simp: list_ex_iff)
  have "lists_sorted (hinsert tg ids m)" using tg "2.prems"(2) by (simp add: lists_sorted_hinsert)
  moreover have "\<forall>t. posts (hinsert tg ids m) t \<subseteq> dom (hget itp)"
    using known "2.prems"(3) by (simp add: posts_hinsert)
  moreover have "hget m tg = None \<Longrightarrow> \<not> hget m tg \<noteq> None" by simp
  ultimately show ?case
    using "2.IH" [OF tg(1)] tg by (simp add: strictly_increasing_iff del: split_paired_All)
qed simp

lemma restore_postings_complete:
  "distinct (map fst ps) \<Longrightarrow> \<forall>(tg, l) \<in> set ps. sorted_wrt (<) l \<and> set l \<subseteq> dom (hget itp) \<Longrightarrow>
   \<forall>tg \<in> fst ` set ps. hget m tg = None \<Longrightarrow>
   \<exists>m'. restore_postings itp (map (\<lambda>(tg, l). (pack_trigram tg, l)) ps) m = Some m' \<and>
     hget m' = hget m ++ map_of ps"
proof (induction ps arbitrary: m)
  case (Cons e ps)
  obtain tg l where e: "e = (tg, l)" by (cases e)
  have "\<exists>m'. restore_postings itp (map (\<lambda>(tg, l). (pack_trigram tg, l)) ps) (hinsert tg l m) = Some m' \<and>
     hget m' = hget (hinsert tg l m) ++ map_of ps"
    using Cons.prems e by (intro Cons.IH) (auto simp: hget_hinsert)
  moreover have "hget (hinsert tg l m) ++ map_of ps = hget m ++ map_of (e # ps)"
    using Cons.prems(1) e by (simp only: e, intro hinsert_map_add) simp
  moreover have "strictly_increasing l" "\<not> list_ex (\<lambda>i. hget itp i = None) l" "hget m tg = None"
    using Cons.prems e by (auto simp: strictly_increasing_iff list_ex_iff)
  then have "restore_postings itp (map (\<lambda>(tg, l). (pack_trigram tg, l)) (e # ps)) m =
      restore_postings itp (map (\<lambda>(tg, l). (pack_trigram tg, l)) ps) (hinsert tg l m)"
    by (simp add: e unpack_pack)
  ultimately show ?case by metis
qed simp

text \<open>Two indexes that answer every lookup alike.\<close>

definition same_index :: "trigram_index \<Rightarrow> trigram_index \<Rightarrow> bool" where
  "same_index a b \<longleftrightarrow> hget (tri_map a) = hget (tri_map b) \<and> hget (id_to_path a) = hget (id_to_path b) \<and>
     hget (path_to_id a) = hget (path_to_id b) \<and> next_id a = next_id b"

lemma from_persisted_wf_aux:
  assumes "from_persisted p = Some idx"
  shows "tri_wf idx"
proof -
  obtain itp pti m where r: "restore_paths (p_next_id p) (p_paths p) [] [] = Some (itp, pti)"
    "restore_postings itp (p_postings p) [] = Some m"
    "idx = \<lparr>tri_map = m, id_to_path = itp, path_to_id = pti, next_id = p_next_id p\<rparr>"
    using assms by (auto simp: from_persisted_def split: option.splits)
  have "paths_ok (p_next_id p) itp pti" using restore_paths_wf [OF r(1)] by (simp add: paths_ok_def)
  moreover have "lists_sorted m \<and> (\<forall>tg. posts m tg \<subseteq> dom (hget itp))"
    using restore_postings_wf [OF r(2)] by (simp add: lists_sorted_def posts_none)
  ultimately show ?thesis by (simp add: tri_wf_def paths_ok_def r(3))
qed

lemma same_index_coherent:
  assumes "same_index a b" and "tri_wf a" and "coherent b files"
  shows "coherent a files"
proof -
  have "posts (tri_map a) = posts (tri_map b)" using assms(1)
    by (auto simp: same_index_def posts_def entry_or_default_def fun_eq_iff)
  then show ?thesis using assms unfolding coherent_def same_index_def indexed_with_def by auto
qed

lemma pack_trigram_inj: "pack_trigram s = pack_trigram t \<longleftrightarrow> s = t"
  by (metis option.inject unpack_pack)

text \<open>Sorting the packed postings is sorting the postings by packed key, then packing them.\<close>

lemma sort_packed:
  "sort_key fst (map (\<lambda>(tg, l). (pack_trigram tg, l)) m) =
     map (\<lambda>(tg, l). (pack_trigram tg, l)) (sort_key (\<lambda>e. pack_trigram (fst e)) m)"
proof -
  have ins: "insort_key fst (pack_trigram tg, l) (map (\<lambda>(tg, l). (pack_trigram tg, l)) xs) =
      map (\<lambda>(tg, l). (pack_trigram tg, l)) (insort_key (\<lambda>e. pack_trigram (fst e)) (tg, l) xs)" for tg l xs
    by (induction xs) auto
  show ?thesis by (induction m) (auto simp: ins)
qed

lemma distinct_sort_key: "distinct (map f xs) \<Longrightarrow> distinct (map f (sort_key g xs))"
  by (simp add: distinct_map)

lemma round_trip:
  assumes wf: "tri_wf idx"
  shows "\<exists>idx'. from_persisted (to_persisted idx) = Some idx' \<and> same_index idx' idx"
proof -
  let ?ps = "sort_key fst (id_to_path idx)"
  let ?tgs = "sort_key (\<lambda>e. pack_trigram (fst e)) (tri_map idx)"
  have ok: "hok (id_to_path idx)" "hok (path_to_id idx)" "hok (tri_map idx)"
    and inv: "\<And>i p. hget (id_to_path idx) i = Some p \<longleftrightarrow> hget (path_to_id idx) p = Some i"
    and lt: "\<And>i p. hget (id_to_path idx) i = Some p \<Longrightarrow> i < next_id idx"
    using wf unfolding tri_wf_def lists_sorted_def by blast+
  have mem: "(i, p) \<in> set (id_to_path idx) \<longleftrightarrow> hget (path_to_id idx) p = Some i" for i p
    using ok(1) by (simp add: inv flip: hget_Some_iff)
  have ids: "distinct (map fst ?ps)" using ok(1) by (simp add: hok_def distinct_sort_key)
  have "inj_on snd (set (id_to_path idx))" by (rule inj_onI) (auto simp: mem)
  then have paths: "distinct (map snd ?ps)"
    using ok(1) by (simp add: distinct_map hok_def)
  have "\<forall>i \<in> fst ` set ?ps. i < next_id idx" using lt ok(1) by (auto simp: hget_Some_iff)
  then obtain itp pti where r: "restore_paths (next_id idx) ?ps [] [] = Some (itp, pti)"
    "hget itp = map_of ?ps" "hget pti = map_of (map prod.swap ?ps)"
    using restore_paths_complete [OF _ ids paths, of "next_id idx" "[]" "[]"] by auto
  have itp: "hget itp = hget (id_to_path idx)"
    using ids ok(1) by (simp add: r(2) map_of_inject_set hok_def)
  have "hget pti p = Some i \<longleftrightarrow> hget (path_to_id idx) p = Some i" for p i
    using paths by (simp add: r(3) comp_def mem)
  then have pti: "hget pti = hget (path_to_id idx)" by (metis ext not_None_eq)
  have tgs: "distinct (map fst ?tgs)" using ok(3) by (simp add: hok_def distinct_sort_key)
  have "sorted_wrt (<) l \<and> set l \<subseteq> dom (hget itp)" if "(tg, l) \<in> set (tri_map idx)" for tg l
  proof -
    have "hget (tri_map idx) tg = Some l" using that ok(3) by (simp add: hget_Some_iff)
    then show ?thesis using wf posts_get [of "tri_map idx" tg l] lists_sortedD
      unfolding tri_wf_def itp by metis
  qed
  then have "\<forall>(tg, l) \<in> set ?tgs. sorted_wrt (<) l \<and> set l \<subseteq> dom (hget itp)"
    unfolding set_sort by blast
  from restore_postings_complete [OF tgs this, of "[]"]
  obtain m where m: "restore_postings itp (map (\<lambda>(tg, l). (pack_trigram tg, l)) ?tgs) [] = Some m"
    "hget m = map_of ?tgs"
    by auto
  have "hget m = hget (tri_map idx)" using tgs ok(3) by (simp add: m(2) map_of_inject_set hok_def)
  then show ?thesis
    using r(1) m(1) itp pti by (simp add: from_persisted_def to_persisted_def sort_packed same_index_def)
qed

section \<open>Histories\<close>

text \<open>
  What happens to an index and the files it covers: a file written or removed, with its previous content
  handed in or not, and a restart through the snapshot.
\<close>

datatype index_action = UpdateOp string bytes bool | RemoveOp string bool | ReloadOp

fun index_op :: "index_action \<Rightarrow> trigram_index \<times> contents \<Rightarrow> trigram_index \<times> contents" where
  "index_op (UpdateOp path content known) (idx, files) =
     (update_file path (if known then hget files path else None) content idx, hinsert path content files)"
| "index_op (RemoveOp path known) (idx, files) =
     (remove_file path (if known then hget files path else None) idx, hremove path files)"
| "index_op ReloadOp (idx, files) = ((case from_persisted (to_persisted idx) of Some idx' \<Rightarrow> idx' | None \<Rightarrow> idx), files)"

lemma op_coherent:
  assumes "coherent idx files" "hok files" "index_op a (idx, files) = (idx', files')"
  shows "coherent idx' files' \<and> hok files'"
proof (cases a)
  case (UpdateOp path content known)
  have "coherent (update_file path (if known then hget files path else None) content idx) (hinsert path content files)"
    by (rule update_file_coherent_aux [OF assms(1)]) (simp split: if_splits)
  then show ?thesis using assms UpdateOp by auto
next
  case (RemoveOp path known)
  have "coherent (remove_file path (if known then hget files path else None) idx) (hremove path files)"
    by (rule remove_file_coherent_aux [OF assms(1)]) (simp split: if_splits)
  then show ?thesis using assms RemoveOp by auto
next
  case ReloadOp
  then show ?thesis using assms round_trip [OF coherentD(1) [OF assms(1)]] from_persisted_wf_aux same_index_coherent by fastforce
qed

lemma history_coherent:
  "fold index_op ops (idx, files) = (idx', files') \<Longrightarrow> coherent idx files \<Longrightarrow> hok files \<Longrightarrow> coherent idx' files' \<and> hok files'"
proof (induction ops arbitrary: idx files)
  case (Cons a ops)
  obtain i f where "index_op a (idx, files) = (i, f)" by force
  then show ?case using Cons op_coherent [of idx files a i f] by simp
qed simp

section \<open>Properties\<close>

text \<open>
  C1: a search for a non-empty query returns, each once, exactly the files whose content contains
  the query up to ASCII case, whenever the index is coherent with the files. The trigram
  intersection never loses a file.
\<close>

theorem search_exact:
  assumes "coherent idx files" and "query \<noteq> []"
  shows "set (search idx query files) = matching_paths files query \<and> distinct (search idx query files)"
  using assms by (simp add: search_set search_distinct coherentD(1,2))

theorem search_exact_witness:
  "set (search (build_from_files [(''a'', [0x41, 0x62, 0x63, 0x64]), (''b'', [0x62, 0x63])]) [0x42, 0x43, 0x44]
     [(''a'', [0x41, 0x62, 0x63, 0x64]), (''b'', [0x62, 0x63])])
   = matching_paths [(''a'', [0x41, 0x62, 0x63, 0x64]), (''b'', [0x62, 0x63])] [0x42, 0x43, 0x44]"
  by (rule conjunct1 [OF search_exact]) (simp_all add: build_coherent hok_def)

text \<open>
  C4: the index stays coherent with its files through any history. Built from a file map and then updated,
  with the old content supplied or not, shrunk, persisted and restored in any order, its postings are the
  trigrams of the current contents, and every search returns, each once, exactly the matching files.
\<close>

theorem index_history_exact:
  assumes "hok files" and "fold index_op ops (build_from_files files, files) = (idx, files')"
  shows "coherent idx files' \<and> hok files' \<and>
    (query \<noteq> [] \<longrightarrow> set (search idx query files') = matching_paths files' query \<and> distinct (search idx query files'))"
proof -
  have ok: "coherent idx files'" "hok files'" using history_coherent [OF assms(2) build_coherent [OF assms(1)] assms(1)] by simp_all
  then show ?thesis by (simp add: search_set search_distinct coherentD(1,2))
qed

theorem index_history_exact_witness:
  "set (search (update_file ''a'' (Some [1, 2, 3]) [2, 3, 4] (build_from_files [(''a'', [1, 2, 3])])) [2, 3] [(''a'', [2, 3, 4])]) =
   matching_paths [(''a'', [2, 3, 4])] [2, 3]"
proof -
  have "fold index_op [UpdateOp ''a'' [2, 3, 4] True] (build_from_files [(''a'', [1, 2, 3])], [(''a'', [1, 2, 3])]) =
      (update_file ''a'' (Some [1, 2, 3]) [2, 3, 4] (build_from_files [(''a'', [1, 2, 3])]), [(''a'', [2, 3, 4])])" by simp
  from index_history_exact [OF _ this, of "[2, 3]"] show ?thesis by (simp add: hok_def)
qed

text \<open>
  Persisting an index coherent with the files and restoring it succeeds, and the restored index
  answers every lookup alike and is coherent with the same files.
\<close>

lemma persist_round_trip:
  assumes "coherent idx files"
  shows "\<exists>idx'. from_persisted (to_persisted idx) = Some idx' \<and> same_index idx' idx \<and> coherent idx' files"
  using round_trip [OF coherentD(1) [OF assms]] from_persisted_wf_aux same_index_coherent assms by blast

theorem persist_round_trip_witness:
  "\<exists>idx'. from_persisted (to_persisted (build_from_files [(''a'', [1, 2, 3])])) = Some idx' \<and>
     same_index idx' (build_from_files [(''a'', [1, 2, 3])]) \<and> coherent idx' [(''a'', [1, 2, 3])]"
  by (rule persist_round_trip) (simp add: build_coherent hok_def)

text \<open>
  C10: whatever bytes a snapshot holds, \<open>from_persisted\<close> either refuses them or returns a
  well-formed index: sorted posting lists, mutually inverse path tables, ids below the counter,
  no posting of an unknown id.
\<close>

theorem from_persisted_wf:
  assumes "from_persisted p = Some idx"
  shows "tri_wf idx"
  using assms by (rule from_persisted_wf_aux)

theorem from_persisted_wf_witness:
  "tri_wf \<lparr>tri_map = [((1, 2, 3), [0])], id_to_path = [(0, ''a'')], path_to_id = [(''a'', 0)], next_id = 1\<rparr>"
  by (rule from_persisted_wf [where p = "\<lparr>p_next_id = 1, p_paths = [(0, ''a'')], p_postings = [(0x030201, [0])]\<rparr>"])
    code_simp

text \<open>
  A search never reports a file that does not contain the query, even on an index that is out
  of step with the files.
\<close>

lemma search_sound_on_stale_index:
  assumes "hok files" and "path \<in> set (search idx query files)"
  shows "path \<in> matching_paths files query"
  using assms by (rule search_never_false_positive)

theorem search_sound_on_stale_index_witness:
  "''b'' \<in> matching_paths [(''b'', [7, 8])] [7]"
  by (rule search_sound_on_stale_index [where idx = new_index]) (simp add: hok_def, code_simp)

text \<open>Packing a trigram into 32 bits and unpacking it are inverse to each other.\<close>

lemma pack_unpack_trigram:
  "unpack_trigram key = Some t \<longleftrightarrow> key = pack_trigram t"
  using pack_unpack unpack_pack by blast

end
