(* ===== verification/BatchCommit.thy ===== *)
theory BatchCommit
  imports Prelude "HOL-Library.List_Lexorder" "HOL-Library.Char_ord"
begin

text \<open>
  The staged multi-file commit of \<open>src/edit_safety/batch_commit.rs\<close>: lock order, preflight,
  write loop, final attestation and rollback.

  A path is the list of its components, ordered lexicographically as \<open>PathBuf\<close> is. The trait
  \<open>BatchIo\<close> is a record of two functions over a state, and \<open>batch_io_laws\<close> states what the commit
  needs of them: \<open>matches\<close> reports honestly and changes nothing, \<open>write\<close> touches its own target and
  leaves there the old or the new image. \<open>ProtocolBatchIo\<close> is modelled on a disk whose reads and
  writes may fail; \<open>dunce::canonicalize\<close> is the parameter \<open>canon\<close>. The cancel signal is the sequence
  of values its loads return.
\<close>

section \<open>Data\<close>

type_synonym path = "string list"

record staged_image =
  im_relative :: path
  im_absolute :: path
  im_original :: "bytes option"
  im_replacement :: bytes
  im_owner_only :: bool

record ('s, 'r) batch_io =
  io_matches :: "'s \<Rightarrow> staged_image \<Rightarrow> bytes option \<Rightarrow> 's \<times> (string, bool) result"
  io_write :: "'s \<Rightarrow> staged_image \<Rightarrow> bytes \<Rightarrow> 's \<times> (string, 'r) result"

datatype batch_abort =
    Conflict nat
  | PreflightUnavailable nat
  | Cancelled nat nat "nat list"
  | WriteFailed nat string nat "nat list"



section \<open>Lock keys and lock order\<close>

datatype io_error = NotFound | OtherError string

definition file_name :: "path \<Rightarrow> string option" where
  "file_name p = (if p = [] \<or> last p = ''..'' then None else Some (last p))"

definition parent :: "path \<Rightarrow> path option" where
  "parent p = (if p = [] then None else Some (butlast p))"

function canonical_lock_key_loop ::
  "(path \<Rightarrow> (io_error, path) result) \<Rightarrow> path \<Rightarrow> string list \<Rightarrow> (io_error, path) result" where
  "canonical_lock_key_loop canon cursor absent =
     (case canon cursor of
        Ok canonical \<Rightarrow> Ok (canonical @ absent)
      | Err NotFound \<Rightarrow>
          (case file_name cursor of
             None \<Rightarrow> Err NotFound
           | Some component \<Rightarrow>
               (case parent cursor of
                  None \<Rightarrow> Err NotFound
                | Some up \<Rightarrow> canonical_lock_key_loop canon up (component # absent)))
      | Err e \<Rightarrow> Err e)"
  by pat_completeness auto
termination
  by (relation "measure (\<lambda>(canon, cursor, absent). length cursor)")
    (auto simp: parent_def split: if_splits)

declare canonical_lock_key_loop.simps [simp del]

definition canonical_lock_key :: "(path \<Rightarrow> (io_error, path) result) \<Rightarrow> path \<Rightarrow> (io_error, path) result" where
  "canonical_lock_key canon absolute = canonical_lock_key_loop canon absolute []"

fun collect_keys ::
  "(path \<Rightarrow> (io_error, path) result) \<Rightarrow> nat \<Rightarrow> staged_image list \<Rightarrow> (batch_abort, (path \<times> nat) list) result" where
  "collect_keys canon i [] = Ok []"
| "collect_keys canon i (im # ims) =
     (case canonical_lock_key canon (im_absolute im) of
        Err _ \<Rightarrow> Err (PreflightUnavailable i)
      | Ok key \<Rightarrow>
          (case collect_keys canon (Suc i) ims of
             Err e \<Rightarrow> Err e
           | Ok rest \<Rightarrow> Ok ((key, i) # rest)))"

fun find_same_key :: "(path \<times> nat) list \<Rightarrow> nat option" where
  "find_same_key (a # b # r) = (if fst a = fst b then Some (snd b) else find_same_key (b # r))"
| "find_same_key _ = None"

definition with_staged_locks ::
  "(path \<Rightarrow> (io_error, path) result) \<Rightarrow> staged_image list \<Rightarrow> ((path \<times> nat) list \<Rightarrow> 'a)
   \<Rightarrow> (batch_abort, 'a) result" where
  "with_staged_locks canon images operation =
     (case collect_keys canon 0 images of
        Err e \<Rightarrow> Err e
      | Ok keys \<Rightarrow>
          (let order = sort_key fst keys
           in case find_same_key order of
                Some i \<Rightarrow> Err (Conflict i)
              | None \<Rightarrow> Ok (operation order)))"

section \<open>The commit\<close>

datatype undo = Untouched | Restored | Uncertain

definition rollback_one ::
  "('s, 'r) batch_io \<Rightarrow> staged_image \<Rightarrow> 's \<Rightarrow> 's \<times> undo" where
  "rollback_one io im s =
     (let (s, r) = io_matches io s im (im_original im)
      in if r = Ok True then (s, Untouched)
         else let (s, r) = io_matches io s im (Some (im_replacement im))
              in if r \<noteq> Ok True then (s, Uncertain)
                 else case im_original im of
                        None \<Rightarrow> (s, Uncertain)
                      | Some original \<Rightarrow>
                          (let (s, _) = io_write io s im original;
                               (s, r) = io_matches io s im (Some original)
                           in (s, if r = Ok True then Restored else Uncertain)))"

fun rollback_loop ::
  "('s, 'r) batch_io \<Rightarrow> staged_image list \<Rightarrow> nat list \<Rightarrow> nat \<Rightarrow> nat list \<Rightarrow> 's \<Rightarrow> 's \<times> nat \<times> nat list" where
  "rollback_loop io images [] restored uncertain s = (s, restored, uncertain)"
| "rollback_loop io images (i # rest) restored uncertain s =
     (case rollback_one io (images ! i) s of
        (s, Untouched) \<Rightarrow> rollback_loop io images rest restored uncertain s
      | (s, Restored) \<Rightarrow> rollback_loop io images rest (restored + 1) uncertain s
      | (s, Uncertain) \<Rightarrow> rollback_loop io images rest restored (uncertain @ [i]) s)"

definition rollback ::
  "('s, 'r) batch_io \<Rightarrow> staged_image list \<Rightarrow> nat list \<Rightarrow> 's \<Rightarrow> 's \<times> nat \<times> nat list" where
  "rollback io images attempted s = rollback_loop io images (rev attempted) 0 [] s"







section \<open>The contract of a batch io and what the commit guarantees\<close>






section \<open>The protocol's batch io\<close>

text \<open>
  \<open>ProtocolBatchIo\<close> reads with \<open>std::fs::read\<close> and writes with \<open>atomic_write_file\<close>. The disk maps the
  file a path resolves to, its canonical lock key, to the bytes stored there. Each read and each
  write draws its fault from a schedule: a read may fail; a write may fail before the atomic
  rename, leaving the old image, or after it (the publication that follows the rename is refused),
  leaving the new one.
\<close>

datatype write_fault = NoFault | FailBeforeRename string | FailAfterRename string

record disk =
  d_files :: "(path, bytes) hmap"
  d_read_faults :: "bool list"
  d_write_faults :: "write_fault list"

definition resolve :: "(path \<Rightarrow> (io_error, path) result) \<Rightarrow> path \<Rightarrow> path" where
  "resolve canon p = (case canonical_lock_key canon p of Ok key \<Rightarrow> key | Err _ \<Rightarrow> p)"

definition fs_read :: "path \<Rightarrow> disk \<Rightarrow> disk \<times> (io_error, bytes) result" where
  "fs_read key d =
     (let d' = d\<lparr>d_read_faults := tl (d_read_faults d)\<rparr>
      in if d_read_faults d \<noteq> [] \<and> hd (d_read_faults d) then (d', Err (OtherError ''io''))
         else case hget (d_files d) key of
                Some bs \<Rightarrow> (d', Ok bs)
              | None \<Rightarrow> (d', Err NotFound))"

definition atomic_write_file :: "path \<Rightarrow> bytes \<Rightarrow> disk \<Rightarrow> disk \<times> (string, unit) result" where
  "atomic_write_file key content d =
     (let d' = d\<lparr>d_write_faults := tl (d_write_faults d)\<rparr>;
          renamed = d'\<lparr>d_files := hinsert key content (d_files d)\<rparr>
      in case (if d_write_faults d = [] then NoFault else hd (d_write_faults d)) of
           NoFault \<Rightarrow> (renamed, Ok ())
         | FailBeforeRename why \<Rightarrow> (d', Err why)
         | FailAfterRename why \<Rightarrow> (renamed, Err why))"

definition protocol_matches ::
  "(path \<Rightarrow> (io_error, path) result) \<Rightarrow> disk \<Rightarrow> staged_image \<Rightarrow> bytes option \<Rightarrow> disk \<times> (string, bool) result" where
  "protocol_matches canon d im expected =
     (case expected of
        None \<Rightarrow> (d, Err ''batch_absent_target_unsupported'')
      | Some ex \<Rightarrow>
          (case fs_read (resolve canon (im_absolute im)) d of
             (d, Ok bs) \<Rightarrow> (d, Ok (bs = ex))
           | (d, Err _) \<Rightarrow> (d, Err ''batch_preimage_unreadable'')))"

definition protocol_write ::
  "(path \<Rightarrow> (io_error, path) result) \<Rightarrow> disk \<Rightarrow> staged_image \<Rightarrow> bytes \<Rightarrow> disk \<times> (string, unit) result" where
  "protocol_write canon d im bs = atomic_write_file (resolve canon (im_absolute im)) bs d"

definition protocol_batch_io :: "(path \<Rightarrow> (io_error, path) result) \<Rightarrow> (disk, unit) batch_io" where
  "protocol_batch_io canon = \<lparr>io_matches = protocol_matches canon, io_write = protocol_write canon\<rparr>"



section \<open>The lock order\<close>

lemma collect_keys_Ok:
  "collect_keys canon k images = Ok keys \<Longrightarrow>
     map snd keys = [k..<k + length images] \<and>
     (\<forall>(key, i) \<in> set keys. canonical_lock_key canon (im_absolute (images ! (i - k))) = Ok key)"
proof (induction images arbitrary: k keys)
  case (Cons im images)
  then obtain key rest where r: "canonical_lock_key canon (im_absolute im) = Ok key"
    "collect_keys canon (Suc k) images = Ok rest" "keys = (key, k) # rest"
    by (auto split: sum.splits)
  have ids: "map snd rest = [Suc k..<Suc k + length images]" using Cons.IH [OF r(2)] by simp
  have "canonical_lock_key canon (im_absolute ((im # images) ! (i - k))) = Ok key'"
    if "(key', i) \<in> set rest" for key' i
  proof -
    have "i \<in> set (map snd rest)" using that by force
    then have "Suc k \<le> i" unfolding ids by auto
    then have "i - k = Suc (i - Suc k)" by simp
    then show ?thesis using Cons.IH [OF r(2)] that by auto
  qed
  moreover have "map snd keys = [k..<k + length (im # images)]"
    using ids r(3) by (simp add: upt_conv_Cons del: upt_Suc)
  ultimately show ?case using r by auto
qed simp

lemma find_same_key_None: "find_same_key xs = None \<Longrightarrow> sorted (map fst xs) \<Longrightarrow> sorted_wrt (<) (map fst xs)"
proof (induction xs rule: find_same_key.induct)
  case (1 a b r)
  then have "fst a < fst b" by (simp add: less_le split: if_splits)
  moreover have "sorted_wrt (<) (map fst (b # r))" using 1 by (simp split: if_splits)
  ultimately show ?case by auto
qed simp_all

text \<open>The order handed to the operation: keys strictly increasing, every image once.\<close>

lemma with_staged_locks_Ok:
  assumes "with_staged_locks canon images operation = Ok r"
  shows "\<exists>order. r = operation order \<and> sorted_wrt (<) (map fst order) \<and>
    set (map snd order) = {..<length images} \<and> distinct (map snd order) \<and>
    (\<forall>(key, i) \<in> set order. canonical_lock_key canon (im_absolute (images ! i)) = Ok key)"
proof -
  obtain keys where k: "collect_keys canon 0 images = Ok keys" "find_same_key (sort_key fst keys) = None"
    "r = operation (sort_key fst keys)"
    using assms by (auto simp: with_staged_locks_def Let_def split: sum.splits option.splits)
  note C = collect_keys_Ok [OF k(1)]
  have "sorted_wrt (<) (map fst (sort_key fst keys))"
    by (rule find_same_key_None [OF k(2)]) simp
  moreover have "set (map snd (sort_key fst keys)) = {..<length images}"
    using C by (metis add_0 atLeast_upt list.set_map set_sort)
  moreover have "distinct (map snd keys)" using C by simp
  then have "distinct (map snd (sort_key fst keys))" by (simp add: distinct_map)
  ultimately show ?thesis using C k(3) by (intro exI [of _ "sort_key fst keys"]) auto
qed



section \<open>Rollback under arbitrary interference\<close>

text \<open>
  The log of the calls a rollback makes, for an io that obeys no law at all: other processes may
  change files between any two calls.
\<close>

datatype io_call =
    MatchCall staged_image "bytes option" "(string, bool) result"
  | WriteCall staged_image bytes

definition logged :: "('s, 'r) batch_io \<Rightarrow> ('s \<times> io_call list, 'r) batch_io" where
  "logged io =
     \<lparr>io_matches = (\<lambda>(s, log) im e. let (s, r) = io_matches io s im e in ((s, log @ [MatchCall im e r]), r)),
      io_write = (\<lambda>(s, log) im b. let (s, r) = io_write io s im b in ((s, log @ [WriteCall im b]), r))\<rparr>"

fun writes_guarded :: "io_call list \<Rightarrow> bool" where
  "writes_guarded [] = True"
| "writes_guarded (WriteCall _ _ # _) = False"
| "writes_guarded (MatchCall im e r # WriteCall im' b # rest) =
     (im' = im \<and> e = Some (im_replacement im) \<and> r = Ok True \<and> im_original im = Some b \<and> writes_guarded rest)"
| "writes_guarded (MatchCall im e r # rest) = writes_guarded rest"

lemma writes_guarded_append: "writes_guarded xs \<Longrightarrow> writes_guarded ys \<Longrightarrow> writes_guarded (xs @ ys)"
proof (induction xs rule: writes_guarded.induct, goal_cases)
  case (4 im e r)
  then show ?case by (cases ys rule: writes_guarded.cases) auto
qed auto

lemma rollback_one_logged:
  assumes "rollback_one (logged io) im (s, log) = (sl', out)"
  shows "\<exists>s' new. sl' = (s', log @ new) \<and> writes_guarded new"
  using assms
  by (auto simp: rollback_one_def logged_def Let_def split: prod.splits if_splits option.splits)

lemma rollback_loop_logged:
  assumes "rollback_loop (logged io) images todo res unc (s, log) = (sl', out)"
  shows "\<exists>s' new. sl' = (s', log @ new) \<and> writes_guarded new"
  using assms
proof (induction todo arbitrary: res unc s log)
  case (Cons i todo)
  obtain sl1 o1 where one: "rollback_one (logged io) (images ! i) (s, log) = (sl1, o1)"
    by (cases "rollback_one (logged io) (images ! i) (s, log)")
  obtain s1 new where n: "sl1 = (s1, log @ new)" "writes_guarded new"
    using rollback_one_logged [OF one] by blast
  obtain res1 unc1 where "rollback_loop (logged io) images todo res1 unc1 (s1, log @ new) = (sl', out)"
    using Cons.prems one n(1) by (cases o1) auto
  from Cons.IH [OF this] n(2) show ?case using writes_guarded_append by fastforce
qed (auto intro: exI [of _ "[]"])

section \<open>Properties\<close>






text \<open>
  With any io whatsoever, even one whose files change under the batch, a rollback writes only
  original bytes and only right after it saw the batch's own replacement in place: a third image is
  never overwritten by a write that did not just check for it.
\<close>

lemma rollback_never_overwrites_unseen:
  assumes "rollback (logged io) images attempted_ids (s, log) = ((s', log'), restored_count, unc)"
  shows "\<exists>new. log' = log @ new \<and> writes_guarded new"
  using rollback_loop_logged assms unfolding rollback_def by fastforce

text \<open>
  The locks of a batch are taken in strictly increasing order of their canonical keys, one
  per image, whatever order the caller listed the images in; two batches can therefore never wait
  for each other in a cycle.
\<close>

lemma with_staged_locks_order:
  assumes "with_staged_locks canon images (\<lambda>order. order) = Ok order"
  shows "sorted_wrt (<) (map fst order) \<and> set (map snd order) = {..<length images} \<and>
    distinct (map snd order) \<and>
    (\<forall>(key, i) \<in> set order. canonical_lock_key canon (im_absolute (images ! i)) = Ok key)"
  using with_staged_locks_Ok [OF assms] by auto

section \<open>Witnesses\<close>

definition demo_images :: "staged_image list" where
  "demo_images =
     [\<lparr>im_relative = [''b''], im_absolute = [''r'', ''b''], im_original = Some [1], im_replacement = [2], im_owner_only = False\<rparr>,
      \<lparr>im_relative = [''a''], im_absolute = [''r'', ''a''], im_original = Some [3], im_replacement = [4], im_owner_only = False\<rparr>]"

definition demo_disk :: "write_fault list \<Rightarrow> disk" where
  "demo_disk faults = \<lparr>d_files = [([''r'', ''a''], [3]), ([''r'', ''b''], [1])], d_read_faults = [], d_write_faults = faults\<rparr>"



theorem rollback_never_overwrites_unseen_witness:
  "\<exists>new. snd (fst (rollback (logged (protocol_batch_io Inr)) demo_images [1]
     (demo_disk [], [WriteCall (demo_images ! 1) [4]]))) = [WriteCall (demo_images ! 1) [4]] @ new \<and> writes_guarded new"
proof -
  obtain s' log' res unc where r: "rollback (logged (protocol_batch_io Inr)) demo_images [1]
     (demo_disk [], [WriteCall (demo_images ! 1) [4]]) = ((s', log'), res, unc)"
    by (metis surj_pair)
  show ?thesis using rollback_never_overwrites_unseen [OF r] unfolding r by simp
qed

theorem with_staged_locks_order_witness:
  "sorted_wrt (<) (map fst [([''r'', ''a''], 1 :: nat), ([''r'', ''b''], 0)])"
proof -
  have "with_staged_locks Inr demo_images (\<lambda>order. order) = Ok [([''r'', ''a''], 1), ([''r'', ''b''], 0)]"
    by code_simp
  from with_staged_locks_order [OF this] show ?thesis by blast
qed

end
