(* ===== verification/Splice.thy ===== *)
theory Splice
  imports Prelude
begin

text \<open>
  The byte-level part of \<open>src/edit_safety/structural.rs\<close>: splicing, line endings, deletion with
  blank-line cleanup, and the footprints a batch compares before it applies cached spans.

  Offsets are \<open>nat\<close>; a cast \<open>as u32\<close> is \<open>as_u32\<close>, which wraps. A slice expression out of rng
  panics, which the model returns as \<open>None\<close>. Loops over an index are recursions over the remaining
  bytes.
\<close>

section \<open>Bytes and symbols\<close>

definition LF :: u8 where "LF = 10"
definition CR :: u8 where "CR = 13"

definition as_u32 :: "nat \<Rightarrow> nat" where
  "as_u32 n = n mod 2 ^ 32"

record symbol_record =
  byte_range :: "nat \<times> nat"
  doc_byte_range :: "(nat \<times> nat) option"
  item_byte_range :: "(nat \<times> nat) option"

definition effective_start :: "symbol_record \<Rightarrow> nat" where
  "effective_start symb = (case doc_byte_range symb of None \<Rightarrow> fst (byte_range symb) | Some (s, _) \<Rightarrow> s)"

definition item_start :: "symbol_record \<Rightarrow> nat" where
  "item_start symb = (case item_byte_range symb of
     None \<Rightarrow> (case doc_byte_range symb of None \<Rightarrow> fst (byte_range symb) | Some (s, _) \<Rightarrow> s)
   | Some (s, _) \<Rightarrow> s)"

definition item_end :: "symbol_record \<Rightarrow> nat" where
  "item_end symb = (case item_byte_range symb of None \<Rightarrow> snd (byte_range symb) | Some (_, e) \<Rightarrow> e)"

definition position :: "('a \<Rightarrow> bool) \<Rightarrow> 'a list \<Rightarrow> nat option" where
  "position P xs = (let k = length (takeWhile (\<lambda>x. \<not> P x) xs) in if k < length xs then Some k else None)"

definition rposition :: "('a \<Rightarrow> bool) \<Rightarrow> 'a list \<Rightarrow> nat option" where
  "rposition P xs = map_option (\<lambda>k. length xs - 1 - k) (position P (rev xs))"

definition line_start :: "bytes \<Rightarrow> nat" where
  "line_start before_bs = (case rposition (\<lambda>b. b = LF) before_bs of Some p \<Rightarrow> p + 1 | None \<Rightarrow> 0)"

definition is_ascii_whitespace :: "u8 \<Rightarrow> bool" where
  "is_ascii_whitespace b \<longleftrightarrow> b \<in> {9, 10, 12, 13, 32}"

section \<open>Splicing\<close>

definition apply_splice :: "bytes \<Rightarrow> nat \<times> nat \<Rightarrow> bytes \<Rightarrow> bytes" where
  "apply_splice content rng replacement =
     (let s = min (fst rng) (length content);
          e = max s (min (snd rng) (length content))
      in take s content @ replacement @ drop e content)"

section \<open>Line endings\<close>

datatype line_ending = Lf | CrLf

fun ending_bytes :: "line_ending \<Rightarrow> bytes" where
  "ending_bytes Lf = [LF]"
| "ending_bytes CrLf = [CR, LF]"

fun count_endings :: "bytes \<Rightarrow> nat \<Rightarrow> nat \<Rightarrow> nat \<times> nat" where
  "count_endings [] crlf lf = (crlf, lf)"
| "count_endings [a] crlf lf = (if a = LF then (crlf, lf + 1) else (crlf, lf))"
| "count_endings (a # b # r) crlf lf =
     (if a = CR \<and> b = LF then count_endings r (crlf + 1) lf
      else if a = LF then count_endings (b # r) crlf (lf + 1)
      else count_endings (b # r) crlf lf)"

definition detect_line_ending :: "bytes \<Rightarrow> line_ending" where
  "detect_line_ending content =
     (let (crlf, lf) = count_endings content 0 0 in if crlf > lf then CrLf else Lf)"

fun canonical_endings :: "bytes \<Rightarrow> bytes" where
  "canonical_endings [] = []"
| "canonical_endings [a] = (if a = CR then [LF] else [a])"
| "canonical_endings (a # b # r) =
     (if a = CR \<and> b = LF then LF # canonical_endings r
      else if a = CR then LF # canonical_endings (b # r)
      else a # canonical_endings (b # r))"

definition normalize_line_endings :: "bytes \<Rightarrow> line_ending \<Rightarrow> bytes" where
  "normalize_line_endings text tgt =
     (case tgt of
        Lf \<Rightarrow> canonical_endings text
      | CrLf \<Rightarrow> concat (map (\<lambda>b. if b = LF then [CR, LF] else [b]) (canonical_endings text)))"

section \<open>Indentation of a line, trailing semicolon\<close>

definition detect_indentation :: "bytes \<Rightarrow> nat \<Rightarrow> bytes option" where
  "detect_indentation content byte_offset =
     (if byte_offset > length content then None
      else let ls = line_start (take byte_offset content);
               rest = drop ls content;
               indent_end = (case position (\<lambda>b. \<not> is_ascii_whitespace b \<or> b = LF) rest of
                               Some p \<Rightarrow> p | None \<Rightarrow> 0)
           in Some (take indent_end rest))"

definition skip_trailing_semicolon :: "bytes \<Rightarrow> nat \<Rightarrow> nat" where
  "skip_trailing_semicolon content pos =
     (let i = pos + length (takeWhile (\<lambda>b. b = 32 \<or> b = 9) (drop pos content))
      in if i < length content \<and> content ! i = 0x3B then i + 1 else pos)"

definition insert_after_position :: "bytes \<Rightarrow> symbol_record \<Rightarrow> nat" where
  "insert_after_position content symb = as_u32 (skip_trailing_semicolon content (snd (byte_range symb)))"

section \<open>Blank-line cleanup\<close>

fun collapse_lf :: "nat \<Rightarrow> bytes \<Rightarrow> bytes" where
  "collapse_lf n [] = []"
| "collapse_lf n (b # r) =
     (if b = LF then (if n + 1 \<le> 2 then b # collapse_lf (n + 1) r else collapse_lf (n + 1) r)
      else b # collapse_lf 0 r)"

fun collapse_crlf :: "nat \<Rightarrow> bytes \<Rightarrow> bytes" where
  "collapse_crlf n [] = []"
| "collapse_crlf n [a] = [a]"
| "collapse_crlf n (a # b # r) =
     (if a = CR \<and> b = LF
      then (if n + 1 \<le> 2 then CR # LF # collapse_crlf (n + 1) r else collapse_crlf (n + 1) r)
      else a # collapse_crlf 0 (b # r))"

definition collapse_blank_lines :: "bytes \<Rightarrow> line_ending \<Rightarrow> bytes" where
  "collapse_blank_lines content le =
     (case le of Lf \<Rightarrow> collapse_lf 0 content | CrLf \<Rightarrow> collapse_crlf 0 content)"

text \<open>The end of a deletion: the rest of the line, its newline, and one blank line.\<close>

definition delete_end :: "bytes \<Rightarrow> nat \<Rightarrow> line_ending \<Rightarrow> nat" where
  "delete_end content e le =
     (let pos = e + length (takeWhile (\<lambda>b. b \<noteq> LF) (drop e content));
          pos = (if pos < length content \<and> content ! pos = LF then pos + 1 else pos)
      in case le of
           CrLf \<Rightarrow> if pos + 1 < length content \<and> content ! pos = CR \<and> content ! (pos + 1) = LF
                  then pos + 2 else pos
         | Lf \<Rightarrow> if pos < length content \<and> content ! pos = LF then pos + 1 else pos)"

section \<open>Footprints\<close>

datatype splice_footprint = Bytes nat nat | Insert nat

fun splice_footprints_overlap :: "splice_footprint \<Rightarrow> splice_footprint \<Rightarrow> bool" where
  "splice_footprints_overlap (Bytes a b) (Bytes c d) = (a < d \<and> c < b)"
| "splice_footprints_overlap (Insert p) (Bytes s e) = (s \<le> p \<and> p < e)"
| "splice_footprints_overlap (Bytes s e) (Insert p) = (s \<le> p \<and> p < e)"
| "splice_footprints_overlap (Insert p) (Insert q) = (p = q)"

definition push_one :: "nat \<Rightarrow> nat \<Rightarrow> nat \<times> nat \<Rightarrow> (nat \<times> nat) list \<Rightarrow> (nat \<times> nat) list" where
  "push_one main_start main_end se removed =
     (let (s, e) = se
      in if s \<ge> e then removed
         else let shift = (if s \<ge> main_start then main_end - main_start else 0);
                  source_start = as_u32 (s + shift);
                  source_end = as_u32 (e + shift)
              in if removed \<noteq> [] \<and> snd (last removed) = source_start
                 then butlast removed @ [(fst (last removed), source_end)]
                 else removed @ [(source_start, source_end)])"

definition push_cleanup_range ::
  "nat \<Rightarrow> nat \<Rightarrow> nat \<Rightarrow> nat \<Rightarrow> (nat \<times> nat) list \<Rightarrow> (nat \<times> nat) list" where
  "push_cleanup_range spliced_start spliced_end main_start main_end removed =
     push_one main_start main_end (max spliced_start main_start, spliced_end)
       (push_one main_start main_end (spliced_start, min spliced_end main_start) removed)"

fun cleanup_lf :: "nat \<Rightarrow> nat \<Rightarrow> nat \<Rightarrow> nat \<Rightarrow> bytes \<Rightarrow> (nat \<times> nat) list \<Rightarrow> (nat \<times> nat) list" where
  "cleanup_lf ms me pos n [] removed = removed"
| "cleanup_lf ms me pos n (b # r) removed =
     (if b = LF
      then cleanup_lf ms me (pos + 1) (n + 1) r
             (if n + 1 > 2 then push_cleanup_range pos (pos + 1) ms me removed else removed)
      else cleanup_lf ms me (pos + 1) 0 r removed)"

fun cleanup_crlf :: "nat \<Rightarrow> nat \<Rightarrow> nat \<Rightarrow> nat \<Rightarrow> bytes \<Rightarrow> (nat \<times> nat) list \<Rightarrow> (nat \<times> nat) list" where
  "cleanup_crlf ms me pos n [] removed = removed"
| "cleanup_crlf ms me pos n [a] removed = removed"
| "cleanup_crlf ms me pos n (a # b # r) removed =
     (if a = CR \<and> b = LF
      then cleanup_crlf ms me (pos + 2) (n + 1) r
             (if n + 1 > 2 then push_cleanup_range pos (pos + 2) ms me removed else removed)
      else cleanup_crlf ms me (pos + 1) 0 (b # r) removed)"

definition cleanup_ranges :: "bytes \<Rightarrow> nat \<times> nat \<Rightarrow> line_ending \<Rightarrow> (nat \<times> nat) list" where
  "cleanup_ranges content rng le =
     (let spliced = apply_splice content rng []
      in case le of
           Lf \<Rightarrow> cleanup_lf (fst rng) (snd rng) 0 0 spliced []
         | CrLf \<Rightarrow> cleanup_crlf (fst rng) (snd rng) 0 0 spliced [])"

fun last_target_byte :: "splice_footprint \<Rightarrow> nat" where
  "last_target_byte (Bytes _ e) = e"
| "last_target_byte (Insert p) = min (p + 1) (2 ^ 32 - 1)"

definition cleanup_invalidates_splice :: "(nat \<times> nat) list \<Rightarrow> splice_footprint \<Rightarrow> bool" where
  "cleanup_invalidates_splice cleanup other = list_ex (\<lambda>(s, _). s < last_target_byte other) cleanup"

section \<open>Lines\<close>

lemma position_less: "position P xs = Some k \<Longrightarrow> k < length xs"
  by (auto simp: position_def Let_def split: if_splits)

lemma line_start_le: "line_start xs \<le> length xs"
  by (auto simp: line_start_def rposition_def dest: position_less split: option.split)

section \<open>Splices\<close>

lemma apply_splice_valid:
  "s \<le> e \<Longrightarrow> e \<le> length content \<Longrightarrow> apply_splice content (s, e) r = take s content @ r @ drop e content"
  by (simp add: apply_splice_def Let_def min_def max_def)

lemma length_apply_splice:
  "s \<le> e \<Longrightarrow> e \<le> length content \<Longrightarrow> length (apply_splice content (s, e) r) = length content - (e - s) + length r"
  by (simp add: apply_splice_valid)

text \<open>The reference: all edits at once, in ascending order of their ranges.\<close>

fun simultaneous :: "bytes \<Rightarrow> nat \<Rightarrow> ((nat \<times> nat) \<times> bytes) list \<Rightarrow> bytes" where
  "simultaneous content pos [] = drop pos content"
| "simultaneous content pos (((s, e), r) # es) =
     take (s - pos) (drop pos content) @ r @ simultaneous content e es"

fun ranges_chain :: "nat \<Rightarrow> nat \<Rightarrow> ((nat \<times> nat) \<times> bytes) list \<Rightarrow> bool" where
  "ranges_chain n pos [] = (pos \<le> n)"
| "ranges_chain n pos (((s, e), r) # es) = (pos \<le> s \<and> s \<le> e \<and> ranges_chain n e es)"

definition apply_descending :: "bytes \<Rightarrow> ((nat \<times> nat) \<times> bytes) list \<Rightarrow> bytes" where
  "apply_descending content es = foldr (\<lambda>(rng, r) c. apply_splice c rng r) es content"

lemma ranges_chain_le: "ranges_chain n pos es \<Longrightarrow> pos \<le> n"
proof (induction n pos es rule: ranges_chain.induct)
  case (2 n pos s e r es)
  then have "pos \<le> s" "s \<le> e" "e \<le> n" by simp_all
  then show ?case by simp
qed simp

lemma take_drop_split: "s \<le> e \<Longrightarrow> take s xs @ take (e - s) (drop s xs) = take e xs"
  by (metis le_add_diff_inverse take_add)

lemma descending_eq:
  "ranges_chain (length content) pos es \<Longrightarrow>
     foldr (\<lambda>(rng, r) c. apply_splice c rng r) es content = take pos content @ simultaneous content pos es"
proof (induction es arbitrary: pos)
  case (Cons x es)
  obtain s e r where x: "x = ((s, e), r)" by (metis surj_pair)
  have c: "pos \<le> s" "s \<le> e" "ranges_chain (length content) e es" using Cons.prems x by auto
  note le = ranges_chain_le [OF c(3)]
  have "foldr (\<lambda>(rng, r) c. apply_splice c rng r) es content = take e content @ simultaneous content e es"
    using Cons.IH [OF c(3)] .
  then show ?case
    using c le take_drop_split [of pos s content]
    by (simp add: x apply_splice_valid min_absorb1)
qed simp

fun foot_range :: "splice_footprint \<Rightarrow> nat \<times> nat" where
  "foot_range (Bytes s e) = (s, e)"
| "foot_range (Insert p) = (p, p)"

fun foot_ok :: "nat \<Rightarrow> splice_footprint \<Rightarrow> bool" where
  "foot_ok n (Bytes s e) = (s < e \<and> e \<le> n)"
| "foot_ok n (Insert p) = (p \<le> n)"

lemma no_overlap_ordered:
  "foot_ok n f \<Longrightarrow> foot_ok n g \<Longrightarrow> \<not> splice_footprints_overlap f g \<Longrightarrow> fst (foot_range f) \<le> fst (foot_range g) \<Longrightarrow>
     snd (foot_range f) \<le> fst (foot_range g)"
  by (cases "(f, g)" rule: splice_footprints_overlap.cases) auto

lemma footprints_chain:
  "sorted (map (fst \<circ> foot_range) fs) \<Longrightarrow> \<forall>f \<in> set fs. foot_ok n f \<Longrightarrow>
   sorted_wrt (\<lambda>f g. \<not> splice_footprints_overlap f g) fs \<Longrightarrow> \<forall>f \<in> set fs. pos \<le> fst (foot_range f) \<Longrightarrow>
   pos \<le> n \<Longrightarrow> length rs = length fs \<Longrightarrow> ranges_chain n pos (zip (map foot_range fs) rs)"
proof (induction fs arbitrary: pos rs)
  case (Cons f fs)
  obtain r rs' where rs: "rs = r # rs'" using Cons.prems(6) by (cases rs) auto
  have f: "fst (foot_range f) \<le> snd (foot_range f)" "snd (foot_range f) \<le> n"
    using Cons.prems(2) by (cases f; simp)+
  have "\<forall>g \<in> set fs. snd (foot_range f) \<le> fst (foot_range g)"
    using Cons.prems(1-3) no_overlap_ordered by fastforce
  then have "ranges_chain n (snd (foot_range f)) (zip (map foot_range fs) rs')"
    using Cons.prems f rs by (intro Cons.IH) auto
  moreover obtain s e where "foot_range f = (s, e)" by (cases "foot_range f")
  ultimately show ?case using f Cons.prems(4) rs by simp
qed simp

section \<open>Line endings\<close>

lemma LF_CR [simp]: "LF \<noteq> CR" "CR \<noteq> LF"
  by (simp_all add: LF_def CR_def)

definition expand_crlf :: "bytes \<Rightarrow> bytes" where
  "expand_crlf bs = concat (map (\<lambda>b. if b = LF then [CR, LF] else [b]) bs)"

lemma expand_crlf_simps [simp]:
  "expand_crlf [] = []" "expand_crlf (b # bs) = (if b = LF then CR # LF # expand_crlf bs else b # expand_crlf bs)"
  by (simp_all add: expand_crlf_def)

lemma normalize_eq:
  "normalize_line_endings t Lf = canonical_endings t"
  "normalize_line_endings t CrLf = expand_crlf (canonical_endings t)"
  by (simp_all add: normalize_line_endings_def expand_crlf_def)

lemma canonical_no_CR: "CR \<notin> set (canonical_endings t)"
  by (induction t rule: canonical_endings.induct) auto

lemma canonical_id: "CR \<notin> set t \<Longrightarrow> canonical_endings t = t"
  by (induction t rule: canonical_endings.induct) auto

lemma canonical_Cons: "b \<noteq> CR \<Longrightarrow> canonical_endings (b # t) = b # canonical_endings t"
  by (cases t) auto

lemma canonical_expand: "CR \<notin> set t \<Longrightarrow> canonical_endings (expand_crlf t) = t"
  by (induction t) (auto simp: canonical_Cons)

lemma normalize_normalize: "normalize_line_endings (normalize_line_endings t a) b = normalize_line_endings t b"
  using canonical_no_CR [of t] by (cases a; cases b) (simp_all add: normalize_eq canonical_id canonical_expand)

lemma count_endings_no_CR:
  "CR \<notin> set t \<Longrightarrow> count_endings t m n = (m, n + count_list t LF)"
  by (induction t m n rule: count_endings.induct) auto

lemma count_endings_plain: "b \<noteq> CR \<Longrightarrow> b \<noteq> LF \<Longrightarrow> count_endings (b # t) m n = count_endings t m n"
  by (cases t) auto

lemma count_endings_expand:
  "CR \<notin> set t \<Longrightarrow> count_endings (expand_crlf t) m n = (m + count_list t LF, n)"
  by (induction t arbitrary: m n) (auto simp: count_endings_plain)

section \<open>Collapsing blank lines\<close>

lemma collapse_lf_filter: "filter (\<lambda>b. b \<noteq> LF) (collapse_lf n xs) = filter (\<lambda>b. b \<noteq> LF) xs"
  by (induction n xs rule: collapse_lf.induct) auto

lemma collapse_lf_idem_gen: "m \<le> n \<Longrightarrow> collapse_lf m (collapse_lf n xs) = collapse_lf n xs"
proof (induction n xs arbitrary: m rule: collapse_lf.induct)
  case (2 n b r)
  then show ?case by (cases "b = LF"; cases "n + 1 \<le> 2") auto
qed simp

fun lf_run :: "nat \<Rightarrow> bytes \<Rightarrow> bool" where
  "lf_run n [] = True"
| "lf_run n (b # r) = (if b = LF then n < 2 \<and> lf_run (n + 1) r else lf_run 0 r)"

lemma collapse_lf_run: "m \<le> n \<Longrightarrow> lf_run m (collapse_lf n xs)"
proof (induction n xs arbitrary: m rule: collapse_lf.induct)
  case (2 n b r)
  then show ?case by (cases "b = LF"; cases "n + 1 \<le> 2") auto
qed simp

lemma lf_run_drop: "lf_run n (ps @ xs) \<Longrightarrow> \<exists>m. lf_run m xs"
  by (induction n ps rule: lf_run.induct) (auto split: if_splits)

lemma lf_run_no_triple: "lf_run n xs \<Longrightarrow> \<not> sublist [LF, LF, LF] xs"
  using lf_run_drop by (fastforce simp: sublist_def)

lemma collapse_crlf_Cons:
  "ys = [] \<or> \<not> (a = CR \<and> hd ys = LF) \<Longrightarrow> collapse_crlf n (a # ys) = a # collapse_crlf 0 ys"
  by (cases ys) auto

text \<open>Right after a kept byte, removing pairs never exposes a line feed.\<close>

lemma collapse_crlf_head: "b \<noteq> LF \<Longrightarrow> hd (collapse_crlf 0 (b # r)) \<noteq> LF"
  by (cases r) auto

lemma collapse_crlf_idem_gen: "m \<le> n \<Longrightarrow> collapse_crlf m (collapse_crlf n xs) = collapse_crlf n xs"
proof (induction n xs arbitrary: m rule: collapse_crlf.induct)
  case (3 n a b r)
  show ?case
  proof (cases "a = CR \<and> b = LF")
    case True
    then show ?thesis using "3.IH"(1,2) [OF True] "3.prems" by (cases "n + 1 \<le> 2") auto
  next
    case False
    then have no: "collapse_crlf 0 (b # r) = [] \<or> \<not> (a = CR \<and> hd (collapse_crlf 0 (b # r)) = LF)"
      using collapse_crlf_head by auto
    have "collapse_crlf n (a # b # r) = a # collapse_crlf 0 (b # r)" using False by auto
    then show ?thesis using "3.IH"(3) [OF False le_refl] collapse_crlf_Cons [OF no] by metis
  qed
qed auto

fun crlf_run :: "nat \<Rightarrow> bytes \<Rightarrow> bool" where
  "crlf_run n [] = True"
| "crlf_run n [a] = True"
| "crlf_run n (a # b # r) = (if a = CR \<and> b = LF then n < 2 \<and> crlf_run (n + 1) r else crlf_run 0 (b # r))"

lemma crlf_run_Cons: "ys = [] \<or> \<not> (a = CR \<and> hd ys = LF) \<Longrightarrow> crlf_run n (a # ys) = crlf_run 0 ys"
  by (cases ys) auto

lemma collapse_crlf_run: "m \<le> n \<Longrightarrow> crlf_run m (collapse_crlf n xs)"
proof (induction n xs arbitrary: m rule: collapse_crlf.induct)
  case (3 n a b r)
  show ?case
  proof (cases "a = CR \<and> b = LF")
    case True
    then show ?thesis using "3.IH"(1,2) [OF True] "3.prems" by (cases "n + 1 \<le> 2") auto
  next
    case False
    then have no: "collapse_crlf 0 (b # r) = [] \<or> \<not> (a = CR \<and> hd (collapse_crlf 0 (b # r)) = LF)"
      using collapse_crlf_head by auto
    have "collapse_crlf n (a # b # r) = a # collapse_crlf 0 (b # r)" using False by auto
    then show ?thesis using "3.IH"(3) [OF False, of 0] crlf_run_Cons [OF no] by simp
  qed
qed auto

lemma crlf_run_drop: "crlf_run n (ps @ CR # xs) \<Longrightarrow> \<exists>m. crlf_run m (CR # xs)"
proof (induction n ps rule: crlf_run.induct)
  case (2 n a)
  then show ?case by (auto simp: crlf_run_Cons)
next
  case (3 n a b r)
  then show ?case by (auto split: if_splits)
qed auto

lemma crlf_run_no_triple: "crlf_run n xs \<Longrightarrow> \<not> sublist [CR, LF, CR, LF, CR, LF] xs"
  using crlf_run_drop by (fastforce simp: sublist_def)

section \<open>Which bytes a deletion removes\<close>

text \<open>
  The positions a collapse keeps, and the result as a selection of positions of its input.
\<close>

fun keep_lf :: "nat \<Rightarrow> bytes \<Rightarrow> bool list" where
  "keep_lf n [] = []"
| "keep_lf n (b # r) = (if b = LF then (n + 1 \<le> 2) # keep_lf (n + 1) r else True # keep_lf 0 r)"

fun keep_crlf :: "nat \<Rightarrow> bytes \<Rightarrow> bool list" where
  "keep_crlf n [] = []"
| "keep_crlf n [a] = [True]"
| "keep_crlf n (a # b # r) =
     (if a = CR \<and> b = LF then (n + 1 \<le> 2) # (n + 1 \<le> 2) # keep_crlf (n + 1) r
      else True # keep_crlf 0 (b # r))"

lemma length_keep_lf [simp]: "length (keep_lf n xs) = length xs"
  by (induction n xs rule: keep_lf.induct) auto

lemma length_keep_crlf [simp]: "length (keep_crlf n xs) = length xs"
  by (induction n xs rule: keep_crlf.induct) auto

definition select :: "bool list \<Rightarrow> bytes \<Rightarrow> bytes" where
  "select ks xs = nths xs {k. k < length ks \<and> ks ! k}"

lemma select_Nil [simp]: "select ks [] = []"
  by (simp add: select_def)

lemma select_Cons [simp]: "select (k # ks) (x # xs) = (if k then x # select ks xs else select ks xs)"
  by (simp add: select_def nths_Cons)

lemma collapse_lf_select: "collapse_lf n xs = select (keep_lf n xs) xs"
  by (induction n xs rule: collapse_lf.induct) auto

lemma collapse_crlf_select: "collapse_crlf n xs = select (keep_crlf n xs) xs"
  by (induction n xs rule: collapse_crlf.induct) auto

definition covered :: "(nat \<times> nat) list \<Rightarrow> nat \<Rightarrow> bool" where
  "covered ranges p \<longleftrightarrow> (\<exists>(s, e) \<in> set ranges. s \<le> p \<and> p < e)"

definition ranges_wf :: "(nat \<times> nat) list \<Rightarrow> bool" where
  "ranges_wf ranges \<longleftrightarrow> (\<forall>(s, e) \<in> set ranges. s \<le> e)"

text \<open>A position of the spliced text, in the coordinates of the source.\<close>

definition source_pos :: "nat \<Rightarrow> nat \<Rightarrow> nat \<Rightarrow> nat" where
  "source_pos ms me p = (if p \<ge> ms then p + (me - ms) else p)"

lemma covered_append [simp]: "covered (xs @ ys) p \<longleftrightarrow> covered xs p \<or> covered ys p"
  by (auto simp: covered_def)

lemma covered_single [simp]: "covered [(s, e)] p \<longleftrightarrow> s \<le> p \<and> p < e" "\<not> covered [] p"
  by (auto simp: covered_def)

lemma as_u32_id [simp]: "n < 2 ^ 32 \<Longrightarrow> as_u32 n = n"
  by (simp add: as_u32_def)

lemma as_u32_code [code]: "as_u32 n = nat (int n mod 4294967296)"
  by (simp add: as_u32_def nat_mod_distrib)

lemma push_one_spec:
  assumes "ranges_wf removed" and "e + (me - ms) < 2 ^ 32" and "e \<le> ms \<or> ms \<le> s"
  shows "ranges_wf (push_one ms me (s, e) removed) \<and>
    (covered (push_one ms me (s, e) removed) p \<longleftrightarrow> covered removed p \<or> (\<exists>k. s \<le> k \<and> k < e \<and> p = source_pos ms me k))"
proof (cases "s < e")
  case False
  then show ?thesis using assms(1) by (auto simp: push_one_def)
next
  case True
  define sh where "sh = (if s \<ge> ms then me - ms else 0)"
  have small: "as_u32 (s + sh) = s + sh" "as_u32 (e + sh) = e + sh"
    using True assms(2) by (auto simp: sh_def intro!: as_u32_id)
  have new: "(\<exists>k. s \<le> k \<and> k < e \<and> p = source_pos ms me k) \<longleftrightarrow> s + sh \<le> p \<and> p < e + sh"
  proof -
    have "source_pos ms me k = k + sh" if "s \<le> k" "k < e" for k
      using that assms(3) True by (auto simp: source_pos_def sh_def)
    then have "(\<exists>k. s \<le> k \<and> k < e \<and> p = source_pos ms me k) \<longleftrightarrow> (\<exists>k. s \<le> k \<and> k < e \<and> p = k + sh)"
      by metis
    then show ?thesis by (auto intro: exI [of _ "p - sh"])
  qed
  show ?thesis
  proof (cases "removed \<noteq> [] \<and> snd (last removed) = s + sh")
    case merge: True
    then obtain rs a where rs: "removed = rs @ [(a, s + sh)]"
      by (metis append_butlast_last_id prod.collapse)
    have a: "a \<le> s + sh" using assms(1) by (simp add: rs ranges_wf_def)
    have "push_one ms me (s, e) removed = rs @ [(a, e + sh)]"
      using True merge small by (simp add: push_one_def Let_def rs flip: sh_def)
    then show ?thesis
      using a True assms(1) by (auto simp: rs new ranges_wf_def)
  next
    case False
    have "push_one ms me (s, e) removed = removed @ [(s + sh, e + sh)]"
      using True False small by (auto simp: push_one_def Let_def simp flip: sh_def)
    then show ?thesis using True assms(1) by (auto simp: new ranges_wf_def)
  qed
qed

lemma push_cleanup_range_spec:
  assumes "ranges_wf removed" and "e + (me - ms) < 2 ^ 32"
  shows "ranges_wf (push_cleanup_range s e ms me removed)"
    and "covered (push_cleanup_range s e ms me removed) p \<longleftrightarrow>
      covered removed p \<or> (\<exists>k. s \<le> k \<and> k < e \<and> p = source_pos ms me k)"
proof -
  have 1: "min e ms + (me - ms) < 2 ^ 32" using assms(2) by auto
  note A = push_one_spec [OF assms(1) 1, of s]
  have wf: "ranges_wf (push_one ms me (s, min e ms) removed)" using A by simp
  note B = push_one_spec [OF wf assms(2), of "max s ms"]
  show "ranges_wf (push_cleanup_range s e ms me removed)" using B by (simp add: push_cleanup_range_def)
  have "(\<exists>k. s \<le> k \<and> k < e \<and> p = source_pos ms me k) \<longleftrightarrow>
      (\<exists>k. s \<le> k \<and> k < min e ms \<and> p = source_pos ms me k) \<or>
      (\<exists>k. max s ms \<le> k \<and> k < e \<and> p = source_pos ms me k)"
  proof -
    have "s \<le> k \<and> k < e \<longleftrightarrow> (s \<le> k \<and> k < min e ms) \<or> (max s ms \<le> k \<and> k < e)" for k by auto
    then show ?thesis by blast
  qed
  then show "covered (push_cleanup_range s e ms me removed) p \<longleftrightarrow>
      covered removed p \<or> (\<exists>k. s \<le> k \<and> k < e \<and> p = source_pos ms me k)"
    using A B by (simp add: push_cleanup_range_def)
qed

lemma cleanup_lf_spec:
  assumes "ranges_wf removed" and "pos + length r + (me - ms) < 2 ^ 32"
  shows "ranges_wf (cleanup_lf ms me pos n r removed)"
    and "covered (cleanup_lf ms me pos n r removed) p \<longleftrightarrow>
      covered removed p \<or> (\<exists>k < length r. \<not> keep_lf n r ! k \<and> p = source_pos ms me (pos + k))"
proof -
  have "ranges_wf (cleanup_lf ms me pos n r removed) \<and>
      (covered (cleanup_lf ms me pos n r removed) p \<longleftrightarrow>
        covered removed p \<or> (\<exists>k < length r. \<not> keep_lf n r ! k \<and> p = source_pos ms me (pos + k)))"
    using assms
  proof (induction ms me pos n r removed rule: cleanup_lf.induct)
    case (2 ms me pos n b r removed)
    have shift: "(\<exists>k < length (b # r). \<not> keep_lf n (b # r) ! k \<and> p = source_pos ms me (pos + k)) \<longleftrightarrow>
        (b = LF \<and> n + 1 > 2 \<and> p = source_pos ms me pos) \<or>
        (\<exists>k < length r. \<not> keep_lf (if b = LF then n + 1 else 0) r ! k \<and> p = source_pos ms me (pos + 1 + k))"
      by (cases "b = LF") (simp_all add: Ex_less_Suc2 not_le)
    let ?removed = "if n + 1 > 2 then push_cleanup_range pos (pos + 1) ms me removed else removed"
    have small: "pos + 1 + (me - ms) < 2 ^ 32" using "2.prems"(2) by simp
    have one: "(\<exists>k. pos \<le> k \<and> k < pos + 1 \<and> p = source_pos ms me k) \<longleftrightarrow> p = source_pos ms me pos"
      by (metis add.commute le_refl less_Suc_eq_le nle_le plus_1_eq_Suc)
    have rem: "ranges_wf ?removed \<and>
        (covered ?removed p \<longleftrightarrow> covered removed p \<or> (n + 1 > 2 \<and> p = source_pos ms me pos))"
      using push_cleanup_range_spec [OF "2.prems"(1) small, of pos] "2.prems"(1) one by auto
    show ?case
    proof (cases "b = LF")
      case True
      then show ?thesis
        using "2.IH"(1) [OF True conjunct1 [OF rem]] "2.prems"(2) rem unfolding shift by simp
    next
      case False
      then show ?thesis
        using "2.IH"(2) [OF False "2.prems"(1)] "2.prems"(2) unfolding shift by simp
    qed
  qed simp
  then show "ranges_wf (cleanup_lf ms me pos n r removed)"
    and "covered (cleanup_lf ms me pos n r removed) p \<longleftrightarrow>
      covered removed p \<or> (\<exists>k < length r. \<not> keep_lf n r ! k \<and> p = source_pos ms me (pos + k))"
    by blast+
qed

lemma cleanup_crlf_spec:
  assumes "ranges_wf removed" and "pos + length r + (me - ms) < 2 ^ 32"
  shows "ranges_wf (cleanup_crlf ms me pos n r removed)"
    and "covered (cleanup_crlf ms me pos n r removed) p \<longleftrightarrow>
      covered removed p \<or> (\<exists>k < length r. \<not> keep_crlf n r ! k \<and> p = source_pos ms me (pos + k))"
proof -
  have "ranges_wf (cleanup_crlf ms me pos n r removed) \<and>
      (covered (cleanup_crlf ms me pos n r removed) p \<longleftrightarrow>
        covered removed p \<or> (\<exists>k < length r. \<not> keep_crlf n r ! k \<and> p = source_pos ms me (pos + k)))"
    using assms
  proof (induction ms me pos n r removed rule: cleanup_crlf.induct)
    case (3 ms me pos n a b r removed)
    show ?case
    proof (cases "a = CR \<and> b = LF")
      case True
      let ?removed = "if n + 1 > 2 then push_cleanup_range pos (pos + 2) ms me removed else removed"
      have shift: "(\<exists>k < length (a # b # r). \<not> keep_crlf n (a # b # r) ! k \<and> p = source_pos ms me (pos + k)) \<longleftrightarrow>
          (n + 1 > 2 \<and> (p = source_pos ms me pos \<or> p = source_pos ms me (pos + 1))) \<or>
          (\<exists>k < length r. \<not> keep_crlf (n + 1) r ! k \<and> p = source_pos ms me (pos + 2 + k))"
        using True by (simp add: Ex_less_Suc2 not_le) blast
      have small: "pos + 2 + (me - ms) < 2 ^ 32" using "3.prems"(2) by simp
      have "pos \<le> k \<and> k < pos + 2 \<longleftrightarrow> k = pos \<or> k = pos + 1" for k by auto
      then have two: "(\<exists>k. pos \<le> k \<and> k < pos + 2 \<and> p = source_pos ms me k) \<longleftrightarrow>
          p = source_pos ms me pos \<or> p = source_pos ms me (pos + 1)" by metis
      have rem: "ranges_wf ?removed \<and>
          (covered ?removed p \<longleftrightarrow> covered removed p \<or>
            (n + 1 > 2 \<and> (p = source_pos ms me pos \<or> p = source_pos ms me (pos + 1))))"
        using push_cleanup_range_spec [OF "3.prems"(1) small, of pos] "3.prems"(1) two by auto
      show ?thesis
        using "3.IH"(1) [OF True conjunct1 [OF rem]] "3.prems"(2) rem True unfolding shift by simp
    next
      case False
      have shift: "(\<exists>k < length (a # b # r). \<not> keep_crlf n (a # b # r) ! k \<and> p = source_pos ms me (pos + k)) \<longleftrightarrow>
          (\<exists>k < length (b # r). \<not> keep_crlf 0 (b # r) ! k \<and> p = source_pos ms me (pos + 1 + k))"
        using False by (auto simp: Ex_less_Suc2)
      have "cleanup_crlf ms me pos n (a # b # r) removed = cleanup_crlf ms me (pos + 1) 0 (b # r) removed"
        using False by auto
      then show ?thesis
        using "3.IH"(2) [OF False "3.prems"(1)] "3.prems"(2) unfolding shift by simp
    qed
  qed auto
  then show "ranges_wf (cleanup_crlf ms me pos n r removed)"
    and "covered (cleanup_crlf ms me pos n r removed) p \<longleftrightarrow>
      covered removed p \<or> (\<exists>k < length r. \<not> keep_crlf n r ! k \<and> p = source_pos ms me (pos + k))"
    by blast+
qed

lemma nths_cong: "(\<And>i. i < length xs \<Longrightarrow> i \<in> A \<longleftrightarrow> i \<in> B) \<Longrightarrow> nths xs A = nths xs B"
  unfolding nths_def by (rule arg_cong [where f = "map fst"], rule filter_cong) (auto dest: set_zip_rightD)

definition keep_mask :: "line_ending \<Rightarrow> bytes \<Rightarrow> bool list" where
  "keep_mask le xs = (case le of Lf \<Rightarrow> keep_lf 0 xs | CrLf \<Rightarrow> keep_crlf 0 xs)"

lemma collapse_select: "collapse_blank_lines xs le = select (keep_mask le xs) xs"
  by (cases le) (simp_all add: collapse_blank_lines_def keep_mask_def collapse_lf_select collapse_crlf_select)

lemma length_keep_mask [simp]: "length (keep_mask le xs) = length xs"
  by (cases le) (simp_all add: keep_mask_def)

lemma cleanup_ranges_spec:
  assumes "s \<le> e" and "e \<le> length content" and "length content < 2 ^ 32"
  shows "covered (cleanup_ranges content (s, e) le) p \<longleftrightarrow>
    (\<exists>k < length (apply_splice content (s, e) []).
       \<not> keep_mask le (apply_splice content (s, e) []) ! k \<and> p = source_pos s e k)"
proof -
  have len: "0 + length (apply_splice content (s, e) []) + (e - s) < 2 ^ 32"
    using assms by (simp add: length_apply_splice)
  have wf: "ranges_wf []" by (simp add: ranges_wf_def)
  show ?thesis
    using cleanup_lf_spec(2) [OF wf len] cleanup_crlf_spec(2) [OF wf len]
    by (cases le) (simp_all add: cleanup_ranges_def keep_mask_def)
qed

text \<open>
  A deletion followed by the blank-line cleanup removes exactly the main range and the cleanup
  ranges of the source.
\<close>

lemma delete_positions:
  assumes se: "s \<le> e" "e \<le> length content" and small: "length content < 2 ^ 32"
  shows "collapse_blank_lines (apply_splice content (s, e) []) le =
    nths content {p. \<not> (s \<le> p \<and> p < e) \<and> \<not> covered (cleanup_ranges content (s, e) le) p}"
proof -
  let ?sp = "apply_splice content (s, e) []"
  define A where "A = {k. k < length ?sp \<and> keep_mask le ?sp ! k}"
  define P M S where "P = take s content" and "M = take (e - s) (drop s content)" and "S = drop e content"
  have split: "content = P @ M @ S" and len: "length P = s" "length M = e - s"
    using se by (auto simp: P_def M_def S_def) (metis append_take_drop_id drop_drop le_add_diff_inverse2)
  have sp: "?sp = P @ S" using se by (simp add: apply_splice_valid P_def S_def)
  note cov = cleanup_ranges_spec [OF se small, of le]
  have in_P: "p \<in> A \<longleftrightarrow> \<not> covered (cleanup_ranges content (s, e) le) p" if p: "p < s" for p
  proof -
    have "p = source_pos s e k \<longleftrightarrow> k = p" for k using p by (auto simp: source_pos_def)
    moreover have "p < length ?sp" using p len sp by simp
    ultimately show ?thesis unfolding cov by (simp add: A_def)
  qed
  have in_S: "j + s \<in> A \<longleftrightarrow> \<not> covered (cleanup_ranges content (s, e) le) (j + e)" if j: "j < length S" for j
  proof -
    have "j + e = source_pos s e k \<longleftrightarrow> k = j + s" for k
      using se by (auto simp: source_pos_def)
    moreover have "j + s < length ?sp" using j len sp by simp
    ultimately show ?thesis unfolding cov by (simp add: A_def)
  qed
  let ?K = "{p. \<not> (s \<le> p \<and> p < e) \<and> \<not> covered (cleanup_ranges content (s, e) le) p}"
  have "collapse_blank_lines ?sp le = nths (P @ S) A"
    by (simp add: collapse_select select_def A_def sp)
  also have "\<dots> = nths P A @ nths S {j. j + s \<in> A}" by (simp add: nths_append len)
  also have "nths P A = nths P ?K"
    by (rule nths_cong) (use in_P len in auto)
  also have "nths S {j. j + s \<in> A} = nths S {j. j + e \<in> ?K}"
    by (rule nths_cong) (use in_S se in auto)
  also have "nths P ?K @ nths S {j. j + e \<in> ?K} = nths (P @ M @ S) ?K"
  proof -
    have "nths M {j. j + s \<in> ?K} = nths M {}"
      by (rule nths_cong) (use len se in auto)
    moreover have "{j. j + length M \<in> {j. j + s \<in> ?K}} = {j. j + e \<in> ?K}"
      using len se by (auto simp: add.assoc)
    ultimately show ?thesis by (simp add: nths_append len)
  qed
  finally show ?thesis using split by simp
qed

lemma not_invalidated_covered:
  assumes "\<not> cleanup_invalidates_splice cleanup f" and "p < last_target_byte f"
  shows "\<not> covered cleanup p"
  using assms by (fastforce simp: cleanup_invalidates_splice_def covered_def list_ex_iff)

lemma nths_keeps_prefix:
  assumes "\<And>p. p < b \<Longrightarrow> p \<in> K" and "b \<le> length xs"
  shows "take b (nths xs K) = take b xs"
proof -
  have "nths xs K = nths (take b xs @ drop b xs) K" by simp
  also have "\<dots> = take b xs @ nths (drop b xs) {j. j + length (take b xs) \<in> K}"
    unfolding nths_append using assms by (simp add: nths_all)
  finally show ?thesis using assms(2) by simp
qed

section \<open>Properties\<close>

text \<open>
  C16: splices whose footprints do not overlap, applied one after the other from the highest to the
  lowest, each with the offsets captured before any of them ran, produce the text in which all of
  them are made at once.
\<close>

theorem descending_splices_simultaneous:
  assumes "sorted (map (fst \<circ> foot_range) fs)" and "\<forall>f \<in> set fs. foot_ok (length content) f"
    and "sorted_wrt (\<lambda>f g. \<not> splice_footprints_overlap f g) fs" and "length rs = length fs"
  shows "apply_descending content (zip (map foot_range fs) rs) =
    simultaneous content 0 (zip (map foot_range fs) rs)"
proof -
  have "ranges_chain (length content) 0 (zip (map foot_range fs) rs)"
    by (rule footprints_chain [OF assms(1-3) _ _ assms(4)]) simp_all
  from descending_eq [OF this] show ?thesis by (simp add: apply_descending_def)
qed

theorem descending_splices_simultaneous_witness:
  "apply_descending [1, 2, 3, 4, 5] (zip (map foot_range [Insert 0, Bytes 1 3, Insert 4]) [[9], [], [7, 7]]) =
     simultaneous [1, 2, 3, 4, 5] 0 (zip (map foot_range [Insert 0, Bytes 1 3, Insert 4]) [[9], [], [7, 7]])"
  by (rule descending_splices_simultaneous) simp_all

text \<open>
  Normalising to a line ending leaves no other kind behind, is idempotent, and the last
  normalisation wins: text already normalised to one style converts to the other without residue.
\<close>

lemma normalize_line_endings_canonical:
  "normalize_line_endings (normalize_line_endings text a) b = normalize_line_endings text b \<and>
   count_endings (normalize_line_endings text Lf) 0 0 = (0, count_list (canonical_endings text) LF) \<and>
   count_endings (normalize_line_endings text CrLf) 0 0 = (count_list (canonical_endings text) LF, 0) \<and>
   CR \<notin> set (normalize_line_endings text Lf)"
  by (simp add: normalize_normalize normalize_eq count_endings_no_CR count_endings_expand canonical_no_CR)

text \<open>
  Collapsing blank lines leaves no run of three line endings, keeps every byte that is not a
  line feed on LF files, and is idempotent.
\<close>

lemma collapse_blank_lines_correct:
  "collapse_blank_lines (collapse_blank_lines content le) le = collapse_blank_lines content le \<and>
   \<not> sublist (concat (replicate 3 (ending_bytes le))) (collapse_blank_lines content le) \<and>
   filter (\<lambda>b. b \<noteq> LF) (collapse_blank_lines content Lf) = filter (\<lambda>b. b \<noteq> LF) content"
proof (cases le)
  case Lf
  then show ?thesis
    using lf_run_no_triple [OF collapse_lf_run [of 0 0 content]]
    by (simp add: collapse_blank_lines_def collapse_lf_idem_gen collapse_lf_filter numeral_3_eq_3)
next
  case CrLf
  then show ?thesis
    using crlf_run_no_triple [OF collapse_crlf_run [of 0 0 content]]
    by (simp add: collapse_blank_lines_def collapse_crlf_idem_gen collapse_lf_filter numeral_3_eq_3)
qed

text \<open>
  C18: the cleanup ranges a batch reserves for a deletion are exact. Deleting the main range and
  collapsing blank lines over the whole file keeps exactly the source bytes outside the main range
  and outside the cleanup ranges.
\<close>

theorem cleanup_ranges_exact:
  assumes "s \<le> e" and "e \<le> length content" and "length content < 2 ^ 32"
  shows "collapse_blank_lines (apply_splice content (s, e) []) le =
    nths content {p. \<not> (s \<le> p \<and> p < e) \<and> \<not> covered (cleanup_ranges content (s, e) le) p}"
  using assms by (rule delete_positions)

theorem cleanup_ranges_exact_witness:
  "collapse_blank_lines (apply_splice [LF, 7, LF, 8, LF, LF, 9] (1, 2) []) Lf =
    nths [LF, 7, LF, 8, LF, LF, 9] {p. \<not> (1 \<le> p \<and> p < 2) \<and> \<not> covered (cleanup_ranges [LF, 7, LF, 8, LF, LF, 9] (1, 2) Lf) p}"
  by (rule cleanup_ranges_exact) simp_all

text \<open>
  A cached span that the overlap checks accept is still valid after the deletion. If a
  footprint ends before the deleted range and \<open>cleanup_invalidates_splice\<close> does not reject it, the
  deletion leaves every byte up to the end of that footprint in place.
\<close>

lemma accepted_span_survives_delete:
  assumes "s \<le> e" and "e \<le> length content" and "length content < 2 ^ 32"
    and "\<not> cleanup_invalidates_splice (cleanup_ranges content (s, e) le) f"
    and "snd (foot_range f) \<le> s" and "foot_ok (length content) f"
  shows "take (snd (foot_range f)) (collapse_blank_lines (apply_splice content (s, e) []) le) =
    take (snd (foot_range f)) content"
proof -
  have "snd (foot_range f) \<le> last_target_byte f"
    using assms(3,6) by (cases f) auto
  then show ?thesis
    using not_invalidated_covered [OF assms(4)] assms(1,2,5)
    by (subst delete_positions [OF assms(1-3)], intro nths_keeps_prefix) auto
qed

theorem accepted_span_survives_delete_witness:
  "take 2 (collapse_blank_lines (apply_splice [7, 8, LF, 9, LF, LF, LF] (3, 4) []) Lf) = take 2 [7, 8, LF, 9, LF, LF, LF]"
  using accepted_span_survives_delete
    [where content = "[7, 8, LF, 9, LF, LF, LF]" and s = 3 and e = 4 and f = "Bytes 0 2" and le = Lf]
  by (simp add: cleanup_invalidates_splice_def cleanup_ranges_def apply_splice_def push_cleanup_range_def
      push_one_def as_u32_def LF_def)

end
