(* ===== verification/TextEdit.thy ===== *)
theory TextEdit
  imports Splice
begin

text \<open>
  The text-level part of \<open>src/edit_safety/structural.rs\<close>: re-indentation, insertion, replacement
  and deletion of symbols, and the match selection of an edit inside a symbol.

  A \<open>str\<close> is its UTF-8 bytes. \<open>trim_start\<close> recognises the White_Space characters of Unicode by
  their encodings. A panic (a slice out of range or off a character boundary, an index out of
  range) is \<open>None\<close>; an error the code returns is the left side of a sum.
\<close>

section \<open>Strings as UTF-8 bytes\<close>

definition ascii :: "string \<Rightarrow> bytes" where
  "ascii s = map (\<lambda>c. word_of_nat (of_char c)) s"

definition cont :: "u8 \<Rightarrow> bool" where
  "cont b \<longleftrightarrow> 0x80 \<le> b \<and> b \<le> 0xBF"

fun valid_utf8 :: "bytes \<Rightarrow> bool" where
  "valid_utf8 [] = True"
| "valid_utf8 [a] = (a < 0x80)"
| "valid_utf8 [a, b] =
     (if a < 0x80 then valid_utf8 [b] else 0xC2 \<le> a \<and> a \<le> 0xDF \<and> cont b)"
| "valid_utf8 [a, b, c] =
     (if a < 0x80 then valid_utf8 [b, c]
      else if 0xC2 \<le> a \<and> a \<le> 0xDF then cont b \<and> valid_utf8 [c]
      else cont b \<and> cont c \<and> 0xE0 \<le> a \<and> a \<le> 0xEF
           \<and> (a = 0xE0 \<longrightarrow> 0xA0 \<le> b) \<and> (a = 0xED \<longrightarrow> b \<le> 0x9F))"
| "valid_utf8 (a # b # c # d # r) =
     (if a < 0x80 then valid_utf8 (b # c # d # r)
      else if 0xC2 \<le> a \<and> a \<le> 0xDF then cont b \<and> valid_utf8 (c # d # r)
      else if 0xE0 \<le> a \<and> a \<le> 0xEF
      then cont b \<and> cont c \<and> (a = 0xE0 \<longrightarrow> 0xA0 \<le> b) \<and> (a = 0xED \<longrightarrow> b \<le> 0x9F) \<and> valid_utf8 (d # r)
      else 0xF0 \<le> a \<and> a \<le> 0xF4 \<and> cont b \<and> cont c \<and> cont d
           \<and> (a = 0xF0 \<longrightarrow> 0x90 \<le> b) \<and> (a = 0xF4 \<longrightarrow> b \<le> 0x8F) \<and> valid_utf8 r)"

definition is_char_boundary :: "bytes \<Rightarrow> nat \<Rightarrow> bool" where
  "is_char_boundary s i \<longleftrightarrow> i = 0 \<or> i = length s \<or> (i < length s \<and> \<not> cont (s ! i))"

definition ws_len :: "bytes \<Rightarrow> nat" where
  "ws_len s =
     (case s of
        [] \<Rightarrow> 0
      | a # r \<Rightarrow>
          if (9 \<le> a \<and> a \<le> 13) \<or> a = 32 then 1
          else if take 2 s \<in> {[0xC2, 0x85], [0xC2, 0xA0]} then 2
          else if take 3 s \<in> {[0xE1, 0x9A, 0x80], [0xE2, 0x80, 0xA8], [0xE2, 0x80, 0xA9],
                              [0xE2, 0x80, 0xAF], [0xE2, 0x81, 0x9F], [0xE3, 0x80, 0x80]}
                  \<or> (take 2 s = [0xE2, 0x80] \<and> length s \<ge> 3 \<and> 0x80 \<le> s ! 2 \<and> s ! 2 \<le> 0x8A) then 3
          else 0)"

lemma ws_len_le: "ws_len s \<le> length s"
proof (cases s)
  case (Cons a r)
  have len: "take n s = xs \<Longrightarrow> length xs \<le> length s" for n and xs :: bytes
    by (metis length_take min.cobounded1)
  show ?thesis
    using len [of 2 "[0xC2, 0x85]"] len [of 2 "[0xC2, 0xA0]"] len [of 3 "[0xE1, 0x9A, 0x80]"]
      len [of 3 "[0xE2, 0x80, 0xA8]"] len [of 3 "[0xE2, 0x80, 0xA9]"] len [of 3 "[0xE2, 0x80, 0xAF]"]
      len [of 3 "[0xE2, 0x81, 0x9F]"] len [of 3 "[0xE3, 0x80, 0x80]"]
    unfolding ws_len_def by (simp add: Cons split: if_splits) auto
qed (simp add: ws_len_def)

function trim_start :: "bytes \<Rightarrow> bytes" where
  "trim_start s = (if ws_len s = 0 then s else trim_start (drop (ws_len s) s))"
  by pat_completeness auto
termination
proof (relation "measure length")
  fix s assume "ws_len s \<noteq> 0"
  then show "(drop (ws_len s) s, s) \<in> measure length" using ws_len_le [of s] by simp
qed simp

declare trim_start.simps [simp del]

definition is_blank :: "bytes \<Rightarrow> bool" where
  "is_blank s \<longleftrightarrow> trim_start s = []"

definition starts_with :: "bytes \<Rightarrow> bytes \<Rightarrow> bool" where
  "starts_with s p \<longleftrightarrow> take (length p) s = p"

definition strip_prefix :: "bytes \<Rightarrow> bytes \<Rightarrow> bytes option" where
  "strip_prefix p s = (if starts_with s p then Some (drop (length p) s) else None)"

fun split_lf :: "bytes \<Rightarrow> bytes list" where
  "split_lf [] = [[]]"
| "split_lf (b # r) = (if b = LF then [] # split_lf r
     else (case split_lf r of [] \<Rightarrow> [[b]] | l # ls \<Rightarrow> (b # l) # ls))"

definition strip_cr :: "bytes \<Rightarrow> bytes" where
  "strip_cr line = (if line \<noteq> [] \<and> last line = CR then butlast line else line)"

definition str_lines :: "bytes \<Rightarrow> bytes list" where
  "str_lines s = (let ps = split_lf s
     in map strip_cr (butlast ps) @ (if last ps = [] then [] else [last ps]))"

section \<open>Indentation\<close>

definition leading_whitespace :: "bytes \<Rightarrow> bytes" where
  "leading_whitespace line = take (length line - length (trim_start line)) line"

fun common_len :: "bytes \<Rightarrow> bytes \<Rightarrow> nat" where
  "common_len (a # p) (b # w) = (if a = b then Suc (common_len p w) else 0)"
| "common_len _ _ = 0"

fun common_loop :: "bytes option \<Rightarrow> bytes list \<Rightarrow> bytes option" where
  "common_loop common [] = Some (case common of None \<Rightarrow> [] | Some c \<Rightarrow> c)"
| "common_loop common (raw # ls) =
     (let line = strip_cr raw
      in if is_blank line then common_loop common ls
         else let ws = leading_whitespace line
              in case common of
                   None \<Rightarrow> if ws = [] then Some [] else common_loop (Some ws) ls
                 | Some prev \<Rightarrow>
                     (let e = common_len prev ws
                      in if \<not> is_char_boundary prev e then None
                         else if take e prev = [] then Some []
                         else common_loop (Some (take e prev)) ls))"

definition common_leading_whitespace :: "bytes list \<Rightarrow> bytes option" where
  "common_leading_whitespace ls = common_loop None ls"

fun indent_lines :: "bytes \<Rightarrow> bytes \<Rightarrow> bytes \<Rightarrow> bool \<Rightarrow> bytes list \<Rightarrow> bytes" where
  "indent_lines base indent le first [] = []"
| "indent_lines base indent le first (raw # ls) =
     (let line = strip_cr raw
      in (if first then [] else le)
         @ (if line = [] then []
            else indent @ (case strip_prefix base line of Some d \<Rightarrow> d | None \<Rightarrow> line))
         @ indent_lines base indent le False ls)"

definition apply_indentation :: "bytes \<Rightarrow> bytes \<Rightarrow> line_ending \<Rightarrow> bytes option" where
  "apply_indentation txt indent le =
     (let parts = split_lf txt
      in case common_leading_whitespace parts of
           None \<Rightarrow> None
         | Some base \<Rightarrow> Some (indent_lines base indent (ending_bytes le) True parts))"

definition normalized_or :: "bytes \<Rightarrow> line_ending \<Rightarrow> bytes" where
  "normalized_or code le =
     (let n = normalize_line_endings code le in if valid_utf8 n then n else code)"

section \<open>Doc comments and attributes above a symbol\<close>

definition is_doc_line :: "bytes \<Rightarrow> bool" where
  "is_doc_line l =
     (let trimmed = trim_start (if valid_utf8 l then l else [])
      in starts_with trimmed (ascii ''///'') \<or> starts_with trimmed (ascii ''//!'')
         \<or> starts_with trimmed (ascii ''/**'') \<or> starts_with trimmed (ascii ''* '')
         \<or> trimmed = ascii ''*/'' \<or> starts_with trimmed (ascii ''# '') \<or> trimmed = ascii ''#'')"

fun scan_comments :: "bytes list \<Rightarrow> nat \<Rightarrow> bool \<Rightarrow> bool \<times> nat" where
  "scan_comments ls 0 found = (found, 0)"
| "scan_comments ls (Suc j) found =
     (if is_doc_line (ls ! j) then scan_comments ls j True else (found, Suc j))"

definition extend_past_orphaned_docs :: "bytes \<Rightarrow> nat \<Rightarrow> symbol_record \<Rightarrow> nat option" where
  "extend_past_orphaned_docs content ls symb =
     (if doc_byte_range symb \<noteq> None then Some ls
      else if ls > length content then None
      else let lns = split_lf (take ls content);
               i = length lns;
               i = (if i > 0 \<and> lns ! (i - 1) = [] then i - 1 else i)
           in if i > 0 \<and> list_all is_ascii_whitespace (lns ! (i - 1))
              then let (found, i) = scan_comments lns (i - 1) False
                   in if found then Some (sum_list (map (\<lambda>l. length l + 1) (take i lns))) else Some ls
              else Some ls)"

function extend_past_leading_attributes :: "bytes \<Rightarrow> nat \<Rightarrow> nat option" where
  "extend_past_leading_attributes content start =
     (if start = 0 then Some 0
      else if start - 1 > length content then None
      else let prev_line_end = start - 1;
               prev_line_start = line_start (take prev_line_end content);
               line = drop prev_line_start (take prev_line_end content);
               trimmed = trim_start (if valid_utf8 line then line else [])
           in if starts_with trimmed (ascii ''#['')
              then extend_past_leading_attributes content prev_line_start
              else Some start)"
  by pat_completeness auto
termination
  by (relation "measure snd") (auto intro: le_less_trans [OF line_start_le])

declare extend_past_leading_attributes.simps [simp del]

definition body_starts_with_doc_comment :: "bytes \<Rightarrow> bool" where
  "body_starts_with_doc_comment body =
     (case List.find (\<lambda>l. \<not> is_blank l) (str_lines body) of
        None \<Rightarrow> False
      | Some first \<Rightarrow>
          (let trimmed = trim_start first
           in starts_with trimmed (ascii ''///'') \<or> starts_with trimmed (ascii ''//!'')
              \<or> starts_with trimmed (ascii ''/**'') \<or> starts_with trimmed (ascii ''/*!'')
              \<or> starts_with trimmed (ascii ''#[doc'')))"

fun find_sub :: "bytes \<Rightarrow> bytes \<Rightarrow> nat option" where
  "find_sub n [] = (if n = [] then Some 0 else None)"
| "find_sub n (b # r) = (if starts_with (b # r) n then Some 0 else map_option Suc (find_sub n r))"

definition past_marker :: "bytes \<Rightarrow> bytes \<Rightarrow> nat option" where
  "past_marker trimmed closer =
     (case find_sub closer trimmed of
        None \<Rightarrow> None
      | Some p \<Rightarrow>
          (let marker_end = p + length closer;
               rest = drop marker_end trimmed
           in Some (marker_end + (length rest - length (trim_start rest)))))"

definition same_line_doc_prefix_end :: "bytes \<Rightarrow> nat option" where
  "same_line_doc_prefix_end txt =
     (if \<not> valid_utf8 txt then None
      else let trimmed = trim_start txt;
               leading = length txt - length trimmed
           in if starts_with trimmed (ascii ''/**'') \<or> starts_with trimmed (ascii ''/*!'')
              then map_option (\<lambda>p. leading + p) (past_marker trimmed (ascii ''*/''))
              else if starts_with trimmed (ascii ''#[doc'')
              then map_option (\<lambda>p. leading + p) (past_marker trimmed (ascii '']''))
              else None)"

definition docless_replacement_splice_start :: "bytes \<Rightarrow> nat \<Rightarrow> nat \<Rightarrow> nat" where
  "docless_replacement_splice_start content raw_line_start symbol_start =
     (if raw_line_start \<ge> symbol_start \<or> symbol_start > length content then raw_line_start
      else case same_line_doc_prefix_end (drop raw_line_start (take symbol_start content)) of
             Some e \<Rightarrow> raw_line_start + e
           | None \<Rightarrow> raw_line_start)"

section \<open>Replace, insert, delete\<close>

definition replacement_splice_range ::
  "bytes \<Rightarrow> symbol_record \<Rightarrow> bytes \<Rightarrow> (string, nat \<times> nat) result option" where
  "replacement_splice_range content symb new_body =
     (let (start, e) = byte_range symb
      in if start > e \<or> e > length content \<or> effective_start symb > start
         then Some (Err ''symbol span is outside the captured file'')
         else let docs = body_starts_with_doc_comment new_body;
                  effective = (if docs then effective_start symb else start);
                  raw_line_start = line_start (take effective content)
              in if docs
                 then map_option (\<lambda>s. Ok (as_u32 s, e)) (extend_past_orphaned_docs content raw_line_start symb)
                 else Some (Ok (as_u32 (docless_replacement_splice_start content raw_line_start start), e)))"

record prepared_replace =
  pr_new_content :: bytes
  pr_old_bytes :: nat
  pr_inserted_bytes :: nat

definition prepare_replace ::
  "bytes \<Rightarrow> symbol_record \<Rightarrow> bytes \<Rightarrow> (string, prepared_replace) result option" where
  "prepare_replace content symb new_body =
     (case replacement_splice_range content symb new_body of
        None \<Rightarrow> None
      | Some (Err e) \<Rightarrow> Some (Err e)
      | Some (Ok (splice_start, _)) \<Rightarrow>
          (let (start, e) = byte_range symb
           in case detect_indentation content start of
                None \<Rightarrow> None
              | Some indent \<Rightarrow>
                  (let le = detect_line_ending content
                   in case apply_indentation (normalized_or new_body le) indent le of
                        None \<Rightarrow> None
                      | Some indented \<Rightarrow>
                          Some (Ok \<lparr>pr_new_content = apply_splice content (splice_start, e) indented,
                                     pr_old_bytes = e - start, pr_inserted_bytes = length indented\<rparr>))))"

definition already_has_blank :: "bytes \<Rightarrow> line_ending \<Rightarrow> bool" where
  "already_has_blank above_bs le =
     (let n = length above_bs
      in case le of
           CrLf \<Rightarrow> n \<ge> 4 \<and> above_bs ! (n - 2) = CR \<and> above_bs ! (n - 1) = LF
                  \<and> above_bs ! (n - 4) = CR \<and> above_bs ! (n - 3) = LF
         | Lf \<Rightarrow> n \<ge> 2 \<and> above_bs ! (n - 1) = LF \<and> above_bs ! (n - 2) = LF)"

definition build_insert_before_at_position ::
  "bytes \<Rightarrow> symbol_record \<Rightarrow> bytes \<Rightarrow> line_ending \<Rightarrow> nat \<Rightarrow> bytes \<Rightarrow> bytes option" where
  "build_insert_before_at_position content symb new_code le ls indent =
     (case apply_indentation (normalized_or new_code le) indent le of
        None \<Rightarrow> None
      | Some indented \<Rightarrow>
          if doc_byte_range symb \<noteq> None
          then Some (apply_splice content (ls, ls) (indented @ ending_bytes le))
          else if ls > length content then None
          else let separator = (if already_has_blank (take ls content) le then ending_bytes le
                                else ending_bytes le @ ending_bytes le)
               in Some (apply_splice content (ls, ls) (indented @ separator)))"

definition insert_before_position ::
  "(bytes \<Rightarrow> symbol_record \<Rightarrow> (string, nat) result) \<Rightarrow> bytes \<Rightarrow> symbol_record \<Rightarrow> bool \<Rightarrow> (string, nat) result" where
  "insert_before_position rust_insertion_prefix_start content symb is_rust =
     (case (if is_rust
            then if \<not> valid_utf8 content
                 then Err ''Cannot determine Rust insertion boundary: source is not UTF-8''
                 else rust_insertion_prefix_start content symb
            else Ok (effective_start symb)) of
        Err e \<Rightarrow> Err e
      | Ok sym_start \<Rightarrow>
          if sym_start > length content
          then Err ''Cannot determine insertion boundary: span is out of bounds''
          else let pre = take sym_start content;
                   ls = line_start pre
               in if is_rust \<and> \<not> list_all is_ascii_whitespace (drop ls pre)
                  then Err ''Cannot insert before a Rust item sharing its line with preceding code''
                  else Ok (as_u32 ls))"

definition build_insert_after :: "bytes \<Rightarrow> symbol_record \<Rightarrow> bytes \<Rightarrow> line_ending \<Rightarrow> bytes option" where
  "build_insert_after content symb new_code le =
     (case detect_indentation content (fst (byte_range symb)) of
        None \<Rightarrow> None
      | Some indent \<Rightarrow>
          (case apply_indentation (normalized_or new_code le) indent le of
             None \<Rightarrow> None
           | Some indented \<Rightarrow>
               (let insert_pos = insert_after_position content symb
                in Some (apply_splice content (insert_pos, insert_pos)
                           (ending_bytes le @ ending_bytes le @ indented)))))"

definition delete_source_range :: "bytes \<Rightarrow> symbol_record \<Rightarrow> line_ending \<Rightarrow> (nat \<times> nat) option" where
  "delete_source_range content symb le =
     (let s = effective_start symb
      in if s > length content then None
         else case extend_past_leading_attributes content (line_start (take s content)) of
                None \<Rightarrow> None
              | Some after_attrs \<Rightarrow>
                  (case extend_past_orphaned_docs content after_attrs symb of
                     None \<Rightarrow> None
                   | Some start \<Rightarrow> Some (as_u32 start, as_u32 (delete_end content (snd (byte_range symb)) le))))"

definition build_delete :: "bytes \<Rightarrow> symbol_record \<Rightarrow> line_ending \<Rightarrow> bytes option" where
  "build_delete content symb le =
     map_option (\<lambda>rng. collapse_blank_lines (apply_splice content rng []) le) (delete_source_range content symb le)"

definition delete_cleanup_ranges :: "bytes \<Rightarrow> symbol_record \<Rightarrow> line_ending \<Rightarrow> (nat \<times> nat) list option" where
  "delete_cleanup_ranges content symb le =
     map_option (\<lambda>rng. cleanup_ranges content rng le) (delete_source_range content symb le)"

definition build_insert_before ::
  "(bytes \<Rightarrow> symbol_record \<Rightarrow> (string, nat) result) \<Rightarrow> bytes \<Rightarrow> symbol_record \<Rightarrow> bytes \<Rightarrow> line_ending \<Rightarrow> bool
   \<Rightarrow> (string, bytes) result option" where
  "build_insert_before rust_insertion_prefix_start content symb new_code le is_rust =
     (case insert_before_position rust_insertion_prefix_start content symb is_rust of
        Err e \<Rightarrow> Some (Err e)
      | Ok p \<Rightarrow>
          (case detect_indentation content (fst (byte_range symb)) of
             None \<Rightarrow> None
           | Some indent \<Rightarrow> map_option Ok (build_insert_before_at_position content symb new_code le p indent)))"

section \<open>Edits inside a symbol\<close>

text \<open>
  Non-overlapping matches from the left, as \<open>match_indices\<close> finds them; an empty needle matches at
  every character boundary. \<open>replace\<close> and \<open>replacen\<close> rebuild the text from these positions.
\<close>

fun match_from :: "bytes \<Rightarrow> bytes \<Rightarrow> nat \<Rightarrow> nat \<Rightarrow> nat list" where
  "match_from n [] pos skip = []"
| "match_from n (b # r) pos skip =
     (if skip > 0 then match_from n r (pos + 1) (skip - 1)
      else if starts_with (b # r) n then pos # match_from n r (pos + 1) (length n - 1)
      else match_from n r (pos + 1) 0)"

definition match_indices :: "bytes \<Rightarrow> bytes \<Rightarrow> nat list" where
  "match_indices s n =
     (if n = [] then filter (is_char_boundary s) [0..<Suc (length s)] else match_from n s 0 0)"

fun rebuild :: "bytes \<Rightarrow> nat \<Rightarrow> bytes \<Rightarrow> nat \<Rightarrow> nat list \<Rightarrow> bytes" where
  "rebuild s nlen r lst [] = drop lst s"
| "rebuild s nlen r lst (p # ps) = take (p - lst) (drop lst s) @ r @ rebuild s nlen r (p + nlen) ps"

definition str_replace :: "bytes \<Rightarrow> bytes \<Rightarrow> bytes \<Rightarrow> bytes" where
  "str_replace s n r = rebuild s (length n) r 0 (match_indices s n)"

definition str_replacen :: "bytes \<Rightarrow> bytes \<Rightarrow> bytes \<Rightarrow> nat \<Rightarrow> bytes" where
  "str_replacen s n r k = rebuild s (length n) r 0 (take k (match_indices s n))"

definition symbol_body :: "bytes \<Rightarrow> symbol_record \<Rightarrow> bytes option" where
  "symbol_body content symb =
     (let s = effective_start symb; e = snd (byte_range symb)
      in if s > e \<or> e > length content then None else Some (drop s (take e content)))"

datatype within_error =
    BodyNotUtf8
  | TextNotUtf8
  | TextNotFound

definition build_edit_within ::
  "bytes \<Rightarrow> symbol_record \<Rightarrow> bytes \<Rightarrow> bytes \<Rightarrow> bool \<Rightarrow> (within_error, bytes \<times> nat) result option" where
  "build_edit_within content symb old_text new_text replace_all =
     (case symbol_body content symb of
        None \<Rightarrow> None
      | Some body \<Rightarrow>
          if \<not> valid_utf8 body then Some (Err BodyNotUtf8)
          else let le = detect_line_ending content;
                   needle = normalize_line_endings old_text le;
                   replacement = normalize_line_endings new_text le
               in if \<not> valid_utf8 needle \<or> \<not> valid_utf8 replacement then Some (Err TextNotUtf8)
                  else let count = length (match_indices body needle);
                           rng = (effective_start symb, snd (byte_range symb))
                       in if count = 0 then Some (Err TextNotFound)
                          else if replace_all
                          then Some (Ok (apply_splice content rng (str_replace body needle replacement), count))
                          else Some (Ok (apply_splice content rng (str_replacen body needle replacement 1), 1)))"

fun indent_of_first_nonempty :: "bytes list \<Rightarrow> bytes" where
  "indent_of_first_nonempty [] = []"
| "indent_of_first_nonempty (l # ls) =
     (if trim_start l \<noteq> [] then leading_whitespace l else indent_of_first_nonempty ls)"

definition reindent_line :: "bytes \<Rightarrow> bytes \<Rightarrow> bytes \<Rightarrow> bytes option" where
  "reindent_line line old_base file_base =
     (if is_blank line then Some []
      else case strip_prefix old_base line of
             Some rest \<Rightarrow> Some (file_base @ rest)
           | None \<Rightarrow>
               (let line_indent = length line - length (trim_start line);
                    old_indent = length old_base
                in if line_indent < old_indent
                   then let deficit = old_indent - line_indent
                        in if length file_base > deficit
                           then if is_char_boundary file_base (length file_base - deficit)
                                then Some (take (length file_base - deficit) file_base @ trim_start line)
                                else None
                           else Some (trim_start line)
                   else if is_char_boundary line old_indent
                        then Some (file_base @ drop old_indent (take line_indent line) @ trim_start line)
                        else None))"

fun window_hit :: "bytes list \<Rightarrow> bytes list \<Rightarrow> nat \<Rightarrow> bool option" where
  "window_hit body_lines [] start = Some True"
| "window_hit body_lines (ot # ots) start =
     (if start \<ge> length body_lines then None
      else if trim_start (body_lines ! start) = ot then window_hit body_lines ots (Suc start)
      else Some False)"

fun find_windows :: "bytes list \<Rightarrow> bytes list \<Rightarrow> bool \<Rightarrow> nat list \<Rightarrow> nat list option" where
  "find_windows body_lines old_trimmed replace_all [] = Some []"
| "find_windows body_lines old_trimmed replace_all (start # starts) =
     (case window_hit body_lines old_trimmed start of
        None \<Rightarrow> None
      | Some False \<Rightarrow> find_windows body_lines old_trimmed replace_all starts
      | Some True \<Rightarrow>
          if replace_all
          then map_option (\<lambda>ms. start # ms) (find_windows body_lines old_trimmed replace_all starts)
          else Some [start])"

definition line_starts :: "bytes \<Rightarrow> nat list" where
  "line_starts body = 0 # map (\<lambda>i. i + 1) (filter (\<lambda>i. body ! i = LF) [0..<length body])"

fun traverse :: "('a \<Rightarrow> 'b option) \<Rightarrow> 'a list \<Rightarrow> 'b list option" where
  "traverse f [] = Some []"
| "traverse f (x # xs) =
     (case f x of None \<Rightarrow> None | Some y \<Rightarrow> map_option (\<lambda>ys. y # ys) (traverse f xs))"

fun join_lf :: "bytes list \<Rightarrow> bytes" where
  "join_lf [] = []"
| "join_lf [l] = l"
| "join_lf (l # ls) = l @ LF # join_lf ls"

definition replace_range :: "bytes \<Rightarrow> nat \<Rightarrow> nat \<Rightarrow> bytes \<Rightarrow> bytes option" where
  "replace_range s a b r =
     (if a \<le> b \<and> b \<le> length s \<and> is_char_boundary s a \<and> is_char_boundary s b
      then Some (take a s @ r @ drop b s) else None)"

fun replace_windows ::
  "bytes \<Rightarrow> bytes list \<Rightarrow> bytes list \<Rightarrow> bytes \<Rightarrow> nat \<Rightarrow> nat list \<Rightarrow> bytes \<Rightarrow> bytes option" where
  "replace_windows body body_lines old_lines new_text window [] result = Some result"
| "replace_windows body body_lines old_lines new_text window (m # ms) result =
     (let starts = line_starts body;
          byte_start = starts ! m;
          byte_end = (if m + window < length starts then starts ! (m + window) else length body);
          old_base = indent_of_first_nonempty old_lines;
          file_base = indent_of_first_nonempty (take window (drop m body_lines))
      in case traverse (\<lambda>l. reindent_line l old_base file_base) (str_lines new_text) of
           None \<Rightarrow> None
         | Some reindented \<Rightarrow>
             (let replacement = join_lf reindented;
                  replacement =
                    (if byte_end > byte_start \<and> byte_end - 1 < length result \<and> result ! (byte_end - 1) = LF
                        \<and> \<not> (replacement \<noteq> [] \<and> last replacement = LF)
                     then replacement @ [LF] else replacement)
              in case replace_range result byte_start byte_end replacement of
                   None \<Rightarrow> None
                 | Some result \<Rightarrow> replace_windows body body_lines old_lines new_text window ms result))"

definition try_whitespace_flexible_replace ::
  "bytes \<Rightarrow> bytes \<Rightarrow> bytes \<Rightarrow> bool \<Rightarrow> (bytes \<times> nat) option option" where
  "try_whitespace_flexible_replace body old_text new_text replace_all =
     (let body_lines = str_lines body;
          old_lines = str_lines old_text
      in if old_lines = [] \<or> list_all is_blank old_lines then Some None
         else let old_trimmed = map trim_start old_lines;
                  window = length old_trimmed
              in case find_windows body_lines old_trimmed replace_all
                        [0..<Suc (length body_lines - window)] of
                   None \<Rightarrow> None
                 | Some [] \<Rightarrow> Some None
                 | Some ms \<Rightarrow>
                     map_option (\<lambda>r. Some (r, length ms))
                       (replace_windows body body_lines old_lines new_text window (rev ms) body))"

record within_selection =
  ws_new_body :: bytes
  ws_count :: nat
  ws_untargeted_extra :: nat

datatype within_selection_error =
    InvalidSpan
  | InvalidUtf8
  | ConflictingTargeting
  | OccurrenceOutOfRange nat nat
  | NotFoundWithin

definition line_of :: "bytes \<Rightarrow> nat \<Rightarrow> nat \<Rightarrow> int" where
  "line_of content sym_start pos = 1 + int (length (filter (\<lambda>b. b = LF) (take (sym_start + pos) content)))"

fun min_by_key :: "(nat \<Rightarrow> int) \<Rightarrow> nat list \<Rightarrow> nat option" where
  "min_by_key f [] = None"
| "min_by_key f (x # xs) =
     (case min_by_key f xs of None \<Rightarrow> Some x | Some y \<Rightarrow> if f y < f x then Some y else Some x)"

definition flexible_or_not_found ::
  "bytes \<Rightarrow> bytes \<Rightarrow> bytes \<Rightarrow> bool \<Rightarrow> (within_selection_error, within_selection) result option" where
  "flexible_or_not_found body old_text new_text replace_all =
     (case try_whitespace_flexible_replace body old_text new_text replace_all of
        None \<Rightarrow> None
      | Some None \<Rightarrow> Some (Err NotFoundWithin)
      | Some (Some (b, c)) \<Rightarrow> Some (Ok \<lparr>ws_new_body = b, ws_count = c, ws_untargeted_extra = 0\<rparr>))"

definition replace_at :: "bytes \<Rightarrow> nat \<Rightarrow> nat \<Rightarrow> bytes \<Rightarrow> bytes" where
  "replace_at body pos olen new_text = take pos body @ new_text @ drop (pos + olen) body"

definition select_edit_within_body ::
  "bytes \<Rightarrow> symbol_record \<Rightarrow> bytes \<Rightarrow> bytes \<Rightarrow> bool \<Rightarrow> nat option \<Rightarrow> nat option
   \<Rightarrow> (within_selection_error, within_selection) result option" where
  "select_edit_within_body content symb old_text new_text replace_all occurrence near_line =
     (case symbol_body content symb of
        None \<Rightarrow> Some (Err InvalidSpan)
      | Some body \<Rightarrow>
          if \<not> valid_utf8 body then Some (Err InvalidUtf8)
          else let le = detect_line_ending content;
                   old_n = normalized_or old_text le;
                   new_n = normalized_or new_text le;
                   modes = of_bool replace_all + of_bool (occurrence \<noteq> None) + of_bool (near_line \<noteq> None) :: nat;
                   positions = match_indices body old_n
               in if modes > 1 then Some (Err ConflictingTargeting)
                  else if replace_all
                  then if length positions > 0
                       then Some (Ok \<lparr>ws_new_body = str_replace body old_n new_n, ws_count = length positions,
                                       ws_untargeted_extra = 0\<rparr>)
                       else flexible_or_not_found body old_n new_n True
                  else if occurrence \<noteq> None \<or> near_line \<noteq> None
                  then if positions = [] then Some (Err NotFoundWithin)
                       else (case occurrence of
                               Some n \<Rightarrow>
                                 if n = 0 \<or> n > length positions
                                 then Some (Err (OccurrenceOutOfRange n (length positions)))
                                 else Some (Ok \<lparr>ws_new_body = replace_at body (positions ! (n - 1)) (length old_n) new_n,
                                                 ws_count = 1, ws_untargeted_extra = 0\<rparr>)
                             | None \<Rightarrow>
                                 (let tgt = int (case near_line of Some l \<Rightarrow> l | None \<Rightarrow> 1);
                                      i = (case min_by_key
                                                 (\<lambda>i. abs (line_of content (effective_start symb) (positions ! i) - tgt))
                                                 [0..<length positions] of
                                             Some i \<Rightarrow> i | None \<Rightarrow> 0)
                                  in Some (Ok \<lparr>ws_new_body = replace_at body (positions ! i) (length old_n) new_n,
                                                ws_count = 1, ws_untargeted_extra = 0\<rparr>)))
                  else if positions \<noteq> []
                  then Some (Ok \<lparr>ws_new_body = str_replacen body old_n new_n 1, ws_count = 1,
                                  ws_untargeted_extra = length positions - 1\<rparr>)
                  else flexible_or_not_found body old_n new_n False)"

section \<open>Bounds of the text helpers\<close>

lemma length_trim_start: "length (trim_start s) \<le> length s"
proof (induction s rule: trim_start.induct)
  case (1 s)
  then show ?case by (subst trim_start.simps) auto
qed

lemma split_lf_not_Nil [simp]: "split_lf s \<noteq> []"
  by (induction s) (auto split: list.split)

lemma sum_split_lf: "sum_list (map (\<lambda>l. length l + 1) (split_lf s)) = length s + 1"
proof (induction s)
  case (Cons b s)
  then show ?case by (cases "split_lf s") (auto split: list.split)
qed simp

lemma sum_take_split_lf:
  assumes "i < length (split_lf s)"
  shows "sum_list (map (\<lambda>l. length l + 1) (take i (split_lf s))) \<le> length s"
proof -
  let ?f = "\<lambda>l :: bytes. length l + 1"
  have "sum_list (map ?f (split_lf s)) =
      sum_list (map ?f (take i (split_lf s))) + sum_list (map ?f (drop i (split_lf s)))"
    by (metis append_take_drop_id map_append sum_list_append)
  moreover have "drop i (split_lf s) \<noteq> []" using assms by simp
  then have "1 \<le> sum_list (map ?f (drop i (split_lf s)))" by (cases "drop i (split_lf s)") auto
  ultimately show ?thesis using sum_split_lf [of s] by linarith
qed

lemma scan_comments_le: "scan_comments ls k found = (f, i) \<Longrightarrow> i \<le> k"
  by (induction ls k found rule: scan_comments.induct) (auto split: if_splits)

lemma extend_past_orphaned_docs_le:
  assumes "ls \<le> length content"
  shows "\<exists>x \<le> ls. extend_past_orphaned_docs content ls symb = Some x"
proof -
  let ?lns = "split_lf (take ls content)"
  define i where "i = (if length ?lns > 0 \<and> ?lns ! (length ?lns - 1) = [] then length ?lns - 1 else length ?lns)"
  obtain f j where fj: "scan_comments ?lns (i - 1) False = (f, j)" by force
  have "0 < length ?lns" by simp
  moreover have "i \<le> length ?lns" by (simp add: i_def)
  ultimately have "j < length ?lns" if "i > 0"
    using scan_comments_le [OF fj] that by linarith
  then have "i > 0 \<Longrightarrow> sum_list (map (\<lambda>l. length l + 1) (take j ?lns)) \<le> ls"
    using sum_take_split_lf [of j "take ls content"] assms by simp
  then show ?thesis
    using assms fj by (auto simp: extend_past_orphaned_docs_def Let_def i_def)
qed

lemma extend_past_leading_attributes_le:
  "start \<le> length content \<Longrightarrow> \<exists>x \<le> start. extend_past_leading_attributes content start = Some x"
proof (induction content start rule: extend_past_leading_attributes.induct)
  case (1 content start)
  let ?p = "line_start (take (start - 1) content)"
  have p: "?p \<le> start - 1" using line_start_le [of "take (start - 1) content"] "1.prems" by simp
  show ?case
  proof (cases "start = 0")
    case False
    show ?thesis
    proof (cases "starts_with (trim_start (if valid_utf8 (drop ?p (take (start - 1) content))
        then drop ?p (take (start - 1) content) else [])) (ascii ''#['')")
      case True
      then have "\<exists>x \<le> ?p. extend_past_leading_attributes content ?p = Some x"
        using 1 False p by (intro "1.IH") auto
      then show ?thesis
        using True False p "1.prems" by (subst extend_past_leading_attributes.simps) (auto simp: Let_def)
    next
      case no: False
      then show ?thesis
        using False "1.prems" by (subst extend_past_leading_attributes.simps) (auto simp: Let_def)
    qed
  qed (simp add: extend_past_leading_attributes.simps)
qed

lemma starts_with_length: "starts_with s p \<Longrightarrow> length p \<le> length s"
  unfolding starts_with_def by (metis length_take min.cobounded1)

lemma find_sub_le: "find_sub n s = Some p \<Longrightarrow> p + length n \<le> length s"
  by (induction n s arbitrary: p rule: find_sub.induct)
    (auto split: if_splits dest: starts_with_length)

lemma past_marker_le: "past_marker t c = Some p \<Longrightarrow> p \<le> length t"
  using length_trim_start [of "drop _ t"]
  by (auto simp: past_marker_def Let_def dest: find_sub_le split: option.splits)

lemma same_line_doc_prefix_end_le: "same_line_doc_prefix_end t = Some e \<Longrightarrow> e \<le> length t"
  using length_trim_start [of t] past_marker_le
  by (fastforce simp: same_line_doc_prefix_end_def Let_def split: if_splits)

lemma docless_le:
  assumes "raw \<le> start"
  shows "docless_replacement_splice_start content raw start \<le> start"
  using assms same_line_doc_prefix_end_le
  by (fastforce simp: docless_replacement_splice_start_def split: option.split)

lemma line_start_take_le: "n \<le> length xs \<Longrightarrow> line_start (take n xs) \<le> n"
  using line_start_le [of "take n xs"] by simp

lemma delete_end_bounds:
  assumes "e \<le> length content"
  shows "e \<le> delete_end content e le \<and> delete_end content e le \<le> length content"
proof -
  have "length (takeWhile (\<lambda>b. b \<noteq> LF) (drop e content)) \<le> length content - e"
    using length_takeWhile_le [of "\<lambda>b. b \<noteq> LF" "drop e content"] by simp
  then show ?thesis using assms by (cases le) (auto simp: delete_end_def Let_def)
qed

definition symbol_in :: "symbol_record \<Rightarrow> bytes \<Rightarrow> bool" where
  "symbol_in symb content \<longleftrightarrow> effective_start symb \<le> fst (byte_range symb) \<and>
     fst (byte_range symb) \<le> snd (byte_range symb) \<and> snd (byte_range symb) \<le> length content \<and> length content < 2 ^ 32"

lemma delete_source_range_bounds:
  assumes "symbol_in symb content"
  shows "\<exists>s e. delete_source_range content symb le = Some (s, e) \<and>
    s \<le> effective_start symb \<and> snd (byte_range symb) \<le> e \<and> e \<le> length content"
proof -
  let ?n = "effective_start symb"
  have n: "?n \<le> length content" and e: "snd (byte_range symb) \<le> length content" and small: "length content < 2 ^ 32"
    using assms by (auto simp: symbol_in_def)
  note ls = line_start_take_le [OF n]
  obtain a where a: "a \<le> line_start (take ?n content)"
    "extend_past_leading_attributes content (line_start (take ?n content)) = Some a"
    using extend_past_leading_attributes_le [of "line_start (take ?n content)" content] ls n by auto
  obtain s where s: "s \<le> a" "extend_past_orphaned_docs content a symb = Some s"
    using extend_past_orphaned_docs_le [of a content symb] a ls n by auto
  have "as_u32 s = s" using s a ls n small by simp
  moreover note delete_end_bounds [OF e, of le]
  ultimately show ?thesis
    using a s n ls small by (simp add: delete_source_range_def)
qed

lemma replacement_splice_range_total:
  "\<exists>r. replacement_splice_range content symb new_body = Some r \<and>
     (\<forall>s e. r = Ok (s, e) \<longrightarrow> length content < 2 ^ 32 \<longrightarrow>
        s \<le> fst (byte_range symb) \<and> e = snd (byte_range symb) \<and> symbol_in symb content)"
proof -
  obtain start e where be: "byte_range symb = (start, e)" by force
  show ?thesis
  proof (cases "start > e \<or> e > length content \<or> effective_start symb > start")
    case True
    then show ?thesis by (simp add: replacement_splice_range_def be)
  next
    case False
    let ?docs = "body_starts_with_doc_comment new_body"
    define eff where "eff = (if ?docs then effective_start symb else start)"
    have eff: "eff \<le> start" "eff \<le> length content" using False by (auto simp: eff_def)
    note ls = line_start_take_le [OF eff(2)]
    obtain x where x: "x \<le> line_start (take eff content)"
      "extend_past_orphaned_docs content (line_start (take eff content)) symb = Some x"
      using extend_past_orphaned_docs_le [of "line_start (take eff content)" content symb] ls eff by auto
    have d: "docless_replacement_splice_start content (line_start (take eff content)) start \<le> start"
      using ls eff by (intro docless_le) simp
    have in': "symbol_in symb content" if "length content < 2 ^ 32" using False that by (auto simp: symbol_in_def be)
    have u: "as_u32 k \<le> k" for k by (simp add: as_u32_def)
    have "as_u32 x \<le> start" using u [of x] x(1) ls eff(1) by linarith
    moreover have "as_u32 (docless_replacement_splice_start content (line_start (take eff content)) start) \<le> start"
      using u d le_trans by blast
    ultimately show ?thesis
      using False x(2) in'
      unfolding replacement_splice_range_def be Let_def prod.case eff_def [symmetric]
      by (cases ?docs) simp_all
  qed
qed

section \<open>Matches\<close>

lemma match_from_sound:
  "p \<in> set (match_from n s pos skip) \<Longrightarrow> pos \<le> p \<and> starts_with (drop (p - pos) s) n"
proof (induction n s pos skip rule: match_from.induct)
  case (2 n b r pos skip)
  have later: "pos \<le> p \<and> starts_with (drop (p - pos) (b # r)) n"
    if "pos + 1 \<le> p \<and> starts_with (drop (p - (pos + 1)) r) n"
  proof -
    have "pos < p" using that by simp
    then have "p - pos = Suc (p - (pos + 1))" by simp
    then show ?thesis using that by simp
  qed
  show ?case
  proof (cases "skip > 0")
    case True
    then show ?thesis using 2 later by simp
  next
    case False
    then show ?thesis
      using 2 later by (cases "starts_with (b # r) n"; cases "p = pos") auto
  qed
qed simp

lemma match_indices_sound:
  assumes "p \<in> set (match_indices s n)"
  shows "take (length n) (drop p s) = n" and "p + length n \<le> length s"
proof -
  have "starts_with (drop p s) n \<and> p + length n \<le> length s"
  proof (cases "n = []")
    case True
    then show ?thesis using assms by (auto simp: match_indices_def starts_with_def is_char_boundary_def)
  next
    case False
    then have st: "starts_with (drop p s) n"
      using assms match_from_sound [of p n s 0 0] by (simp add: match_indices_def)
    then have "length n \<le> length s - p" using starts_with_length by fastforce
    moreover have "0 < length n" using False by simp
    ultimately show ?thesis using st by linarith
  qed
  then show "take (length n) (drop p s) = n" and "p + length n \<le> length s" by (auto simp: starts_with_def)
qed

lemma min_by_key_in: "xs \<noteq> [] \<Longrightarrow> \<exists>y \<in> set xs. min_by_key f xs = Some y \<and> (\<forall>x \<in> set xs. f y \<le> f x)"
proof (induction xs)
  case (Cons x xs)
  show ?case
  proof (cases "xs = []")
    case False
    then obtain y where "y \<in> set xs" "min_by_key f xs = Some y" "\<forall>x \<in> set xs. f y \<le> f x" using Cons.IH by blast
    then show ?thesis by (cases "f y < f x") force+
  qed simp
qed simp

section \<open>Properties\<close>

text \<open>
  C37: computing the range a replacement consumes never panics, for any symbol record however stale:
  it is refused when its span does not fit the file, and otherwise the range starts at or before the
  symbol, ends where the symbol ends, and lies inside the file.
\<close>

theorem replacement_splice_range_safe:
  "\<exists>r. replacement_splice_range content symb new_body = Some r \<and>
     (\<forall>s e. r = Ok (s, e) \<longrightarrow> length content < 2 ^ 32 \<longrightarrow>
        s \<le> fst (byte_range symb) \<and> e = snd (byte_range symb) \<and> symbol_in symb content)"
  by (rule replacement_splice_range_total)

theorem replacement_splice_range_safe_witness:
  "symbol_in \<lparr>byte_range = (1, 3), doc_byte_range = None, item_byte_range = None\<rparr> [9, 65, 66]"
proof -
  let ?sy = "\<lparr>byte_range = (1, 3), doc_byte_range = None, item_byte_range = None\<rparr>"
  have "replacement_splice_range [9, 65, 66] ?sy [67] = Some (Ok (0, 3))" by code_simp
  then show ?thesis using replacement_splice_range_safe [of "[9, 65, 66]" ?sy "[67]"] by simp
qed

text \<open>
  A replacement changes only the bytes of the range it reported: everything before the range
  and everything after the symbol is kept, and the reported sizes are the real ones.
\<close>

lemma prepare_replace_local:
  assumes "prepare_replace content symb new_body = Some (Ok p)" and "length content < 2 ^ 32"
  shows "\<exists>s inserted. replacement_splice_range content symb new_body = Some (Ok (s, snd (byte_range symb))) \<and>
    s \<le> fst (byte_range symb) \<and>
    pr_new_content p = take s content @ inserted @ drop (snd (byte_range symb)) content \<and>
    pr_inserted_bytes p = length inserted \<and> pr_old_bytes p = snd (byte_range symb) - fst (byte_range symb)"
proof -
  obtain r where r: "replacement_splice_range content symb new_body = Some r"
    "\<And>s e. r = Ok (s, e) \<Longrightarrow> s \<le> fst (byte_range symb) \<and> e = snd (byte_range symb) \<and> symbol_in symb content"
    using replacement_splice_range_total assms(2) by blast
  obtain s e ins where se: "r = Ok (s, e)"
    and p: "pr_new_content p = apply_splice content (s, snd (byte_range symb)) ins"
      "pr_inserted_bytes p = length ins" "pr_old_bytes p = snd (byte_range symb) - fst (byte_range symb)"
    using assms(1) r(1)
    by (auto simp: prepare_replace_def Let_def split: sum.splits option.splits prod.splits)
  note b = r(2) [OF se]
  have "s \<le> snd (byte_range symb)" "snd (byte_range symb) \<le> length content" using b by (auto simp: symbol_in_def)
  then show ?thesis using b p r(1) se by (intro exI [of _ s] exI [of _ ins]) (simp add: apply_splice_valid)
qed

theorem prepare_replace_local_witness:
  "\<exists>s inserted. s \<le> 1 \<and> pr_new_content \<lparr>pr_new_content = [9, 67], pr_old_bytes = 2, pr_inserted_bytes = 2\<rparr>
     = take s [9, 65, 66] @ inserted @ drop 3 [9, 65, 66]"
proof -
  let ?sy = "\<lparr>byte_range = (1, 3), doc_byte_range = None, item_byte_range = None\<rparr>"
  have "prepare_replace [9, 65, 66] ?sy [67] = Some (Ok \<lparr>pr_new_content = [9, 67], pr_old_bytes = 2, pr_inserted_bytes = 2\<rparr>)"
    by code_simp
  from prepare_replace_local [OF this] show ?thesis by auto
qed

text \<open>
  Deleting a symbol that lies inside the file never panics. It removes a range that contains
  the symbol with its docs, and beyond it exactly the cleanup ranges that
  \<open>delete_cleanup_ranges\<close> announces.
\<close>

lemma build_delete_exact:
  assumes "symbol_in symb content"
  shows "\<exists>s e cleanup. delete_source_range content symb le = Some (s, e) \<and>
    delete_cleanup_ranges content symb le = Some cleanup \<and>
    s \<le> effective_start symb \<and> snd (byte_range symb) \<le> e \<and>
    build_delete content symb le = Some (nths content {p. \<not> (s \<le> p \<and> p < e) \<and> \<not> covered cleanup p})"
proof -
  obtain s e where d: "delete_source_range content symb le = Some (s, e)"
    "s \<le> effective_start symb" "snd (byte_range symb) \<le> e" "e \<le> length content"
    using delete_source_range_bounds [OF assms] by blast
  have "s \<le> e" "length content < 2 ^ 32" using d(2,3) assms by (auto simp: symbol_in_def)
  then show ?thesis
    using d by (intro exI [of _ s] exI [of _ e] exI [of _ "cleanup_ranges content (s, e) le"])
      (simp add: build_delete_def delete_cleanup_ranges_def delete_positions)
qed

theorem build_delete_exact_witness:
  "\<exists>s e cleanup. s \<le> 3 \<and> 4 \<le> e \<and>
    build_delete [7, 10, 32, 8, 10, 9] \<lparr>byte_range = (3, 4), doc_byte_range = None, item_byte_range = None\<rparr> Lf =
      Some (nths [7, 10, 32, 8, 10, 9] {p. \<not> (s \<le> p \<and> p < e) \<and> \<not> covered cleanup p})"
  using build_delete_exact
    [of "\<lparr>byte_range = (3, 4), doc_byte_range = None, item_byte_range = None\<rparr>" "[7, 10, 32, 8, 10, 9]" Lf]
  by (auto simp: symbol_in_def effective_start_def)

text \<open>
  An edit targeted at the n-th occurrence replaces exactly that occurrence of the needle, or is
  refused with the number of occurrences there are; an edit targeted at a line replaces an
  occurrence whose line distance to the target is minimal.
\<close>

lemma select_edit_within_targeted:
  assumes "symbol_body content symb = Some body" and "valid_utf8 body"
    and "old_n = normalized_or old_text (detect_line_ending content)"
    and "new_n = normalized_or new_text (detect_line_ending content)"
    and "match_indices body old_n \<noteq> []"
  shows "select_edit_within_body content symb old_text new_text False (Some n) None =
      (if 1 \<le> n \<and> n \<le> length (match_indices body old_n)
       then Some (Ok \<lparr>ws_new_body = replace_at body (match_indices body old_n ! (n - 1)) (length old_n) new_n,
                       ws_count = 1, ws_untargeted_extra = 0\<rparr>)
       else Some (Err (OccurrenceOutOfRange n (length (match_indices body old_n))))) \<and>
    (\<exists>pos \<in> set (match_indices body old_n).
       select_edit_within_body content symb old_text new_text False None (Some l) =
         Some (Ok \<lparr>ws_new_body = replace_at body pos (length old_n) new_n, ws_count = 1, ws_untargeted_extra = 0\<rparr>) \<and>
       (\<forall>q \<in> set (match_indices body old_n).
          abs (line_of content (effective_start symb) pos - int l) \<le> abs (line_of content (effective_start symb) q - int l))) \<and>
    (\<forall>pos \<in> set (match_indices body old_n). take (length old_n) (drop pos body) = old_n)"
proof (intro conjI)
  let ?ps = "match_indices body old_n"
  let ?f = "\<lambda>i. abs (line_of content (effective_start symb) (?ps ! i) - int l)"
  show "select_edit_within_body content symb old_text new_text False (Some n) None =
      (if 1 \<le> n \<and> n \<le> length ?ps
       then Some (Ok \<lparr>ws_new_body = replace_at body (?ps ! (n - 1)) (length old_n) new_n, ws_count = 1, ws_untargeted_extra = 0\<rparr>)
       else Some (Err (OccurrenceOutOfRange n (length ?ps))))"
    using assms(1,2,5) by (auto simp: select_edit_within_body_def Let_def simp flip: assms(3,4))
  obtain i where i: "i < length ?ps" "min_by_key ?f [0..<length ?ps] = Some i" "\<forall>j < length ?ps. ?f i \<le> ?f j"
    using min_by_key_in [of "[0..<length ?ps]" ?f] assms(5) by auto
  have "select_edit_within_body content symb old_text new_text False None (Some l) =
         Some (Ok \<lparr>ws_new_body = replace_at body (?ps ! i) (length old_n) new_n, ws_count = 1, ws_untargeted_extra = 0\<rparr>)"
    using assms(1,2,5) i(2) by (simp add: select_edit_within_body_def Let_def flip: assms(3,4))
  moreover have "\<forall>q \<in> set ?ps. ?f i \<le> abs (line_of content (effective_start symb) q - int l)"
    using i(3) by (auto simp: in_set_conv_nth)
  ultimately show "\<exists>pos \<in> set ?ps.
       select_edit_within_body content symb old_text new_text False None (Some l) =
         Some (Ok \<lparr>ws_new_body = replace_at body pos (length old_n) new_n, ws_count = 1, ws_untargeted_extra = 0\<rparr>) \<and>
       (\<forall>q \<in> set ?ps. abs (line_of content (effective_start symb) pos - int l) \<le> abs (line_of content (effective_start symb) q - int l))"
    using i(1) by (intro bexI [of _ "?ps ! i"]) auto
  show "\<forall>pos \<in> set ?ps. take (length old_n) (drop pos body) = old_n"
    using match_indices_sound(1) by blast
qed

theorem select_edit_within_targeted_witness:
  "select_edit_within_body [65, 66, 65] \<lparr>byte_range = (0, 3), doc_byte_range = None, item_byte_range = None\<rparr>
     [65] [67] False (Some 2) None = Some (Ok \<lparr>ws_new_body = [65, 66, 67], ws_count = 1, ws_untargeted_extra = 0\<rparr>)"
proof -
  let ?sy = "\<lparr>byte_range = (0, 3), doc_byte_range = None, item_byte_range = None\<rparr>"
  have 1: "symbol_body [65, 66, 65] ?sy = Some [65, 66, 65]" "valid_utf8 [65, 66, 65]"
    "[65] = normalized_or [65] (detect_line_ending [65, 66, 65])"
    "[67] = normalized_or [67] (detect_line_ending [65, 66, 65])"
    "match_indices [65, 66, 65] [65] \<noteq> []" by code_simp+
  have 2: "match_indices [65, 66, 65] [65] = [0, 2]" by code_simp
  show ?thesis
    using select_edit_within_targeted [OF 1, of 2] by (simp add: 2 replace_at_def)
qed

section \<open>Panics of the whitespace-flexible replacement\<close>

text \<open>
  A needle with more lines than the body, whose first lines match it, makes the window loop read
  past the last body line.
\<close>

theorem flexible_window_overrun_panics:
  "try_whitespace_flexible_replace (ascii ''f()'') (ascii ''f()'' @ [LF] @ ascii ''g()'') (ascii ''h()'') False = None"
  by code_simp

text \<open>
  With \<open>replace_all\<close> two matching windows may share lines. The byte range of the lower one is then
  taken in a text the upper one has already changed: here it ends past the end of the text.
\<close>

theorem flexible_overlapping_windows_panic:
  "try_whitespace_flexible_replace
     (ascii '' a'' @ [LF] @ ascii '' a'' @ [LF] @ ascii '' a'' @ [LF]) (ascii ''a'' @ [LF] @ ascii ''a'') [] True = None"
  by code_simp

text \<open>
  Two lines indented with different multi-byte spaces (U+2000 and U+2001) share two bytes of
  indentation, and the common prefix is cut inside a character.
\<close>

theorem common_indent_off_boundary_panics:
  "common_leading_whitespace [[0xE2, 0x80, 0x80, 0x78], [0xE2, 0x80, 0x81, 0x79]] = None"
  by code_simp

end
