(* ===== verification/Authority.thy ===== *)
theory Authority
  imports Prelude
begin

text \<open>
  Mutation authority of one source: \<open>src/index_lifecycle/authority.rs\<close>, with the identity counter of
  \<open>src/lifecycle_identity.rs\<close>.

  Identities are \<open>nat\<close>, drawn from the one counter \<open>w_next\<close> of the \<open>world\<close>; the counter of the source
  is 64 bits wide and does not come round in the life of a process. Clones of a binding share one
  liveness flag, so the flag is looked up by the binding's identity in \<open>w_revoked\<close>; leases share
  theirs by root identity in \<open>w_dead\<close>. Epochs and grant counts are \<open>nat\<close> for the same reason.
\<close>

section \<open>Identities, bindings, publications\<close>

type_synonym identity = nat

record world =
  w_next :: identity
  w_next_root :: identity
  w_revoked :: "identity list"
  w_dead :: "identity list"

definition fresh_identity :: "world \<Rightarrow> identity \<times> world" where
  "fresh_identity w = (w_next w, w\<lparr>w_next := w_next w + 1\<rparr>)"

record binding_authority =
  b_identity :: identity
  b_root :: identity

definition bind :: "identity \<Rightarrow> world \<Rightarrow> binding_authority \<times> world" where
  "bind root w = (let (i, w) = fresh_identity w in (\<lparr>b_identity = i, b_root = root\<rparr>, w))"

definition revoke_binding :: "binding_authority \<Rightarrow> world \<Rightarrow> world" where
  "revoke_binding b w = w\<lparr>w_revoked := List.insert (b_identity b) (w_revoked w)\<rparr>"

definition binding_is_live :: "world \<Rightarrow> binding_authority \<Rightarrow> bool" where
  "binding_is_live w b \<longleftrightarrow> b_identity b \<notin> set (w_revoked w)"

record candidate_authority =
  ca_identity :: identity
  ca_binding :: binding_authority
  ca_observer_cut :: identity

definition open_candidate :: "binding_authority \<Rightarrow> identity \<Rightarrow> world \<Rightarrow> candidate_authority \<times> world" where
  "open_candidate b ct w =
     (let (i, w) = fresh_identity w in (\<lparr>ca_identity = i, ca_binding = b, ca_observer_cut = ct\<rparr>, w))"

record mutation_authority =
  ma_generation :: identity
  ma_binding :: binding_authority
  ma_epoch :: nat
  ma_publication :: identity

record non_current_proof =
  np_publication :: identity
  np_epoch :: nat

record grant_authority =
  ga_authority :: mutation_authority
  ga_proof :: non_current_proof

record current_publication =
  cp_publication :: identity
  cp_generation :: identity
  cp_binding :: binding_authority
  cp_observer_cut :: identity

definition promote :: "binding_authority \<Rightarrow> identity \<Rightarrow> world \<Rightarrow> current_publication \<times> world" where
  "promote b ct w =
     (let (p, w) = fresh_identity w;
          (g, w) = fresh_identity w
      in (\<lparr>cp_publication = p, cp_generation = g, cp_binding = b, cp_observer_cut = ct\<rparr>, w))"

datatype grant_input =
    LiveCurrent identity
  | CandidateInput identity
  | SnapshotInput identity
  | RetainedGeneration identity
  | StalePublication identity

datatype provenance = PvLiveCurrent | PvCandidate | PvSnapshot | PvRetainedGeneration | PvStalePublication

fun provenance_of :: "grant_input \<Rightarrow> provenance" where
  "provenance_of (LiveCurrent _) = PvLiveCurrent"
| "provenance_of (CandidateInput _) = PvCandidate"
| "provenance_of (SnapshotInput _) = PvSnapshot"
| "provenance_of (RetainedGeneration _) = PvRetainedGeneration"
| "provenance_of (StalePublication _) = PvStalePublication"

section \<open>Phases\<close>

datatype phase_name = LoadingPhase | CurrentPhase | RefreshingPhase | BlockedPhase | StoppingPhase

datatype observer_phase =
    ObsAbsent
  | ObsActive identity
  | ObsDraining identity
  | ObsFree identity

fun observer_token :: "observer_phase \<Rightarrow> identity option" where
  "observer_token (ObsActive t) = Some t"
| "observer_token (ObsDraining t) = Some t"
| "observer_token ObsAbsent = None"
| "observer_token (ObsFree _) = None"

datatype non_current_work =
    Dirty
  | WaitingForCapacity
  | Building identity
  | Verifying identity
  | RetryWait nat

record active_permits =
  outstanding :: "identity list"
  ever_recorded :: bool

definition no_permits :: active_permits where
  "no_permits = \<lparr>outstanding = [], ever_recorded = False\<rparr>"

definition record_active :: "identity \<Rightarrow> active_permits \<Rightarrow> active_permits" where
  "record_active g ap =
     (let ap = ap\<lparr>ever_recorded := True\<rparr>
      in if g \<notin> set (outstanding ap) then ap\<lparr>outstanding := outstanding ap @ [g]\<rparr> else ap)"

definition retire_active :: "identity \<Rightarrow> active_permits \<Rightarrow> active_permits \<times> bool" where
  "retire_active g ap =
     (let kept = filter (\<lambda>e. e \<noteq> g) (outstanding ap)
      in (ap\<lparr>outstanding := kept\<rparr>, length kept \<noteq> length (outstanding ap)))"

definition is_drained :: "active_permits \<Rightarrow> bool" where
  "is_drained ap \<longleftrightarrow> outstanding ap = []"

datatype blocked_cause = VerificationFailed | ObserverUnavailable | CapacityRefused

definition revocation_residency :: "world \<Rightarrow> identity \<times> world" where
  "revocation_residency w = fresh_identity w"

datatype source_phase =
    Loading binding_authority observer_phase non_current_work
  | Current current_publication
  | Refreshing identity binding_authority identity observer_phase active_permits non_current_work
  | Blocked binding_authority observer_phase "identity option" blocked_cause
  | Stopping "identity option" "identity option"

fun phase_name_of :: "source_phase \<Rightarrow> phase_name" where
  "phase_name_of (Loading _ _ _) = LoadingPhase"
| "phase_name_of (Current _) = CurrentPhase"
| "phase_name_of (Refreshing _ _ _ _ _ _) = RefreshingPhase"
| "phase_name_of (Blocked _ _ _ _) = BlockedPhase"
| "phase_name_of (Stopping _ _) = StoppingPhase"

datatype authority_refusal =
    PhaseNotCurrent phase_name
  | ProvenanceNotLiveCurrent provenance
  | PublicationIdentityMismatch identity identity
  | PhysicalRootReplaced
  | PermitAlreadyTerminal
  | SideEffectAlreadyInFlight
  | WholeAuthorityMismatch
  | BindingRevoked identity
  | OutstandingPermit

section \<open>The source runtime\<close>

record source_runtime =
  rt_phase :: source_phase
  rt_epoch :: nat
  rt_grants :: nat

definition rt_loading :: "binding_authority \<Rightarrow> source_runtime" where
  "rt_loading b = \<lparr>rt_phase = Loading b ObsAbsent Dirty, rt_epoch = 0, rt_grants = 0\<rparr>"

definition rt_current :: "current_publication \<Rightarrow> source_runtime" where
  "rt_current p = \<lparr>rt_phase = Current p, rt_epoch = 0, rt_grants = 0\<rparr>"

definition rt_refreshing :: "binding_authority \<Rightarrow> identity \<Rightarrow> world \<Rightarrow> source_runtime \<times> world" where
  "rt_refreshing b retained w =
     (let (p, w) = fresh_identity w
      in (\<lparr>rt_phase = Refreshing retained b p ObsAbsent no_permits Dirty, rt_epoch = 0, rt_grants = 0\<rparr>, w))"

definition rt_blocked :: "binding_authority \<Rightarrow> identity option \<Rightarrow> source_runtime" where
  "rt_blocked b retained = \<lparr>rt_phase = Blocked b ObsAbsent retained VerificationFailed, rt_epoch = 0, rt_grants = 0\<rparr>"

definition rt_stopping :: "identity option \<Rightarrow> identity option \<Rightarrow> source_runtime" where
  "rt_stopping retained residency = \<lparr>rt_phase = Stopping retained residency, rt_epoch = 0, rt_grants = 0\<rparr>"

definition rt_observer_phase :: "source_runtime \<Rightarrow> observer_phase" where
  "rt_observer_phase rt = (case rt_phase rt of
     Current p \<Rightarrow> ObsActive (cp_observer_cut p)
   | Loading _ o' _ \<Rightarrow> o'
   | Refreshing _ _ _ o' _ _ \<Rightarrow> o'
   | Blocked _ o' _ _ \<Rightarrow> o'
   | Stopping _ _ \<Rightarrow> ObsAbsent)"

definition rt_work :: "source_runtime \<Rightarrow> non_current_work option" where
  "rt_work rt = (case rt_phase rt of
     Loading _ _ wk \<Rightarrow> Some wk
   | Refreshing _ _ _ _ _ wk \<Rightarrow> Some wk
   | _ \<Rightarrow> None)"

definition rt_active_permits :: "source_runtime \<Rightarrow> active_permits" where
  "rt_active_permits rt = (case rt_phase rt of Refreshing _ _ _ _ ap _ \<Rightarrow> ap | _ \<Rightarrow> no_permits)"

definition rt_committed_residency :: "source_runtime \<Rightarrow> identity option" where
  "rt_committed_residency rt = (case rt_phase rt of Stopping _ r \<Rightarrow> r | _ \<Rightarrow> None)"

definition retained_generation :: "source_runtime \<Rightarrow> identity option" where
  "retained_generation rt = (case rt_phase rt of
     Loading _ _ _ \<Rightarrow> None
   | Current p \<Rightarrow> Some (cp_generation p)
   | Refreshing g _ _ _ _ _ \<Rightarrow> Some g
   | Blocked _ _ r _ \<Rightarrow> r
   | Stopping r _ \<Rightarrow> r)"

definition queryable_generation :: "source_runtime \<Rightarrow> identity option" where
  "queryable_generation rt = (case rt_phase rt of
     Current p \<Rightarrow> Some (cp_generation p)
   | Refreshing g _ _ _ ap _ \<Rightarrow> if \<not> ever_recorded ap then Some g else None
   | _ \<Rightarrow> None)"

definition is_queryable :: "source_runtime \<Rightarrow> bool" where
  "is_queryable rt \<longleftrightarrow> queryable_generation rt \<noteq> None"

definition retained_binding :: "source_runtime \<Rightarrow> binding_authority option" where
  "retained_binding rt = (case rt_phase rt of
     Current p \<Rightarrow> Some (cp_binding p)
   | Refreshing _ b _ _ _ _ \<Rightarrow> Some b
   | Loading b _ _ \<Rightarrow> Some b
   | Blocked b _ _ _ \<Rightarrow> Some b
   | Stopping _ _ \<Rightarrow> None)"

definition rt_blocked_cause :: "source_runtime \<Rightarrow> blocked_cause option" where
  "rt_blocked_cause rt = (case rt_phase rt of Blocked _ _ _ c \<Rightarrow> Some c | _ \<Rightarrow> None)"

definition live_publication :: "source_runtime \<Rightarrow> current_publication option" where
  "live_publication rt = (case rt_phase rt of Current p \<Rightarrow> Some p | _ \<Rightarrow> None)"

definition published_identity :: "source_runtime \<Rightarrow> identity option" where
  "published_identity rt = (case rt_phase rt of
     Current p \<Rightarrow> Some (cp_publication p)
   | Refreshing _ _ p _ _ _ \<Rightarrow> Some p
   | _ \<Rightarrow> None)"

definition freeze :: "source_runtime \<Rightarrow> world \<Rightarrow> source_runtime \<times> world \<times> identity option" where
  "freeze rt w =
     (case (case rt_phase rt of
              Current p \<Rightarrow> Some (cp_generation p, cp_binding p, ObsActive (cp_observer_cut p), no_permits, Dirty)
            | Refreshing g b _ o' ap wk \<Rightarrow> Some (g, b, o', ap, wk)
            | _ \<Rightarrow> None) of
        None \<Rightarrow> (rt, w, None)
      | Some (g, b, o', ap, wk) \<Rightarrow>
          (let (p, w) = fresh_identity w
           in (rt\<lparr>rt_epoch := rt_epoch rt + 1, rt_phase := Refreshing g b p o' ap wk\<rparr>, w, Some p)))"

definition record_permit :: "identity \<Rightarrow> source_runtime \<Rightarrow> source_runtime \<times> bool" where
  "record_permit g rt = (case rt_phase rt of
     Refreshing r b p o' ap wk \<Rightarrow> (rt\<lparr>rt_phase := Refreshing r b p o' (record_active g ap) wk\<rparr>, True)
   | _ \<Rightarrow> (rt, False))"

definition retire_permit :: "identity \<Rightarrow> source_runtime \<Rightarrow> source_runtime \<times> bool" where
  "retire_permit g rt = (case rt_phase rt of
     Refreshing r b p o' ap wk \<Rightarrow>
       (let (ap, found) = retire_active g ap in (rt\<lparr>rt_phase := Refreshing r b p o' ap wk\<rparr>, found))
   | _ \<Rightarrow> (rt, False))"

definition set_work :: "non_current_work \<Rightarrow> source_runtime \<Rightarrow> source_runtime \<times> bool" where
  "set_work nxt rt = (case rt_phase rt of
     Loading b o' _ \<Rightarrow> (rt\<lparr>rt_phase := Loading b o' nxt\<rparr>, True)
   | Refreshing r b p o' ap _ \<Rightarrow> (rt\<lparr>rt_phase := Refreshing r b p o' ap nxt\<rparr>, True)
   | _ \<Rightarrow> (rt, False))"

definition set_observer_phase :: "observer_phase \<Rightarrow> source_runtime \<Rightarrow> source_runtime \<times> bool" where
  "set_observer_phase nxt rt = (case rt_phase rt of
     Loading b _ wk \<Rightarrow> (rt\<lparr>rt_phase := Loading b nxt wk\<rparr>, True)
   | Refreshing r b p _ ap wk \<Rightarrow> (rt\<lparr>rt_phase := Refreshing r b p nxt ap wk\<rparr>, True)
   | Blocked b _ r c \<Rightarrow> (rt\<lparr>rt_phase := Blocked b nxt r c\<rparr>, True)
   | _ \<Rightarrow> (rt, False))"

definition install :: "current_publication \<Rightarrow> source_runtime \<Rightarrow> source_runtime" where
  "install p rt = rt\<lparr>rt_phase := Current p\<rparr>"

definition request_mutation_grant ::
  "grant_input \<Rightarrow> source_runtime \<Rightarrow> world \<Rightarrow> source_runtime \<times> world \<times> (authority_refusal, grant_authority) result" where
  "request_mutation_grant input rt w =
     (case rt_phase rt of
        Current live \<Rightarrow>
          (case input of
             LiveCurrent presented \<Rightarrow>
               if presented \<noteq> cp_publication live
               then (rt, w, Err (PublicationIdentityMismatch presented (cp_publication live)))
               else (case freeze rt w of
                       (rt, w, Some p) \<Rightarrow>
                         (let (rt, _) = record_permit p rt;
                              epoch = rt_epoch rt;
                              rt = rt\<lparr>rt_grants := rt_grants rt + 1\<rparr>
                          in (rt, w, Ok \<lparr>ga_authority = \<lparr>ma_generation = cp_generation live, ma_binding = cp_binding live,
                                                          ma_epoch = epoch, ma_publication = cp_publication live\<rparr>,
                                          ga_proof = \<lparr>np_publication = p, np_epoch = epoch\<rparr>\<rparr>))
                     | (rt, w, None) \<Rightarrow> (rt, w, Err (PhaseNotCurrent CurrentPhase)))
           | other \<Rightarrow> (rt, w, Err (ProvenanceNotLiveCurrent (provenance_of other))))
      | other \<Rightarrow> (rt, w, Err (PhaseNotCurrent (phase_name_of other))))"

section \<open>Facts about single operations\<close>

named_theorems rt_defs \<open>operations and observations of the source runtime\<close>

lemmas runtime_ops [rt_defs] =
  freeze_def record_permit_def retire_permit_def set_work_def set_observer_phase_def install_def
  record_active_def retire_active_def fresh_identity_def

lemmas runtime_views [rt_defs] =
  queryable_generation_def is_queryable_def rt_active_permits_def live_publication_def no_permits_def is_drained_def

lemma freeze_Some:
  "freeze rt w = (rt', w', Some p) \<Longrightarrow>
     p = w_next w \<and> w' = w\<lparr>w_next := w_next w + 1\<rparr> \<and> rt_epoch rt' = rt_epoch rt + 1 \<and> rt_grants rt' = rt_grants rt \<and>
     retained_generation rt' = retained_generation rt \<and> rt_active_permits rt' = rt_active_permits rt \<and>
     (\<exists>g b o' wk. rt_phase rt' = Refreshing g b p o' (rt_active_permits rt) wk) \<and>
     rt_phase rt \<notin> range (\<lambda>(b, o', wk). Loading b o' wk) \<union> range (\<lambda>(b, o', r, c). Blocked b o' r c) \<union> range (\<lambda>(r, c). Stopping r c)"
  by (auto simp: freeze_def fresh_identity_def retained_generation_def rt_active_permits_def no_permits_def
      split: source_phase.splits)

lemma freeze_None:
  "freeze rt w = (rt', w', None) \<Longrightarrow> rt' = rt \<and> w' = w \<and> (\<forall>p. rt_phase rt \<noteq> Current p) \<and>
     rt_phase rt \<notin> range (\<lambda>(g, b, p, o', ap, wk). Refreshing g b p o' ap wk)"
  by (auto simp: freeze_def fresh_identity_def split: source_phase.splits)

lemma freeze_Current:
  assumes "rt_phase rt = Current p"
  shows "freeze rt w =
    (rt\<lparr>rt_epoch := rt_epoch rt + 1,
        rt_phase := Refreshing (cp_generation p) (cp_binding p) (w_next w) (ObsActive (cp_observer_cut p)) no_permits Dirty\<rparr>,
     w\<lparr>w_next := w_next w + 1\<rparr>, Some (w_next w))"
  using assms by (simp add: freeze_def fresh_identity_def)

text \<open>The accepting branch, with everything it changes.\<close>

lemma request_accepts:
  assumes "rt_phase rt = Current live"
  shows "request_mutation_grant (LiveCurrent (cp_publication live)) rt w =
    (rt\<lparr>rt_epoch := rt_epoch rt + 1,
        rt_phase := Refreshing (cp_generation live) (cp_binding live) (w_next w) (ObsActive (cp_observer_cut live))
          \<lparr>outstanding = [w_next w], ever_recorded = True\<rparr> Dirty,
        rt_grants := rt_grants rt + 1\<rparr>,
     w\<lparr>w_next := w_next w + 1\<rparr>,
     Ok \<lparr>ga_authority = \<lparr>ma_generation = cp_generation live, ma_binding = cp_binding live,
                         ma_epoch = rt_epoch rt + 1, ma_publication = cp_publication live\<rparr>,
         ga_proof = \<lparr>np_publication = w_next w, np_epoch = rt_epoch rt + 1\<rparr>\<rparr>)"
  using assms
  by (simp add: request_mutation_grant_def freeze_Current record_permit_def record_active_def no_permits_def Let_def)

lemma request_Err_iff:
  "(\<exists>e. snd (snd (request_mutation_grant input rt w)) = Err e) \<longleftrightarrow>
     \<not> (\<exists>live. rt_phase rt = Current live \<and> input = LiveCurrent (cp_publication live))"
  by (cases "rt_phase rt"; cases input)
    (auto simp: request_mutation_grant_def freeze_Current Let_def split: prod.splits)

lemma request_Err_unchanged:
  "request_mutation_grant input rt w = (rt', w', Err e) \<Longrightarrow> rt' = rt \<and> w' = w"
  by (cases "rt_phase rt"; cases input)
    (auto simp: request_mutation_grant_def freeze_Current Let_def split: prod.splits if_splits)

section \<open>The runtime as a machine\<close>

text \<open>
  \<open>rt_op\<close> is every call on a source other than \<open>install\<close>, and the rest of the process drawing an
  identity; \<open>rt_step\<close> adds \<open>install\<close>, whose publication only \<open>promote\<close> can build.
\<close>

type_synonym rt_state = "source_runtime \<times> world"

inductive rt_op :: "rt_state \<Rightarrow> rt_state \<Rightarrow> bool" where
  op_freeze: "freeze rt w = (rt', w', r) \<Longrightarrow> rt_op (rt, w) (rt', w')"
| op_record: "record_permit g rt = (rt', r) \<Longrightarrow> rt_op (rt, w) (rt', w)"
| op_retire: "retire_permit g rt = (rt', r) \<Longrightarrow> rt_op (rt, w) (rt', w)"
| op_work: "set_work wk rt = (rt', r) \<Longrightarrow> rt_op (rt, w) (rt', w)"
| op_observer: "set_observer_phase ob rt = (rt', r) \<Longrightarrow> rt_op (rt, w) (rt', w)"
| op_request: "request_mutation_grant i rt w = (rt', w', r) \<Longrightarrow> rt_op (rt, w) (rt', w')"
| op_elsewhere: "rt_op (rt, w) (rt, w\<lparr>w_next := w_next w + 1\<rparr>)"

inductive rt_step :: "rt_state \<Rightarrow> rt_state \<Rightarrow> bool" where
  st_op: "rt_op s t \<Longrightarrow> rt_step s t"
| st_install: "promote b ct w = (p, w') \<Longrightarrow> rt_step (rt, w) (install p rt, w')"

definition rt_init :: "rt_state \<Rightarrow> bool" where
  "rt_init s \<longleftrightarrow> (\<exists>b ct w p. promote b ct w = (p, snd s) \<and> fst s = rt_current p) \<or> (\<exists>b. fst s = rt_loading b) \<or>
     (\<exists>b g w. rt_refreshing b g w = s) \<or> (\<exists>b r. fst s = rt_blocked b r) \<or> (\<exists>r c. fst s = rt_stopping r c)"

text \<open>Every identity a source names was drawn before; a source holding permits has recorded one.\<close>

definition rt_wf :: "rt_state \<Rightarrow> bool" where
  "rt_wf s \<longleftrightarrow> (\<forall>p. published_identity (fst s) = Some p \<longrightarrow> p < w_next (snd s))"

lemma promote_fresh:
  "promote b ct w = (p, w') \<Longrightarrow>
     cp_publication p = w_next w \<and> cp_generation p = w_next w + 1 \<and> cp_binding p = b \<and> cp_observer_cut p = ct \<and>
     w' = w\<lparr>w_next := w_next w + 2\<rparr>"
  by (auto simp: promote_def fresh_identity_def)

text \<open>What a request does to the source, seen through \<open>freeze\<close> and \<open>record_permit\<close> only.\<close>

lemma request_cases:
  assumes "request_mutation_grant i rt w = (rt', w', r)"
  obtains (refused) e where "r = Err e" "rt' = rt" "w' = w"
  | (granted) live g where "r = Ok g" "rt_phase rt = Current live" "i = LiveCurrent (cp_publication live)"
      "w' = w\<lparr>w_next := w_next w + 1\<rparr>"
      "rt_phase rt' = Refreshing (cp_generation live) (cp_binding live) (w_next w) (ObsActive (cp_observer_cut live))
          \<lparr>outstanding = [w_next w], ever_recorded = True\<rparr> Dirty"
      "rt_epoch rt' = rt_epoch rt + 1" "rt_grants rt' = rt_grants rt + 1" "ma_epoch (ga_authority g) = rt_epoch rt + 1"
proof (cases r)
  case (Inl e)
  then show ?thesis using assms request_Err_unchanged refused by blast
next
  case (Inr g)
  then obtain live where l: "rt_phase rt = Current live" and i: "i = LiveCurrent (cp_publication live)"
    using assms request_Err_iff [of i rt w] by auto
  show ?thesis
    using assms Inr l i by (intro granted [of g live]) (auto simp: request_accepts)
qed

text \<open>One call keeps the published identity or replaces it by one drawn in that call.\<close>

lemma rt_op_published:
  "rt_op s t \<Longrightarrow> w_next (snd s) \<le> w_next (snd t) \<and> rt_epoch (fst s) \<le> rt_epoch (fst t) \<and>
     (published_identity (fst t) = published_identity (fst s) \<or>
      (\<exists>p. published_identity (fst t) = Some p \<and> w_next (snd s) \<le> p \<and> p < w_next (snd t)))"
proof (induction rule: rt_op.induct)
  case (op_request i rt w rt' w' r)
  then show ?case by (rule request_cases) (auto simp: published_identity_def)
qed (auto simp: rt_defs published_identity_def split: source_phase.splits if_splits prod.splits)

lemma rt_step_published:
  "rt_step s t \<Longrightarrow> w_next (snd s) \<le> w_next (snd t) \<and> rt_epoch (fst s) \<le> rt_epoch (fst t) \<and>
     (published_identity (fst t) = published_identity (fst s) \<or>
      (\<exists>p. published_identity (fst t) = Some p \<and> w_next (snd s) \<le> p \<and> p < w_next (snd t)))"
proof (induction rule: rt_step.induct)
  case (st_op s t)
  then show ?case by (rule rt_op_published)
next
  case (st_install b ct w p w' rt)
  then show ?case using promote_fresh [OF st_install] by (auto simp: install_def published_identity_def)
qed

lemma rt_steps_published:
  "rt_step\<^sup>*\<^sup>* s t \<Longrightarrow> w_next (snd s) \<le> w_next (snd t) \<and> rt_epoch (fst s) \<le> rt_epoch (fst t) \<and>
     (published_identity (fst t) = published_identity (fst s) \<or>
      (\<exists>p. published_identity (fst t) = Some p \<and> w_next (snd s) \<le> p))"
proof (induction rule: rtranclp_induct)
  case (step t u)
  then show ?case using rt_step_published [of t u] by (auto intro: le_trans)
qed simp

text \<open>A source that ever recorded a permit stays closed under every call but \<open>install\<close>.\<close>

definition rt_closed :: "rt_state \<Rightarrow> bool" where
  "rt_closed s \<longleftrightarrow> (\<exists>g b p o' ap wk. rt_phase (fst s) = Refreshing g b p o' ap wk \<and> ever_recorded ap)"

lemma rt_op_closed: "rt_op s t \<Longrightarrow> rt_closed s \<Longrightarrow> rt_closed t"
proof (induction rule: rt_op.induct)
  case (op_request i rt w rt' w' r)
  from op_request(1) show ?case
    by (rule request_cases) (use op_request(2) in \<open>auto simp: rt_closed_def\<close>)
qed (auto simp: rt_defs rt_closed_def Let_def split: source_phase.splits if_splits prod.splits)

interpretation closed: invariant_system rt_closed rt_op rt_closed
  by unfold_locales (auto intro: rt_op_closed)

lemma rt_step_wf: "rt_step s t \<Longrightarrow> rt_wf s \<Longrightarrow> rt_wf t"
  using rt_step_published [of s t] unfolding rt_wf_def by fastforce

interpretation runtime: invariant_system rt_init rt_step rt_wf
proof
  fix s show "rt_init s \<Longrightarrow> rt_wf s"
    by (auto simp: rt_init_def rt_wf_def rt_current_def rt_loading_def rt_refreshing_def rt_blocked_def rt_stopping_def published_identity_def
        fresh_identity_def dest!: promote_fresh split: prod.splits)
qed (rule rt_step_wf)

section \<open>Properties\<close>


text \<open>
  C22: a source that granted a mutation serves no query until it is installed again. After an accepted
  grant, whatever calls follow (freezing again, recording and retiring permits, changing work or observer
  phase, further requests), short of \<open>install\<close>, no generation is queryable, no publication is live, and
  every further mutation request is refused; the epoch never goes back below the granted one.
\<close>

theorem granted_source_closed_until_install:
  assumes "request_mutation_grant input rt w = (rt', w', Ok g)" and "rt_op\<^sup>*\<^sup>* (rt', w') (rt'', w'')"
  shows "\<not> is_queryable rt'' \<and> live_publication rt'' = None \<and> ma_epoch (ga_authority g) \<le> rt_epoch rt'' \<and>
    (\<forall>i. \<exists>e. request_mutation_grant i rt'' w'' = (rt'', w'', Err e))"
proof -
  from assms(1) have c: "rt_closed (rt', w')" and e: "ma_epoch (ga_authority g) = rt_epoch rt'"
    by (auto elim!: request_cases simp: rt_closed_def)
  have "rt_closed (rt'', w'')" using closed.inv_steps [OF assms(2) c] .
  then obtain r b p ob ap wk where ph: "rt_phase rt'' = Refreshing r b p ob ap wk" "ever_recorded ap"
    by (auto simp: rt_closed_def)
  have "rt_epoch rt' \<le> rt_epoch rt''"
    using steps_mono [OF assms(2), where rel = "\<lambda>s t. rt_epoch (fst s) \<le> rt_epoch (fst t)"] rt_op_published by force
  with ph e show ?thesis
    by (auto simp: is_queryable_def queryable_generation_def live_publication_def request_mutation_grant_def)
qed

text \<open>
  C25: one publication authorises at most one mutation, for good. Once a request presenting publication p
  was granted, no later request presenting p is granted, through any sequence of calls on the source
  including any number of reinstallations: a stale authority never compares equal to a later one.
\<close>

theorem publication_granted_once:
  assumes "reach rt_init rt_step (rt, w)" and "request_mutation_grant (LiveCurrent p) rt w = (rt', w', Ok g)"
    and "rt_step\<^sup>*\<^sup>* (rt', w') (rt'', w'')"
  shows "\<exists>e. request_mutation_grant (LiveCurrent p) rt'' w'' = (rt'', w'', Err e)"
proof -
  have "rt_wf (rt, w)" using runtime.reach_inv [OF assms(1)] .
  with assms(2) have p: "p < w_next w" "w_next w < w_next w'" and q: "published_identity rt' = Some (w_next w)"
    by (auto elim!: request_cases simp: rt_wf_def published_identity_def)
  have "published_identity rt'' \<noteq> Some p"
    using rt_steps_published [OF assms(3)] p q by auto
  then have "\<not> (\<exists>live. rt_phase rt'' = Current live \<and> LiveCurrent p = LiveCurrent (cp_publication live))"
    by (auto simp: published_identity_def)
  then obtain e where "snd (snd (request_mutation_grant (LiveCurrent p) rt'' w'')) = Err e"
    using request_Err_iff by blast
  then show ?thesis
    using request_Err_unchanged [of "LiveCurrent p" rt'' w''] by (metis prod.collapse)
qed

section \<open>Witnesses\<close>

definition wit_world :: world where
  "wit_world = \<lparr>w_next = 10, w_next_root = 2, w_revoked = [], w_dead = []\<rparr>"

definition wit_binding :: binding_authority where
  "wit_binding = \<lparr>b_identity = 3, b_root = 1\<rparr>"

definition wit_runtime :: source_runtime where
  "wit_runtime = rt_current (fst (promote wit_binding 4 wit_world))"

definition wit_world' :: world where
  "wit_world' = snd (promote wit_binding 4 wit_world)"

lemma wit_reach: "reach rt_init rt_step (wit_runtime, wit_world')"
proof (rule reach_init)
  have "promote wit_binding 4 wit_world = (fst (promote wit_binding 4 wit_world), wit_world')"
    by (simp add: wit_world'_def)
  then show "rt_init (wit_runtime, wit_world')"
    unfolding rt_init_def wit_runtime_def by (metis fst_conv snd_conv)
qed

lemma wit_grant:
  "\<exists>rt' g. request_mutation_grant (LiveCurrent 10) wit_runtime wit_world' = (rt', wit_world'\<lparr>w_next := 13\<rparr>, Ok g)"
  by (simp add: wit_runtime_def wit_world'_def wit_world_def rt_current_def promote_def fresh_identity_def
      request_mutation_grant_def freeze_def record_permit_def Let_def)

theorem granted_source_closed_until_install_witness:
  "\<exists>rt' w' g. request_mutation_grant (LiveCurrent 10) wit_runtime wit_world' = (rt', w', Ok g) \<and> \<not> is_queryable rt'"
proof -
  obtain rt' g where "request_mutation_grant (LiveCurrent 10) wit_runtime wit_world' = (rt', wit_world'\<lparr>w_next := 13\<rparr>, Ok g)"
    using wit_grant by blast
  then show ?thesis
    using granted_source_closed_until_install [OF _ rtranclp.rtrancl_refl] by blast
qed

theorem publication_granted_once_witness:
  "\<exists>rt' w' g rt'' w'' e. request_mutation_grant (LiveCurrent 10) wit_runtime wit_world' = (rt', w', Ok g) \<and>
     rt'' = install (fst (promote wit_binding 4 w')) rt' \<and> is_queryable rt'' \<and>
     request_mutation_grant (LiveCurrent 10) rt'' w'' = (rt'', w'', Err e)"
proof -
  obtain rt' w' g where r: "request_mutation_grant (LiveCurrent 10) wit_runtime wit_world' = (rt', w', Ok g)"
    using wit_grant by blast
  let ?rt = "install (fst (promote wit_binding 4 w')) rt'" and ?w = "snd (promote wit_binding 4 w')"
  have "rt_step\<^sup>*\<^sup>* (rt', w') (?rt, ?w)"
    by (rule r_into_rtranclp) (rule st_install [OF prod.collapse [symmetric]])
  from publication_granted_once [OF wit_reach r this]
  show ?thesis using r by (auto simp: is_queryable_def queryable_generation_def install_def)
qed

end
