(* ===== verification/Capacity.thy ===== *)
theory Capacity
  imports Authority "HOL-Library.Multiset"
begin

text \<open>
  Process capacity accounting: \<open>src/index_lifecycle/capacity.rs\<close>.

  A pool is a ledger of owner rows; a grant is reserved, then redeemed into a permit, and either refunds
  its charge when it dies. Byte counts are \<open>nat\<close>: subtraction saturates as \<open>saturating_sub\<close> does, and
  \<open>charged_fits_u64\<close> shows the two additions of the source never leave 64 bits. A grant or permit holds a
  pointer to its own pool; in \<open>cap_system\<close>, which keeps all pools of the process and the grants and permits
  alive in it, the pointer is the pool's identity. The ledger mutex makes every call one step.
\<close>

section \<open>Rows, grants, permits\<close>

datatype capacity_refusal =
    Exhausted nat nat
  | ExceedsParent nat nat
  | HasChildren nat
  | UnknownOwner
  | ForeignGrant

record capacity_grant =
  cg_owner :: identity
  cg_bytes :: nat
  cg_charge :: identity
  cg_pool :: identity
  cg_redeemed :: bool

record capacity_permit =
  cm_owner :: identity
  cm_bytes :: nat
  cm_charge :: identity
  cm_ledger :: identity
  cm_refunded :: bool

record owner_row =
  row_limit :: nat
  row_charged :: nat
  row_outstanding :: "(identity, nat) hmap"
  row_parent :: "identity option"

record capacity_pool =
  pool_identity :: identity
  pool_rows :: "(identity, owner_row) hmap"
  pool_unknown_refunds :: nat

definition pool_new :: "identity \<Rightarrow> capacity_pool" where
  "pool_new i = \<lparr>pool_identity = i, pool_rows = [], pool_unknown_refunds = 0\<rparr>"

definition new_row :: "nat \<Rightarrow> identity option \<Rightarrow> owner_row" where
  "new_row limit parent = \<lparr>row_limit = limit, row_charged = 0, row_outstanding = [], row_parent = parent\<rparr>"

section \<open>Operations of a pool\<close>

text \<open>\<open>new_owner\<close> is the identity \<open>OwnerIdentity::fresh\<close> mints.\<close>

definition pool_root :: "identity \<Rightarrow> nat \<Rightarrow> capacity_pool \<Rightarrow> capacity_pool" where
  "pool_root new_owner limit p = p\<lparr>pool_rows := hinsert new_owner (new_row limit None) (pool_rows p)\<rparr>"

definition available :: "capacity_pool \<Rightarrow> identity \<Rightarrow> nat" where
  "available p owner = (case hget (pool_rows p) owner of Some row \<Rightarrow> row_limit row - row_charged row | None \<Rightarrow> 0)"

definition pool_child ::
  "identity \<Rightarrow> identity \<Rightarrow> nat \<Rightarrow> capacity_pool \<Rightarrow> capacity_pool \<times> (capacity_refusal, identity) result" where
  "pool_child new_owner parent limit p =
     (let rows = pool_rows p;
          avail = (case hget rows parent of Some row \<Rightarrow> row_limit row - row_charged row | None \<Rightarrow> 0)
      in if limit > avail then (p, Err (ExceedsParent limit avail))
         else (let rows = (case hget rows parent of
                             Some row \<Rightarrow> hinsert parent (row\<lparr>row_charged := row_charged row + limit\<rparr>) rows
                           | None \<Rightarrow> rows)
               in (p\<lparr>pool_rows := hinsert new_owner (new_row limit (Some parent)) rows\<rparr>, Ok new_owner)))"

definition reserve ::
  "identity \<Rightarrow> nat \<Rightarrow> capacity_pool \<Rightarrow> world \<Rightarrow> capacity_pool \<times> world \<times> (capacity_refusal, capacity_grant) result" where
  "reserve owner bytes p w =
     (case hget (pool_rows p) owner of
        None \<Rightarrow> (p, w, Err UnknownOwner)
      | Some row \<Rightarrow>
          (let avail = row_limit row - row_charged row
           in if bytes > avail then (p, w, Err (Exhausted bytes avail))
              else (let (charge, w) = fresh_identity w;
                        row = row\<lparr>row_charged := row_charged row + bytes,
                                  row_outstanding := hinsert charge bytes (row_outstanding row)\<rparr>
                    in (p\<lparr>pool_rows := hinsert owner row (pool_rows p)\<rparr>, w,
                        Ok \<lparr>cg_owner = owner, cg_bytes = bytes, cg_charge = charge, cg_pool = pool_identity p,
                            cg_redeemed = False\<rparr>))))"

definition refund :: "identity \<Rightarrow> identity \<Rightarrow> capacity_pool \<Rightarrow> capacity_pool \<times> nat" where
  "refund owner charge p =
     (case hget (pool_rows p) owner of
        None \<Rightarrow> (p\<lparr>pool_unknown_refunds := pool_unknown_refunds p + 1\<rparr>, 0)
      | Some row \<Rightarrow>
          (case hget (row_outstanding row) charge of
             Some recorded \<Rightarrow>
               (p\<lparr>pool_rows := hinsert owner
                    (row\<lparr>row_charged := row_charged row - recorded,
                         row_outstanding := hremove charge (row_outstanding row)\<rparr>) (pool_rows p)\<rparr>, recorded)
           | None \<Rightarrow> (p\<lparr>pool_unknown_refunds := pool_unknown_refunds p + 1\<rparr>, 0)))"

definition drop_grant :: "capacity_grant \<Rightarrow> capacity_pool \<Rightarrow> capacity_pool" where
  "drop_grant g p = (if \<not> cg_redeemed g then fst (refund (cg_owner g) (cg_charge g) p) else p)"

text \<open>\<open>redeem\<close> consumes the grant: it returns the grant as its destructor will find it.\<close>

definition redeem ::
  "capacity_grant \<Rightarrow> capacity_pool \<Rightarrow> capacity_grant \<times> (capacity_refusal, capacity_permit) result" where
  "redeem g p =
     (if cg_pool g \<noteq> pool_identity p then (g, Err ForeignGrant)
      else (g\<lparr>cg_redeemed := True\<rparr>,
            Ok \<lparr>cm_owner = cg_owner g, cm_bytes = cg_bytes g, cm_charge = cg_charge g,
                cm_ledger = pool_identity p, cm_refunded = False\<rparr>))"

definition drop_permit :: "capacity_permit \<Rightarrow> capacity_pool \<Rightarrow> capacity_pool" where
  "drop_permit m p = (if \<not> cm_refunded m then fst (refund (cm_owner m) (cm_charge m) p) else p)"

definition release :: "capacity_permit \<Rightarrow> capacity_pool \<Rightarrow> capacity_pool \<times> nat" where
  "release m p = (let (p, refunded) = refund (cm_owner m) (cm_charge m) p
                  in (drop_permit (m\<lparr>cm_refunded := True\<rparr>) p, refunded))"

definition charged :: "capacity_pool \<Rightarrow> identity \<Rightarrow> nat" where
  "charged p owner = (case hget (pool_rows p) owner of Some row \<Rightarrow> row_charged row | None \<Rightarrow> 0)"

definition outstanding_charges :: "capacity_pool \<Rightarrow> identity \<Rightarrow> nat" where
  "outstanding_charges p owner = (case hget (pool_rows p) owner of Some row \<Rightarrow> length (row_outstanding row) | None \<Rightarrow> 0)"

definition children_of :: "(identity, owner_row) hmap \<Rightarrow> identity \<Rightarrow> nat" where
  "children_of rows owner = length (filter (\<lambda>r. row_parent r = Some owner) (map snd rows))"

definition release_owner :: "identity \<Rightarrow> capacity_pool \<Rightarrow> capacity_pool \<times> (capacity_refusal, nat) result" where
  "release_owner owner p =
     (let rows = pool_rows p
      in case hget rows owner of
           None \<Rightarrow> (p, Err UnknownOwner)
         | Some row \<Rightarrow>
             if row_outstanding row \<noteq> [] then (p, Err (Exhausted 0 (row_limit row - row_charged row)))
             else if children_of rows owner > 0 then (p, Err (HasChildren (children_of rows owner)))
             else (case row_parent row of
                     Some parent \<Rightarrow>
                       if hget rows parent = None then (p, Err UnknownOwner)
                       else (let rows = hremove owner rows;
                                 rows = (case hget rows parent of
                                           Some prow \<Rightarrow> hinsert parent (prow\<lparr>row_charged := row_charged prow - row_limit row\<rparr>) rows
                                         | None \<Rightarrow> rows)
                             in (p\<lparr>pool_rows := rows\<rparr>, Ok (row_limit row)))
                   | None \<Rightarrow> (p\<lparr>pool_rows := hremove owner rows\<rparr>, Ok (row_limit row))))"

section \<open>The ledger invariant of one pool\<close>

text \<open>
  \<open>T\<close> is the set of live charges (owner, charge identity, bytes) drawn on the pool, \<open>n\<close> the next owner
  identity. What a row has charged is exactly what its live charges hold plus what it promised to children.
\<close>

definition child_sum :: "(identity, owner_row) hmap \<Rightarrow> identity \<Rightarrow> nat" where
  "child_sum rows owner = hsum (\<lambda>r. if row_parent r = Some owner then row_limit r else 0) rows"

definition row_ok :: "nat \<Rightarrow> nat \<Rightarrow> identity \<Rightarrow> owner_row \<Rightarrow> bool" where
  "row_ok n promised o' r \<longleftrightarrow> hok (row_outstanding r) \<and> row_charged r = hsum id (row_outstanding r) + promised \<and>
     row_charged r \<le> row_limit r \<and> o' < n \<and> (\<forall>q. row_parent r = Some q \<longrightarrow> q < o')"

definition pool_ok :: "(identity \<times> identity \<times> nat) set \<Rightarrow> nat \<Rightarrow> capacity_pool \<Rightarrow> bool" where
  "pool_ok T n p \<longleftrightarrow> hok (pool_rows p) \<and> pool_unknown_refunds p = 0 \<and>
     (\<forall>o' r. hget (pool_rows p) o' = Some r \<longrightarrow> row_ok n (child_sum (pool_rows p) o') o' r) \<and>
     (\<forall>o' c b. (o', c, b) \<in> T \<longleftrightarrow> (\<exists>r. hget (pool_rows p) o' = Some r \<and> hget (row_outstanding r) c = Some b))"

lemma child_sum_same:
  assumes "hok rows" "hget rows o' = Some r" "row_limit r' = row_limit r" "row_parent r' = row_parent r"
  shows "child_sum (hinsert o' r' rows) x = child_sum rows x"
  using hsum_hinsert [OF assms(1,2), of "\<lambda>r. if row_parent r = Some x then row_limit r else 0" r'] assms(3,4)
  by (cases "row_parent r = Some x") (simp_all add: child_sum_def)

lemma child_sum_new:
  "hget rows o' = None \<Longrightarrow>
   child_sum (hinsert o' r' rows) x = child_sum rows x + (if row_parent r' = Some x then row_limit r' else 0)"
  by (simp add: child_sum_def hsum_hinsert_fresh hmap_simps)

lemma child_sum_remove:
  "hok rows \<Longrightarrow> hget rows o' = Some r \<Longrightarrow>
   child_sum rows x = child_sum (hremove o' rows) x + (if row_parent r = Some x then row_limit r else 0)"
  unfolding child_sum_def by (subst hsum_hremove [of rows o' r]) auto

lemma pool_ok_rowD: "pool_ok T n p \<Longrightarrow> hget (pool_rows p) o' = Some r \<Longrightarrow> row_ok n (child_sum (pool_rows p) o') o' r"
  by (simp add: pool_ok_def)

lemma pool_ok_no_child:
  assumes "pool_ok T n p" "n \<le> x"
  shows "child_sum (pool_rows p) x = 0"
proof -
  have "row_parent r \<noteq> Some x" if r: "(o', r) \<in> set (pool_rows p)" for o' r
  proof
    assume q: "row_parent r = Some x"
    have "hget (pool_rows p) o' = Some r" using assms(1) r by (simp add: pool_ok_def hget_Some_iff)
    then have "x < o'" "o' < n" using pool_ok_rowD [OF assms(1)] q by (auto simp: row_ok_def)
    then show False using assms(2) by simp
  qed
  then show ?thesis by (auto simp: child_sum_def hsum_zero_iff)
qed

lemma pool_ok_mono: "pool_ok T n p \<Longrightarrow> n \<le> m \<Longrightarrow> pool_ok T m p"
  unfolding pool_ok_def row_ok_def by (meson less_le_trans)

text \<open>Replacing one row without touching its limit, parent or the rows beside it.\<close>

lemma pool_ok_upd_row:
  assumes ok: "pool_ok T n p" and r: "hget (pool_rows p) o' = Some r"
    and same: "row_limit r' = row_limit r" "row_parent r' = row_parent r"
    and row: "row_ok n (child_sum (pool_rows p) o') o' r'"
    and T': "\<And>x c b. (x, c, b) \<in> T' \<longleftrightarrow> (if x = o' then hget (row_outstanding r') c = Some b else (x, c, b) \<in> T)"
  shows "pool_ok T' n (p\<lparr>pool_rows := hinsert o' r' (pool_rows p)\<rparr>)"
proof -
  have hokr: "hok (pool_rows p)" using ok by (simp add: pool_ok_def)
  have cs: "child_sum (hinsert o' r' (pool_rows p)) x = child_sum (pool_rows p) x" for x
    using child_sum_same [OF hokr r same] .
  have "row_ok n (child_sum (hinsert o' r' (pool_rows p)) x) x y"
    if y: "hget (hinsert o' r' (pool_rows p)) x = Some y" for x y
    unfolding cs using y row pool_ok_rowD [OF ok, of x y] by (cases "x = o'") (simp_all add: hget_hinsert)
  then show ?thesis
    using ok T' hokr by (auto simp: pool_ok_def hget_hinsert)
qed

lemma pool_ok_fresh: "pool_ok T n p \<Longrightarrow> hget (pool_rows p) n = None"
  using pool_ok_rowD [of T n p n] by (cases "hget (pool_rows p) n") (auto simp: row_ok_def)

text \<open>Inserting a row, with the rows of the pool otherwise equal but for the promise to the new row.\<close>

lemma pool_ok_new_row:
  assumes ok: "pool_ok T n p" and hokr: "hok rows"
    and fresh: "hget rows n = None"
    and par: "\<And>q. parent = Some q \<Longrightarrow> q < n"
    and cs: "\<And>x. child_sum rows x = child_sum (pool_rows p) x"
    and rows: "\<And>x y. hget rows x = Some y \<Longrightarrow>
        row_ok n (child_sum (pool_rows p) x + (if parent = Some x then limit else 0)) x y"
    and T: "\<And>x c b. (x, c, b) \<in> T \<longleftrightarrow> (\<exists>r. hget rows x = Some r \<and> hget (row_outstanding r) c = Some b)"
  shows "pool_ok T (Suc n) (p\<lparr>pool_rows := hinsert n (new_row limit parent) rows\<rparr>)"
proof -
  have cs': "child_sum (hinsert n (new_row limit parent) rows) x =
      child_sum (pool_rows p) x + (if parent = Some x then limit else 0)" for x
    using child_sum_new [OF fresh] cs by (simp add: new_row_def)
  have "row_ok (Suc n) (child_sum (hinsert n (new_row limit parent) rows) x) x y"
    if y: "hget (hinsert n (new_row limit parent) rows) x = Some y" for x y
  proof (cases "x = n")
    case True
    then show ?thesis
      using y pool_ok_no_child [OF ok, of n] par unfolding cs' by (auto simp: row_ok_def new_row_def hget_hinsert)
  next
    case False
    then show ?thesis using y rows [of x y] unfolding cs' by (auto simp: row_ok_def hget_hinsert)
  qed
  then show ?thesis
    using ok hokr T fresh pool_ok_fresh [OF ok] unfolding pool_ok_def by (simp add: hget_hinsert) (auto simp: new_row_def)
qed

section \<open>Every operation keeps the ledger\<close>

lemma pool_new_ok: "pool_ok {} n (pool_new i)"
  by (simp add: pool_ok_def pool_new_def)

lemma pool_root_ok: "pool_ok T n p \<Longrightarrow> pool_ok T (Suc n) (pool_root n limit p)"
  unfolding pool_root_def
  by (rule pool_ok_new_row [of T n p]) (auto simp: pool_ok_fresh dest: pool_ok_rowD, auto simp: pool_ok_def)

lemma pool_child_Ok:
  assumes ok: "pool_ok T n p" and par: "parent < n" and res: "pool_child n parent limit p = (p', Ok i)"
  shows "pool_ok T (Suc n) p' \<and> i = n"
proof (cases "hget (pool_rows p) parent")
  case None
  with res have p': "p' = p\<lparr>pool_rows := hinsert n (new_row limit (Some parent)) (pool_rows p)\<rparr>" "i = n" and l: "limit = 0"
    by (auto simp: pool_child_def Let_def split: if_splits)
  show ?thesis
    unfolding p' l using ok par None
    by (auto intro!: pool_ok_new_row [of T n p] simp: pool_ok_fresh dest: pool_ok_rowD) (auto simp: pool_ok_def)
next
  case (Some row)
  define row' where "row' = row\<lparr>row_charged := row_charged row + limit\<rparr>"
  let ?rows = "hinsert parent row' (pool_rows p)"
  have hokr: "hok (pool_rows p)" using ok by (simp add: pool_ok_def)
  from res Some have p': "p' = p\<lparr>pool_rows := hinsert n (new_row limit (Some parent)) ?rows\<rparr>" "i = n"
    and l: "row_charged row + limit \<le> row_limit row"
    using pool_ok_rowD [OF ok Some] by (auto simp: pool_child_def Let_def row'_def row_ok_def split: if_splits)
  have cs: "child_sum ?rows x = child_sum (pool_rows p) x" for x
    by (rule child_sum_same [OF hokr Some]) (simp_all add: row'_def)
  have "row_ok n (child_sum (pool_rows p) parent + limit) parent row'"
    using pool_ok_rowD [OF ok Some] l by (auto simp: row_ok_def row'_def)
  then have rows: "row_ok n (child_sum (pool_rows p) x + (if Some parent = Some x then limit else 0)) x y"
    if "hget ?rows x = Some y" for x y
    using that pool_ok_rowD [OF ok, of x y] by (auto simp: hget_hinsert split: if_splits)
  have "row_outstanding row' = row_outstanding row" by (simp add: row'_def)
  then have T: "(x, c, b) \<in> T \<longleftrightarrow> (\<exists>r. hget ?rows x = Some r \<and> hget (row_outstanding r) c = Some b)" for x c b
    using ok Some by (auto simp: pool_ok_def hget_hinsert)
  show ?thesis
    unfolding p' using pool_ok_new_row [OF ok _ _ _ cs rows T] hokr pool_ok_fresh [OF ok] par
    by (auto simp: hget_hinsert)
qed

lemma reserve_Ok:
  assumes ok: "pool_ok T n p" and fresh: "\<And>x c b. (x, c, b) \<in> T \<Longrightarrow> c < w_next w"
    and res: "reserve owner bytes p w = (p', w', Ok g)"
  shows "pool_ok (insert (owner, w_next w, bytes) T) n p' \<and> w_next w' = w_next w + 1 \<and>
    g = \<lparr>cg_owner = owner, cg_bytes = bytes, cg_charge = w_next w, cg_pool = pool_identity p, cg_redeemed = False\<rparr> \<and>
    pool_identity p' = pool_identity p"
proof -
  obtain row where row: "hget (pool_rows p) owner = Some row"
    using res by (auto simp: reserve_def split: option.splits)
  define row' where "row' = row\<lparr>row_charged := row_charged row + bytes,
                                row_outstanding := hinsert (w_next w) bytes (row_outstanding row)\<rparr>"
  have r: "row_ok n (child_sum (pool_rows p) owner) owner row" by (rule pool_ok_rowD [OF ok row])
  have new: "hget (row_outstanding row) (w_next w) = None"
  proof (rule ccontr)
    assume "hget (row_outstanding row) (w_next w) \<noteq> None"
    then obtain b where "(owner, w_next w, b) \<in> T" using ok row by (auto simp: pool_ok_def)
    then show False using fresh by blast
  qed
  have p': "p' = p\<lparr>pool_rows := hinsert owner row' (pool_rows p)\<rparr>" and l: "row_charged row + bytes \<le> row_limit row"
    using res row r by (auto simp: reserve_def Let_def row'_def fresh_identity_def row_ok_def split: if_splits)
  have "pool_ok (insert (owner, w_next w, bytes) T) n (p\<lparr>pool_rows := hinsert owner row' (pool_rows p)\<rparr>)"
  proof (rule pool_ok_upd_row [OF ok row])
    show "row_ok n (child_sum (pool_rows p) owner) owner row'"
      using r l new by (auto simp: row_ok_def row'_def hsum_hinsert_fresh hget_None_iff)
    show "(x, c, b) \<in> insert (owner, w_next w, bytes) T \<longleftrightarrow>
        (if x = owner then hget (row_outstanding row') c = Some b else (x, c, b) \<in> T)" for x c b
      using ok row new by (auto simp: pool_ok_def row'_def hget_hinsert)
  qed (simp_all add: row'_def)
  with p' res row l show ?thesis
    by (auto simp: reserve_def Let_def fresh_identity_def split: if_splits)
qed

lemma refund_ok:
  assumes ok: "pool_ok T n p" and t: "(owner, c, b) \<in> T"
  shows "snd (refund owner c p) = b \<and> pool_ok (T - {(owner, c, b)}) n (fst (refund owner c p)) \<and>
    pool_identity (fst (refund owner c p)) = pool_identity p"
proof -
  obtain row where row: "hget (pool_rows p) owner = Some row" "hget (row_outstanding row) c = Some b"
    using ok t by (auto simp: pool_ok_def)
  define row' where "row' = row\<lparr>row_charged := row_charged row - b, row_outstanding := hremove c (row_outstanding row)\<rparr>"
  have r: "row_ok n (child_sum (pool_rows p) owner) owner row" by (rule pool_ok_rowD [OF ok row(1)])
  then have s: "hsum id (row_outstanding row) = b + hsum id (hremove c (row_outstanding row))"
    using hsum_hremove [OF _ row(2), of id] by (simp add: row_ok_def)
  have "pool_ok (T - {(owner, c, b)}) n (p\<lparr>pool_rows := hinsert owner row' (pool_rows p)\<rparr>)"
  proof (rule pool_ok_upd_row [OF ok row(1)])
    show "row_ok n (child_sum (pool_rows p) owner) owner row'"
      using r s by (auto simp: row_ok_def row'_def)
    show "(x, c', b') \<in> T - {(owner, c, b)} \<longleftrightarrow>
        (if x = owner then hget (row_outstanding row') c' = Some b' else (x, c', b') \<in> T)" for x c' b'
      using ok row by (auto simp: pool_ok_def row'_def hget_hremove)
  qed (simp_all add: row'_def)
  then show ?thesis using row by (simp add: refund_def row'_def)
qed

lemma children_of_0: "children_of rows o' = 0 \<longleftrightarrow> (\<forall>r \<in> snd ` set rows. row_parent r \<noteq> Some o')"
  by (auto simp: children_of_def filter_empty_conv)

lemma release_owner_Ok:
  assumes ok: "pool_ok T n p" and res: "release_owner owner p = (p', Ok l)"
  shows "pool_ok T n p' \<and> pool_identity p' = pool_identity p"
proof -
  let ?rows = "pool_rows p" and ?rest = "hremove owner (pool_rows p)"
  obtain row where row: "hget ?rows owner = Some row" "row_outstanding row = []" "children_of ?rows owner = 0" "l = row_limit row"
    using res by (auto simp: release_owner_def Let_def split: option.splits if_splits)
  have hokr: "hok ?rows" using ok by (simp add: pool_ok_def)
  have cs: "child_sum ?rows x = child_sum ?rest x + (if row_parent row = Some x then row_limit row else 0)" for x
    by (rule child_sum_remove [OF hokr row(1)])
  have noT: "(owner, c, b) \<notin> T" for c b using ok row(1,2) by (auto simp: pool_ok_def)
  show ?thesis
  proof (cases "row_parent row")
    case None
    with res row have p': "p' = p\<lparr>pool_rows := ?rest\<rparr>" by (auto simp: release_owner_def)
    have "row_ok n (child_sum ?rest x) x y" if "hget ?rest x = Some y" for x y
      using that cs [of x] pool_ok_rowD [OF ok, of x y] None by (auto simp: hget_hremove split: if_splits)
    then show ?thesis
      using ok hokr noT row(1) unfolding p' pool_ok_def by (auto simp: hget_hremove)
  next
    case (Some parent)
    have ne: "parent \<noteq> owner" using pool_ok_rowD [OF ok row(1)] Some by (auto simp: row_ok_def)
    obtain prow where prow: "hget ?rows parent = Some prow"
      using res row Some by (auto simp: release_owner_def Let_def split: option.splits if_splits)
    define prow' where "prow' = prow\<lparr>row_charged := row_charged prow - row_limit row\<rparr>"
    from res row Some prow ne have p': "p' = p\<lparr>pool_rows := hinsert parent prow' ?rest\<rparr>"
      by (auto simp: release_owner_def Let_def prow'_def hget_hremove)
    have cs': "child_sum (hinsert parent prow' ?rest) x = child_sum ?rest x" for x
      by (rule child_sum_same [of _ _ prow]) (use hokr prow ne in \<open>simp_all add: hget_hremove prow'_def\<close>)
    have pr: "row_ok n (child_sum ?rest parent) parent prow'"
      using pool_ok_rowD [OF ok prow] cs [of parent] Some by (auto simp: row_ok_def prow'_def)
    have "row_ok n (child_sum (hinsert parent prow' ?rest) x) x y" if y: "hget (hinsert parent prow' ?rest) x = Some y" for x y
      unfolding cs' using y pr cs [of x] pool_ok_rowD [OF ok, of x y] Some
      by (auto simp: hget_hremove hget_hinsert split: if_splits)
    moreover have "row_outstanding prow' = row_outstanding prow" by (simp add: prow'_def)
    ultimately show ?thesis
      using ok hokr noT row(1) prow unfolding p' pool_ok_def by (auto simp: hget_hremove hget_hinsert)
  qed
qed

lemma pool_Err_unchanged:
  "pool_child i parent limit p = (p', Err e) \<Longrightarrow> p' = p"
  "reserve owner bytes p w = (p', w', Err e) \<Longrightarrow> p' = p \<and> w' = w"
  "release_owner owner p = (p', Err e) \<Longrightarrow> p' = p"
  by (auto simp: pool_child_def reserve_def release_owner_def Let_def split: option.splits if_splits prod.splits)

section \<open>All pools of the process, with the grants and permits alive\<close>

record cap_system =
  cs_world :: world
  cs_next_owner :: identity
  cs_next_pool :: identity
  cs_pools :: "(identity, capacity_pool) hmap"
  cs_grants :: "capacity_grant list"
  cs_permits :: "capacity_permit list"

definition cap_init :: "cap_system \<Rightarrow> bool" where
  "cap_init s \<longleftrightarrow> cs_pools s = [] \<and> cs_grants s = [] \<and> cs_permits s = []"

definition put_pool :: "capacity_pool \<Rightarrow> cap_system \<Rightarrow> cap_system" where
  "put_pool p s = s\<lparr>cs_pools := hinsert (pool_identity p) p (cs_pools s)\<rparr>"

text \<open>
  The public calls. A grant or permit is consumed by value, so a step that ends one removes it from the
  values alive; an owner identity presented to \<open>child\<close> was minted before. The world may advance on its own.
\<close>

inductive cap_step :: "cap_system \<Rightarrow> cap_system \<Rightarrow> bool" where
  cap_pool: "cap_step s (put_pool (pool_new (cs_next_pool s)) (s\<lparr>cs_next_pool := cs_next_pool s + 1\<rparr>))"
| cap_root: "hget (cs_pools s) i = Some p \<Longrightarrow>
    cap_step s (put_pool (pool_root (cs_next_owner s) limit p) (s\<lparr>cs_next_owner := cs_next_owner s + 1\<rparr>))"
| cap_child: "hget (cs_pools s) i = Some p \<Longrightarrow> parent < cs_next_owner s \<Longrightarrow>
    pool_child (cs_next_owner s) parent limit p = (p', Ok o') \<Longrightarrow>
    cap_step s (put_pool p' (s\<lparr>cs_next_owner := cs_next_owner s + 1\<rparr>))"
| cap_reserve: "hget (cs_pools s) i = Some p \<Longrightarrow> reserve owner bytes p (cs_world s) = (p', w', Ok g) \<Longrightarrow>
    cap_step s (put_pool p' (s\<lparr>cs_world := w', cs_grants := g # cs_grants s\<rparr>))"
| cap_redeem: "hget (cs_pools s) i = Some p \<Longrightarrow> g \<in> set (cs_grants s) \<Longrightarrow> redeem g p = (g', Ok m) \<Longrightarrow>
    hget (cs_pools s) (cg_pool g) = Some q \<Longrightarrow>
    cap_step s (put_pool (drop_grant g' q) (s\<lparr>cs_grants := remove1 g (cs_grants s), cs_permits := m # cs_permits s\<rparr>))"
| cap_redeem_foreign: "hget (cs_pools s) i = Some p \<Longrightarrow> g \<in> set (cs_grants s) \<Longrightarrow> redeem g p = (g', Err e) \<Longrightarrow>
    hget (cs_pools s) (cg_pool g) = Some q \<Longrightarrow>
    cap_step s (put_pool (drop_grant g' q) (s\<lparr>cs_grants := remove1 g (cs_grants s)\<rparr>))"
| cap_drop_grant: "g \<in> set (cs_grants s) \<Longrightarrow> hget (cs_pools s) (cg_pool g) = Some q \<Longrightarrow>
    cap_step s (put_pool (drop_grant g q) (s\<lparr>cs_grants := remove1 g (cs_grants s)\<rparr>))"
| cap_drop_permit: "m \<in> set (cs_permits s) \<Longrightarrow> hget (cs_pools s) (cm_ledger m) = Some q \<Longrightarrow>
    cap_step s (put_pool (drop_permit m q) (s\<lparr>cs_permits := remove1 m (cs_permits s)\<rparr>))"
| cap_release: "m \<in> set (cs_permits s) \<Longrightarrow> hget (cs_pools s) (cm_ledger m) = Some q \<Longrightarrow>
    cap_step s (put_pool (fst (release m q)) (s\<lparr>cs_permits := remove1 m (cs_permits s)\<rparr>))"
| cap_release_owner: "hget (cs_pools s) i = Some p \<Longrightarrow> release_owner owner p = (p', Ok l) \<Longrightarrow>
    cap_step s (put_pool p' s)"
| cap_elsewhere: "w_next (cs_world s) \<le> w_next w' \<Longrightarrow> cap_step s (s\<lparr>cs_world := w'\<rparr>)"

text \<open>The live charges of the process as (pool, owner, charge, bytes).\<close>

definition grant_charge :: "capacity_grant \<Rightarrow> identity \<times> identity \<times> identity \<times> nat" where
  "grant_charge g = (cg_pool g, cg_owner g, cg_charge g, cg_bytes g)"

definition permit_charge :: "capacity_permit \<Rightarrow> identity \<times> identity \<times> identity \<times> nat" where
  "permit_charge m = (cm_ledger m, cm_owner m, cm_charge m, cm_bytes m)"

definition live_charges :: "cap_system \<Rightarrow> (identity \<times> identity \<times> identity \<times> nat) list" where
  "live_charges s = map grant_charge (cs_grants s) @ map permit_charge (cs_permits s)"

definition charges_on :: "(identity \<times> identity \<times> identity \<times> nat) list \<Rightarrow> identity \<Rightarrow> (identity \<times> identity \<times> nat) set" where
  "charges_on L i = {(o', c, b). (i, o', c, b) \<in> set L}"

definition cap_inv :: "cap_system \<Rightarrow> bool" where
  "cap_inv s \<longleftrightarrow>
     (\<forall>i p. hget (cs_pools s) i = Some p \<longrightarrow>
        pool_identity p = i \<and> i < cs_next_pool s \<and> pool_ok (charges_on (live_charges s) i) (cs_next_owner s) p) \<and>
     distinct (map (\<lambda>(i, o', c, b). c) (live_charges s)) \<and>
     (\<forall>(i, o', c, b) \<in> set (live_charges s). c < w_next (cs_world s) \<and> hget (cs_pools s) i \<noteq> None) \<and>
     (\<forall>g \<in> set (cs_grants s). \<not> cg_redeemed g) \<and> (\<forall>m \<in> set (cs_permits s). \<not> cm_refunded m)"

section \<open>Conservation\<close>

text \<open>One pool replaced, the live charges of the other pools as they were.\<close>

lemma cap_inv_put_pool:
  assumes inv: "cap_inv s" and i: "pool_identity p' = i" "i < cs_next_pool t"
    and pool: "pool_ok (charges_on (live_charges t) i) (cs_next_owner t) p'"
    and others: "\<And>j. j \<noteq> i \<Longrightarrow> charges_on (live_charges t) j = charges_on (live_charges s) j"
    and frame: "cs_pools t = cs_pools s" "cs_next_owner s \<le> cs_next_owner t" "cs_next_pool s \<le> cs_next_pool t"
    and dist: "distinct (map (\<lambda>(i, o', c, b). c) (live_charges t))"
    and known: "\<forall>(j, o', c, b) \<in> set (live_charges t). c < w_next (cs_world t) \<and> (j = i \<or> hget (cs_pools s) j \<noteq> None)"
    and flags: "\<forall>g \<in> set (cs_grants t). \<not> cg_redeemed g" "\<forall>m \<in> set (cs_permits t). \<not> cm_refunded m"
  shows "cap_inv (put_pool p' t)"
proof -
  have L: "live_charges (put_pool p' t) = live_charges t" by (simp add: live_charges_def put_pool_def)
  have P: "cs_pools (put_pool p' t) = hinsert i p' (cs_pools s)" using i frame by (simp add: put_pool_def)
  have "pool_identity p = j \<and> j < cs_next_pool t \<and> pool_ok (charges_on (live_charges t) j) (cs_next_owner t) p"
    if "hget (hinsert i p' (cs_pools s)) j = Some p" for j p
  proof (cases "j = i")
    case True then show ?thesis using that i pool by (simp add: hget_hinsert)
  next
    case False
    then have "hget (cs_pools s) j = Some p" using that by (simp add: hget_hinsert)
    then show ?thesis using inv others [OF False] frame pool_ok_mono by (fastforce simp: cap_inv_def)
  qed
  moreover have "\<forall>(j, o', c, b) \<in> set (live_charges t). c < w_next (cs_world t) \<and> hget (hinsert i p' (cs_pools s)) j \<noteq> None"
    using known by (auto simp: hget_hinsert split: if_splits)
  ultimately show ?thesis
    unfolding cap_inv_def L P using dist flags by (simp add: put_pool_def)
qed

lemma cap_inv_poolD:
  "cap_inv s \<Longrightarrow> hget (cs_pools s) i = Some p \<Longrightarrow>
     pool_identity p = i \<and> i < cs_next_pool s \<and> pool_ok (charges_on (live_charges s) i) (cs_next_owner s) p"
  by (simp add: cap_inv_def)

text \<open>A live charge ends: its value leaves the process and its pool refunds it.\<close>

lemma cap_inv_refund:
  assumes inv: "cap_inv s" and q: "hget (cs_pools s) i = Some q" and mem: "(i, o', c, b) \<in> set (live_charges s)"
    and L: "set (live_charges t) = set (live_charges s) - {(i, o', c, b)}"
    and dist: "distinct (map (\<lambda>(i, o', c, b). c) (live_charges t))"
    and frame: "cs_pools t = cs_pools s" "cs_next_owner t = cs_next_owner s" "cs_next_pool t = cs_next_pool s" "cs_world t = cs_world s"
    and flags: "set (cs_grants t) \<subseteq> set (cs_grants s)" "set (cs_permits t) \<subseteq> set (cs_permits s)"
  shows "cap_inv (put_pool (fst (refund o' c q)) t)"
proof -
  have ok: "pool_identity q = i" "i < cs_next_pool s" "pool_ok (charges_on (live_charges s) i) (cs_next_owner s) q"
    using cap_inv_poolD [OF inv q] by auto
  have T: "charges_on (live_charges t) i = charges_on (live_charges s) i - {(o', c, b)}"
    using L by (auto simp: charges_on_def)
  have r: "pool_ok (charges_on (live_charges t) i) (cs_next_owner s) (fst (refund o' c q))"
      "pool_identity (fst (refund o' c q)) = i"
    using refund_ok [OF ok(3), of o' c b] mem ok(1) unfolding T by (auto simp: charges_on_def)
  show ?thesis
  proof (rule cap_inv_put_pool [OF inv r(2)])
    show "charges_on (live_charges t) j = charges_on (live_charges s) j" if "j \<noteq> i" for j
      using L that by (auto simp: charges_on_def)
    show "\<forall>(j, o', c, b) \<in> set (live_charges t). c < w_next (cs_world t) \<and> (j = i \<or> hget (cs_pools s) j \<noteq> None)"
      using inv unfolding L frame by (auto simp: cap_inv_def)
    show "\<forall>g \<in> set (cs_grants t). \<not> cg_redeemed g" "\<forall>m \<in> set (cs_permits t). \<not> cm_refunded m"
      using inv flags by (auto simp: cap_inv_def)
  qed (use ok(2) r(1) dist frame in auto)
qed

lemma map_remove1_key:
  assumes "distinct (map k (map f xs))" and "x \<in> set xs"
  shows "map f (remove1 x xs) = removeAll (f x) (map f xs)"
proof -
  have "distinct xs" "inj_on f (set xs)"
    using assms(1) by (auto simp: distinct_map inj_on_def)
  then show ?thesis
    using assms(2) by (simp add: distinct_remove1_removeAll map_removeAll_inj_on insert_absorb)
qed

lemma distinct_key_removeAll: "distinct (map k xs) \<Longrightarrow> distinct (map k (removeAll y xs))"
  by (induction xs) auto

abbreviation charge_key :: "identity \<times> identity \<times> identity \<times> nat \<Rightarrow> identity" where
  "charge_key \<equiv> \<lambda>(i, o', c, b). c"

lemma live_charges_remove:
  assumes inv: "cap_inv s"
  shows "g \<in> set (cs_grants s) \<Longrightarrow>
      live_charges (s\<lparr>cs_grants := remove1 g (cs_grants s)\<rparr>) = removeAll (grant_charge g) (live_charges s)"
    and "m \<in> set (cs_permits s) \<Longrightarrow>
      live_charges (s\<lparr>cs_permits := remove1 m (cs_permits s)\<rparr>) = removeAll (permit_charge m) (live_charges s)"
proof -
  have d: "distinct (map charge_key (map grant_charge (cs_grants s)))" "distinct (map charge_key (map permit_charge (cs_permits s)))"
    and disj: "set (map charge_key (map grant_charge (cs_grants s))) \<inter> set (map charge_key (map permit_charge (cs_permits s))) = {}"
    using inv unfolding cap_inv_def live_charges_def map_append distinct_append by blast+
  show "live_charges (s\<lparr>cs_grants := remove1 g (cs_grants s)\<rparr>) = removeAll (grant_charge g) (live_charges s)"
    if g: "g \<in> set (cs_grants s)"
  proof -
    have "grant_charge g \<notin> set (map permit_charge (cs_permits s))"
      using disj g unfolding set_map by blast
    then show ?thesis
      using map_remove1_key [OF d(1) g] by (simp add: live_charges_def removeAll_id)
  qed
  show "live_charges (s\<lparr>cs_permits := remove1 m (cs_permits s)\<rparr>) = removeAll (permit_charge m) (live_charges s)"
    if m: "m \<in> set (cs_permits s)"
  proof -
    have "permit_charge m \<notin> set (map grant_charge (cs_grants s))"
      using disj m unfolding set_map by blast
    then show ?thesis
      using map_remove1_key [OF d(2) m] by (simp add: live_charges_def removeAll_id)
  qed
qed

lemma cap_inv_end_charge:
  assumes inv: "cap_inv s" and q: "hget (cs_pools s) i = Some q" and mem: "(i, o', c, b) \<in> set (live_charges s)"
    and L: "live_charges t = removeAll (i, o', c, b) (live_charges s)"
    and frame: "cs_pools t = cs_pools s" "cs_next_owner t = cs_next_owner s" "cs_next_pool t = cs_next_pool s" "cs_world t = cs_world s"
    and flags: "set (cs_grants t) \<subseteq> set (cs_grants s)" "set (cs_permits t) \<subseteq> set (cs_permits s)"
  shows "cap_inv (put_pool (fst (refund o' c q)) t)"
proof (rule cap_inv_refund [OF inv q mem _ _ frame flags])
  show "set (live_charges t) = set (live_charges s) - {(i, o', c, b)}" using L by simp
  show "distinct (map charge_key (live_charges t))"
    using inv unfolding L cap_inv_def by (blast intro: distinct_key_removeAll)
qed

lemma cap_inv_drop_grant:
  assumes inv: "cap_inv s" and g: "g \<in> set (cs_grants s)" and q: "hget (cs_pools s) (cg_pool g) = Some q"
  shows "cap_inv (put_pool (drop_grant g q) (s\<lparr>cs_grants := remove1 g (cs_grants s)\<rparr>))"
proof -
  have "drop_grant g q = fst (refund (cg_owner g) (cg_charge g) q)"
    using inv g by (auto simp: drop_grant_def cap_inv_def)
  moreover have "(cg_pool g, cg_owner g, cg_charge g, cg_bytes g) \<in> set (live_charges s)"
    using g by (force simp: live_charges_def grant_charge_def)
  ultimately show ?thesis
    using cap_inv_end_charge [OF inv q] live_charges_remove(1) [OF inv g] set_remove1_subset [of g "cs_grants s"]
    by (auto simp: grant_charge_def)
qed

lemma cap_inv_drop_permit:
  assumes inv: "cap_inv s" and m: "m \<in> set (cs_permits s)" and q: "hget (cs_pools s) (cm_ledger m) = Some q"
  shows "cap_inv (put_pool (fst (refund (cm_owner m) (cm_charge m) q)) (s\<lparr>cs_permits := remove1 m (cs_permits s)\<rparr>))"
proof -
  have "(cm_ledger m, cm_owner m, cm_charge m, cm_bytes m) \<in> set (live_charges s)"
    using m by (force simp: live_charges_def permit_charge_def)
  then show ?thesis
    using cap_inv_end_charge [OF inv q] live_charges_remove(2) [OF inv m] set_remove1_subset [of m "cs_permits s"]
    by (auto simp: permit_charge_def)
qed

text \<open>A new or changed pool with the same live charges.\<close>

lemma cap_inv_same_charges:
  assumes inv: "cap_inv s" and i: "pool_identity p' = i" "i < cs_next_pool t"
    and pool: "pool_ok (charges_on (live_charges s) i) (cs_next_owner t) p'"
    and L: "cs_grants t = cs_grants s" "cs_permits t = cs_permits s" "cs_world t = cs_world s"
    and frame: "cs_pools t = cs_pools s" "cs_next_owner s \<le> cs_next_owner t" "cs_next_pool s \<le> cs_next_pool t"
  shows "cap_inv (put_pool p' t)"
proof -
  have "live_charges t = live_charges s" using L by (simp add: live_charges_def)
  then show ?thesis
    using inv L by (intro cap_inv_put_pool [OF inv i _ _ frame]) (auto simp: cap_inv_def pool)
qed

lemma cap_inv_redeem:
  assumes inv: "cap_inv s" and p: "hget (cs_pools s) i = Some p" and g: "g \<in> set (cs_grants s)"
    and r: "redeem g p = (g', Ok m)" and q: "hget (cs_pools s) (cg_pool g) = Some q"
  shows "cap_inv (put_pool (drop_grant g' q) (s\<lparr>cs_grants := remove1 g (cs_grants s), cs_permits := m # cs_permits s\<rparr>))"
    (is "cap_inv (put_pool _ ?t)")
proof -
  have pi: "pool_identity p = i" using cap_inv_poolD [OF inv p] by simp
  have m: "permit_charge m = grant_charge g" "\<not> cm_refunded m" and d: "drop_grant g' q = q"
    using r by (auto simp: redeem_def permit_charge_def grant_charge_def drop_grant_def split: if_splits)
  have mem: "grant_charge g \<in> set (live_charges s)" using g by (simp add: live_charges_def)
  let ?u = "s\<lparr>cs_grants := remove1 g (cs_grants s)\<rparr>"
  have u: "live_charges ?u = removeAll (grant_charge g) (live_charges s)" by (rule live_charges_remove(1) [OF inv g])
  have "set (live_charges ?t) = insert (grant_charge g) (set (live_charges ?u))"
    using m by (auto simp: live_charges_def)
  then have L: "set (live_charges ?t) = set (live_charges s)" using u mem by auto
  have "mset (live_charges ?t) = add_mset (grant_charge g) (mset (live_charges ?u))"
    using m by (simp add: live_charges_def)
  then have "mset (map charge_key (live_charges ?t)) = mset (map charge_key (grant_charge g # live_charges ?u))" by simp
  moreover have "distinct (map charge_key (grant_charge g # live_charges ?u))"
  proof -
    have dist: "distinct (map charge_key (live_charges s))" using inv unfolding cap_inv_def by blast
    then have "charge_key (grant_charge g) \<notin> charge_key ` (set (live_charges s) - {grant_charge g})"
      using mem unfolding distinct_map inj_on_def by blast
    then show ?thesis unfolding u using distinct_key_removeAll [OF dist, of "grant_charge g"] by simp
  qed
  ultimately have dist: "distinct (map charge_key (live_charges ?t))" using mset_eq_imp_distinct_iff by blast
  note qd = cap_inv_poolD [OF inv q]
  have charges: "charges_on (live_charges ?t) j = charges_on (live_charges s) j" for j
    using L by (auto simp: charges_on_def)
  show ?thesis
    unfolding d
  proof (rule cap_inv_put_pool [OF inv, of _ "cg_pool g"])
    show "\<forall>(j, o', c, b) \<in> set (live_charges ?t). c < w_next (cs_world ?t) \<and> (j = cg_pool g \<or> hget (cs_pools s) j \<noteq> None)"
      unfolding L using inv by (auto simp: cap_inv_def)
    show "\<forall>g \<in> set (cs_grants ?t). \<not> cg_redeemed g" "\<forall>m \<in> set (cs_permits ?t). \<not> cm_refunded m"
      using inv m(2) set_remove1_subset [of g "cs_grants s"] by (auto simp: cap_inv_def)
  qed (use qd charges dist in auto)
qed

lemma cap_inv_reserve:
  assumes inv: "cap_inv s" and p: "hget (cs_pools s) i = Some p"
    and r: "reserve owner bytes p (cs_world s) = (p', w', Ok g)"
  shows "cap_inv (put_pool p' (s\<lparr>cs_world := w', cs_grants := g # cs_grants s\<rparr>))" (is "cap_inv (put_pool _ ?t)")
proof -
  note pd = cap_inv_poolD [OF inv p]
  have fresh: "c < w_next (cs_world s)" if "(j, x, c, b) \<in> set (live_charges s)" for j x c b
    using inv that by (auto simp: cap_inv_def)
  have rr: "pool_ok (insert (owner, w_next (cs_world s), bytes) (charges_on (live_charges s) i)) (cs_next_owner s) p'"
     "w_next w' = w_next (cs_world s) + 1"
     "g = \<lparr>cg_owner = owner, cg_bytes = bytes, cg_charge = w_next (cs_world s), cg_pool = i, cg_redeemed = False\<rparr>"
     "pool_identity p' = i"
    using reserve_Ok [OF _ _ r, of "charges_on (live_charges s) i" "cs_next_owner s"] pd fresh
    by (auto simp: charges_on_def)
  have gc: "grant_charge g = (i, owner, w_next (cs_world s), bytes)" using rr(3) by (simp add: grant_charge_def)
  have L: "live_charges ?t = grant_charge g # live_charges s" by (simp add: live_charges_def)
  have c: "charges_on (live_charges ?t) i = insert (owner, w_next (cs_world s), bytes) (charges_on (live_charges s) i)"
    unfolding L gc by (auto simp: charges_on_def)
  show ?thesis
  proof (rule cap_inv_put_pool [OF inv rr(4)])
    show "pool_ok (charges_on (live_charges ?t) i) (cs_next_owner ?t) p'" unfolding c using rr(1) by simp
    show "charges_on (live_charges ?t) j = charges_on (live_charges s) j" if "j \<noteq> i" for j
      unfolding L gc using that by (auto simp: charges_on_def)
    show "distinct (map charge_key (live_charges ?t))"
      unfolding L gc using inv fresh by (auto simp: cap_inv_def)
    show "\<forall>(j, o', c, b) \<in> set (live_charges ?t). c < w_next (cs_world ?t) \<and> (j = i \<or> hget (cs_pools s) j \<noteq> None)"
      unfolding L gc using inv rr(2) by (auto simp: cap_inv_def less_Suc_eq)
    show "\<forall>g \<in> set (cs_grants ?t). \<not> cg_redeemed g" "\<forall>m \<in> set (cs_permits ?t). \<not> cm_refunded m"
      using inv rr(3) by (auto simp: cap_inv_def)
  qed (use pd in auto)
qed

lemma cap_step_inv: "cap_step s t \<Longrightarrow> cap_inv s \<Longrightarrow> cap_inv t"
proof (induction rule: cap_step.induct)
  case (cap_pool s)
  have "charges_on (live_charges s) (cs_next_pool s) = {}"
    using cap_pool by (fastforce simp: cap_inv_def charges_on_def)
  then show ?case
    using cap_pool pool_new_ok by (intro cap_inv_same_charges [of s _ "cs_next_pool s"]) (auto simp: pool_new_def)
next
  case (cap_root s i p limit)
  with cap_inv_poolD [of s i p] show ?case
    by (intro cap_inv_same_charges [of s _ i]) (auto simp: pool_root_ok, auto simp: pool_root_def)
next
  case (cap_child s i p parent limit p' o')
  note ok = cap_inv_poolD [OF cap_child(4,1)]
  have "pool_identity p' = i"
    using ok cap_child(3) by (auto simp: pool_child_def Let_def split: if_splits)
  with ok pool_child_Ok [OF _ cap_child(2,3)] cap_child(4) show ?case
    by (intro cap_inv_same_charges [of s _ i]) auto
next
  case (cap_reserve s i p owner bytes p' w' g)
  then show ?case by (intro cap_inv_reserve)
next
  case (cap_redeem s i p g g' m q)
  then show ?case by (intro cap_inv_redeem)
next
  case (cap_redeem_foreign s i p g g' e q)
  then have "g' = g" by (auto simp: redeem_def split: if_splits)
  with cap_redeem_foreign show ?case using cap_inv_drop_grant by simp
next
  case (cap_drop_grant g s q)
  then show ?case by (intro cap_inv_drop_grant)
next
  case (cap_drop_permit m s q)
  then have "drop_permit m q = fst (refund (cm_owner m) (cm_charge m) q)"
    by (auto simp: drop_permit_def cap_inv_def)
  with cap_drop_permit show ?case using cap_inv_drop_permit by simp
next
  case (cap_release m s q)
  have "fst (release m q) = fst (refund (cm_owner m) (cm_charge m) q)"
    by (simp add: release_def drop_permit_def split: prod.split)
  with cap_release show ?case using cap_inv_drop_permit by simp
next
  case (cap_release_owner s i p owner p' l)
  note ok = cap_inv_poolD [OF cap_release_owner(3,1)]
  with release_owner_Ok [OF _ cap_release_owner(2)] cap_release_owner(3) show ?case
    by (intro cap_inv_same_charges [of s _ i]) auto
next
  case (cap_elsewhere s w')
  have L: "live_charges (s\<lparr>cs_world := w'\<rparr>) = live_charges s" by (simp add: live_charges_def)
  show ?case
    using cap_elsewhere unfolding cap_inv_def L by (simp add: case_prod_beta) (meson less_le_trans)
qed

interpretation capacity: invariant_system cap_init cap_step cap_inv
proof
  fix s show "cap_init s \<Longrightarrow> cap_inv s" by (simp add: cap_init_def cap_inv_def live_charges_def)
qed (rule cap_step_inv)

subsection \<open>Everything beneath one owner\<close>

text \<open>The owners of a pool whose chain of parents leads to \<open>root\<close>, \<open>root\<close> included.\<close>

inductive beneath :: "(identity, owner_row) hmap \<Rightarrow> identity \<Rightarrow> identity \<Rightarrow> bool" for rows root where
  beneath_root: "hget rows root = Some r \<Longrightarrow> beneath rows root root"
| beneath_child: "beneath rows root q \<Longrightarrow> hget rows x = Some r \<Longrightarrow> row_parent r = Some q \<Longrightarrow> beneath rows root x"

lemma beneath_row: "beneath rows root x \<Longrightarrow> \<exists>r. hget rows x = Some r"
  by (induction rule: beneath.induct) auto

lemma hsum_set: "hok m \<Longrightarrow> hsum f m = (\<Sum>k \<in> dom (hget m). f (the (hget m k)))"
proof (induction m)
  case (Cons a m)
  obtain k v where a: "a = (k, v)" by force
  have "k \<notin> dom (hget m)" using Cons.prems a by (simp add: hok_Cons hget_dom [symmetric])
  then have "(\<Sum>x \<in> dom (hget m). f (the (hget (a # m) x))) = (\<Sum>x \<in> dom (hget m). f (the (hget m x)))"
    using a by (intro sum.cong) auto
  moreover have d: "dom (hget (a # m)) = insert k (dom (hget m))" using a by auto
  have "(\<Sum>x \<in> dom (hget (a # m)). f (the (hget (a # m) x))) = f v + (\<Sum>x \<in> dom (hget m). f (the (hget (a # m) x)))"
    unfolding d using \<open>k \<notin> dom (hget m)\<close> a by (subst sum.insert) (auto simp: finite_dom_map_of)
  moreover have "hsum f (a # m) = f v + hsum f m" "hok m" using a Cons.prems by (simp_all add: hok_Cons)
  ultimately show ?case using Cons.IH by metis
qed simp

text \<open>The limits of everybody's children, summed over a subtree, are the limits of all but its root.\<close>

lemma subtree_child_sum:
  assumes ok: "pool_ok T n p" and root: "hget (pool_rows p) root = Some rr"
  defines "D \<equiv> {x. beneath (pool_rows p) root x}"
  shows "(\<Sum>x \<in> D. child_sum (pool_rows p) x) = (\<Sum>x \<in> D - {root}. row_limit (the (hget (pool_rows p) x)))"
proof -
  let ?rows = "pool_rows p" and ?R = "dom (hget (pool_rows p))"
  let ?f = "\<lambda>y. row_limit (the (hget ?rows y))" and ?par = "\<lambda>y. row_parent (the (hget ?rows y))"
  have hokr: "hok ?rows" using ok by (simp add: pool_ok_def)
  have DR: "D \<subseteq> ?R" unfolding D_def using beneath_row by blast
  have finR: "finite ?R" by (simp add: finite_dom_map_of)
  have fin: "finite D" using DR finR by (rule finite_subset)
  have up: "?par y = Some x \<Longrightarrow> y \<in> ?R \<Longrightarrow> x < y" for x y
    using pool_ok_rowD [OF ok] by (auto simp: row_ok_def)
  have up_root: "root \<le> y" if "beneath ?rows root y" for y
    using that
  proof (induction rule: beneath.induct)
    case (beneath_child q x r)
    then show ?case using up [of x q] by (auto simp: dom_def)
  qed simp
  have kids: "{y \<in> ?R. \<exists>x \<in> D. ?par y = Some x} = D - {root}"
  proof (intro set_eqI iffI)
    fix y assume "y \<in> {y \<in> ?R. \<exists>x \<in> D. ?par y = Some x}"
    then obtain x where y: "y \<in> ?R" "?par y = Some x" "x \<in> D" by auto
    then have "y \<in> D" by (auto simp: D_def intro: beneath_child)
    moreover have "y \<noteq> root" using up [OF y(2,1)] up_root [of x] y(3) by (auto simp: D_def)
    ultimately show "y \<in> D - {root}" by simp
  next
    fix y assume "y \<in> D - {root}"
    then show "y \<in> {y \<in> ?R. \<exists>x \<in> D. ?par y = Some x}"
      unfolding D_def using DR by (auto elim: beneath.cases)
  qed
  have "(\<Sum>x \<in> D. child_sum ?rows x) = (\<Sum>x \<in> D. \<Sum>y \<in> ?R. if ?par y = Some x then ?f y else 0)"
    by (simp add: child_sum_def hsum_set [OF hokr])
  also have "\<dots> = (\<Sum>y \<in> ?R. \<Sum>x \<in> D. if ?par y = Some x then ?f y else 0)"
    by (rule sum.swap)
  also have "\<dots> = (\<Sum>y \<in> ?R. if \<exists>x \<in> D. ?par y = Some x then ?f y else 0)"
  proof (rule sum.cong [OF refl])
    fix y
    show "(\<Sum>x \<in> D. if ?par y = Some x then ?f y else 0) = (if \<exists>x \<in> D. ?par y = Some x then ?f y else 0)"
      by (cases "?par y") (auto simp: fin sum.delta)
  qed
  also have "\<dots> = (\<Sum>y \<in> D - {root}. ?f y)"
    using finR by (simp add: sum.inter_filter [symmetric] kids)
  finally show ?thesis .
qed

lemma subtree_bound:
  assumes ok: "pool_ok T n p" and root: "hget (pool_rows p) root = Some rr"
  shows "(\<Sum>x \<in> {x. beneath (pool_rows p) root x}. hsum id (row_outstanding (the (hget (pool_rows p) x)))) \<le> row_limit rr"
proof -
  let ?rows = "pool_rows p" and ?D = "{x. beneath (pool_rows p) root x}"
  let ?row = "\<lambda>x. the (hget (pool_rows p) x)"
  have rD: "root \<in> ?D" using root by (auto intro: beneath_root)
  have fin: "finite ?D"
    by (rule finite_subset [of _ "dom (hget ?rows)"]) (auto simp: finite_dom_map_of dest: beneath_row)
  have row: "row_ok n (child_sum ?rows x) x (?row x)" if "x \<in> ?D" for x
    using that beneath_row [of ?rows root x] pool_ok_rowD [OF ok, of x] by auto
  have "(\<Sum>x \<in> ?D. hsum id (row_outstanding (?row x))) + (\<Sum>x \<in> ?D. child_sum ?rows x) = (\<Sum>x \<in> ?D. row_charged (?row x))"
    unfolding sum.distrib [symmetric] by (rule sum.cong) (use row in \<open>auto simp: row_ok_def\<close>)
  also have "\<dots> \<le> (\<Sum>x \<in> ?D. row_limit (?row x))"
    by (rule sum_mono) (use row in \<open>unfold row_ok_def, blast\<close>)
  also have "\<dots> = row_limit rr + (\<Sum>x \<in> ?D - {root}. row_limit (?row x))"
    using fin rD root by (simp add: sum.remove)
  finally show ?thesis unfolding subtree_child_sum [OF ok root] by (rule add_le_imp_le_right)
qed

section \<open>Properties\<close>

text \<open>The bytes held by the grants and permits alive on pool \<open>i\<close> for owners in \<open>D\<close>.\<close>

definition held_bytes :: "cap_system \<Rightarrow> identity \<Rightarrow> identity set \<Rightarrow> nat" where
  "held_bytes s i D = sum_list (map (\<lambda>(j, o', c, b). b) (filter (\<lambda>(j, o', c, b). j = i \<and> o' \<in> D) (live_charges s)))"

lemma sum_outstanding_charges:
  assumes "hok m"
  shows "hsum id m = (\<Sum>(c, b) \<in> {(c, b). hget m c = Some b}. b)"
proof -
  have "{(c, b). hget m c = Some b} = set m" using assms by (auto simp: hget_Some_iff)
  moreover have "distinct m" using assms by (simp add: hok_def distinct_map)
  ultimately show ?thesis
    by (simp add: hsum_def sum_list_distinct_conv_sum_set case_prod_beta comp_def)
qed

lemma held_bytes_rows:
  assumes inv: "cap_inv s" and p: "hget (cs_pools s) i = Some p" and D: "D \<subseteq> dom (hget (pool_rows p))"
  shows "held_bytes s i D = (\<Sum>x \<in> D. hsum id (row_outstanding (the (hget (pool_rows p) x))))"
proof -
  let ?out = "\<lambda>x. {(c, b). hget (row_outstanding (the (hget (pool_rows p) x))) c = Some b}"
  have ok: "pool_ok (charges_on (live_charges s) i) (cs_next_owner s) p" using cap_inv_poolD [OF inv p] by simp
  have finD: "finite D" using D by (rule finite_subset) (simp add: finite_dom_map_of)
  have fin: "finite (?out x)" for x
  proof (rule finite_subset)
    show "?out x \<subseteq> set (row_outstanding (the (hget (pool_rows p) x)))" by (auto dest: map_of_SomeD)
  qed simp
  have "inj_on charge_key (set (live_charges s))" "distinct (live_charges s)"
    using inv by (auto simp: cap_inv_def distinct_map)
  then have "held_bytes s i D = (\<Sum>(j, o', c, b) \<in> {(j, o', c, b) \<in> set (live_charges s). j = i \<and> o' \<in> D}. b)"
    unfolding held_bytes_def by (simp add: sum_list_distinct_conv_sum_set) (simp add: case_prod_beta')
  also have "{(j, o', c, b) \<in> set (live_charges s). j = i \<and> o' \<in> D} = (\<lambda>(x, cb). (i, x, cb)) ` (SIGMA x:D. ?out x)"
    using ok D by (fastforce simp: pool_ok_def charges_on_def image_iff)
  also have "(\<Sum>(j, o', c, b) \<in> \<dots>. b) = (\<Sum>(x, c, b) \<in> (SIGMA x:D. ?out x). b)"
    by (subst sum.reindex) (auto simp: inj_on_def case_prod_beta comp_def)
  also have "\<dots> = (\<Sum>x \<in> D. \<Sum>(c, b) \<in> ?out x. b)"
    using finD fin by (subst sum.Sigma) (auto simp: case_prod_beta)
  also have "\<dots> = (\<Sum>x \<in> D. hsum id (row_outstanding (the (hget (pool_rows p) x))))"
  proof (rule sum.cong [OF refl])
    fix x assume "x \<in> D"
    then have "hok (row_outstanding (the (hget (pool_rows p) x)))"
      using D pool_ok_rowD [OF ok, of x] by (auto simp: row_ok_def)
    then show "(\<Sum>(c, b) \<in> ?out x. b) = hsum id (row_outstanding (the (hget (pool_rows p) x)))"
      by (simp add: sum_outstanding_charges)
  qed
  finally show ?thesis .
qed

text \<open>
  C27: capacity is conserved. In every reachable state of the process, for every owner of every pool, the
  bytes held by all live grants and permits drawn on that owner or on anything beneath it (children,
  grandchildren, through any history of reserving, redeeming, dropping, releasing and releasing owners)
  never exceed the owner's limit.
\<close>

theorem capacity_conserved:
  assumes "reach cap_init cap_step s" and "hget (cs_pools s) i = Some p" and "hget (pool_rows p) owner = Some row"
  shows "held_bytes s i {x. beneath (pool_rows p) owner x} \<le> row_limit row"
proof -
  have inv: "cap_inv s" by (rule capacity.reach_inv [OF assms(1)])
  have "{x. beneath (pool_rows p) owner x} \<subseteq> dom (hget (pool_rows p))" using beneath_row by blast
  then show ?thesis
    using held_bytes_rows [OF inv assms(2)] subtree_bound [OF _ assms(3)] cap_inv_poolD [OF inv assms(2)] by auto
qed

text \<open>
  A refund always finds its charge, once, at its recorded size. In every reachable state, ending any
  live grant or permit refunds exactly the bytes it was reserved for (the debug assertion of \<open>refund\<close> holds
  and nothing saturates), and no pool ever counts an unknown refund.
\<close>

lemma refund_exact:
  assumes "reach cap_init cap_step s" and "hget (cs_pools s) i = Some p"
  shows "pool_unknown_refunds p = 0 \<and>
    (\<forall>m \<in> set (cs_permits s). cm_ledger m = i \<longrightarrow> snd (release m p) = cm_bytes m \<and>
        charged p (cm_owner m) = charged (fst (release m p)) (cm_owner m) + cm_bytes m) \<and>
    (\<forall>g \<in> set (cs_grants s). cg_pool g = i \<longrightarrow> \<not> cg_redeemed g \<and>
        charged p (cg_owner g) = charged (drop_grant g p) (cg_owner g) + cg_bytes g)"
proof -
  have inv: "cap_inv s" by (rule capacity.reach_inv [OF assms(1)])
  then have ok: "pool_ok (charges_on (live_charges s) i) (cs_next_owner s) p" using cap_inv_poolD assms(2) by blast
  have one: "snd (refund o' c p) = b \<and> charged p o' = charged (fst (refund o' c p)) o' + b"
    if mem: "(i, o', c, b) \<in> set (live_charges s)" for o' c b
  proof -
    obtain r where r: "hget (pool_rows p) o' = Some r" "hget (row_outstanding r) c = Some b"
      using ok mem by (auto simp: pool_ok_def charges_on_def)
    have "b \<le> row_charged r"
      using pool_ok_rowD [OF ok r(1)] hsum_ge [OF r(2), of id] by (simp add: row_ok_def)
    with r show ?thesis by (simp add: refund_def charged_def hget_hinsert)
  qed
  have "permit_charge m \<in> set (live_charges s)" if "m \<in> set (cs_permits s)" for m using that by (simp add: live_charges_def)
  moreover have "grant_charge g \<in> set (live_charges s)" if "g \<in> set (cs_grants s)" for g using that by (simp add: live_charges_def)
  ultimately show ?thesis
    using ok inv one unfolding cap_inv_def pool_ok_def
    by (fastforce simp: release_def drop_permit_def drop_grant_def permit_charge_def grant_charge_def split: prod.splits)
qed

text \<open>The two additions of the source stay within 64 bits when the limits do.\<close>

lemma charged_fits_u64:
  assumes "pool_ok T n p" and "hget (pool_rows p) owner = Some row" and "row_limit row < 2 ^ 64"
  shows "reserve owner bytes p w = (p', w', Ok g) \<Longrightarrow> row_charged row + bytes < 2 ^ 64"
    and "pool_child i owner limit p = (p', Ok i') \<Longrightarrow> row_charged row + limit < 2 ^ 64"
  using pool_ok_rowD [OF assms(1,2)] assms(2,3)
  by (auto simp: row_ok_def reserve_def pool_child_def Let_def split: if_splits)

text \<open>
  A child of an owner the pool does not have is created when its limit is zero, and can then never be
  released: \<open>child\<close> reads the missing row as zero headroom instead of refusing it.
\<close>

theorem orphan_child_accepted:
  assumes "hget (pool_rows p) parent = None" and "hget (pool_rows p) n = None" and "children_of (pool_rows p) n = 0" and "parent \<noteq> n"
  shows "\<exists>p'. pool_child n parent 0 p = (p', Ok n) \<and> release_owner n p' = (p', Err UnknownOwner)"
proof -
  let ?rows = "hinsert n (new_row 0 (Some parent)) (pool_rows p)"
  have "?rows = pool_rows p @ [(n, new_row 0 (Some parent))]"
    using assms(2) by (simp add: hget_None_iff hinsert_fresh)
  then have "children_of ?rows n = 0"
    using assms(3,4) by (simp add: children_of_def new_row_def)
  then show ?thesis
    using assms by (simp add: pool_child_def release_owner_def Let_def hget_hinsert new_row_def)
qed

section \<open>Witnesses\<close>

text \<open>One pool, a root of 100 bytes, a child promised 40 of them, 30 reserved on the child and redeemed.\<close>

definition wit_root_pool :: capacity_pool where
  "wit_root_pool = pool_root 0 100 (pool_new 0)"

definition wit_child_pool :: capacity_pool where
  "wit_child_pool = fst (pool_child 1 0 40 wit_root_pool)"

definition wit_cap0 :: cap_system where
  "wit_cap0 = \<lparr>cs_world = wit_world, cs_next_owner = 0, cs_next_pool = 0, cs_pools = [], cs_grants = [], cs_permits = []\<rparr>"

definition wit_grant_pool :: "capacity_pool \<times> world \<times> (capacity_refusal, capacity_grant) result" where
  "wit_grant_pool = reserve 1 30 wit_child_pool wit_world"

definition wit_cap_permit :: capacity_permit where
  "wit_cap_permit = \<lparr>cm_owner = 1, cm_bytes = 30, cm_charge = 10, cm_ledger = 0, cm_refunded = False\<rparr>"

definition wit_cap :: cap_system where
  "wit_cap = \<lparr>cs_world = wit_world\<lparr>w_next := 11\<rparr>, cs_next_owner = 2, cs_next_pool = 1, cs_pools = [(0, fst wit_grant_pool)],
     cs_grants = [], cs_permits = [wit_cap_permit]\<rparr>"

lemmas wit_cap_defs = wit_root_pool_def wit_child_pool_def wit_cap0_def wit_grant_pool_def wit_cap_permit_def wit_cap_def
  wit_world_def pool_root_def pool_child_def pool_new_def new_row_def reserve_def redeem_def drop_grant_def put_pool_def
  fresh_identity_def

lemma wit_cap_reach: "reach cap_init cap_step wit_cap"
proof -
  let ?s1 = "wit_cap0\<lparr>cs_next_pool := 1, cs_pools := [(0, pool_new 0)]\<rparr>"
  let ?s2 = "?s1\<lparr>cs_next_owner := 1, cs_pools := [(0, wit_root_pool)]\<rparr>"
  let ?s3 = "?s2\<lparr>cs_next_owner := 2, cs_pools := [(0, wit_child_pool)]\<rparr>"
  let ?g = "\<lparr>cg_owner = 1, cg_bytes = 30, cg_charge = 10, cg_pool = 0, cg_redeemed = False\<rparr>"
  let ?s4 = "?s3\<lparr>cs_world := wit_world\<lparr>w_next := 11\<rparr>, cs_pools := [(0, fst wit_grant_pool)], cs_grants := [?g]\<rparr>"
  have "reach cap_init cap_step wit_cap0"
    by (rule reach_init) (simp add: cap_init_def wit_cap0_def)
  moreover have "cap_step wit_cap0 ?s1"
    using cap_pool [of wit_cap0] by (simp add: wit_cap_defs)
  moreover have "cap_step ?s1 ?s2"
    using cap_root [of ?s1 0 "pool_new 0" 100] by (simp add: wit_cap_defs)
  moreover have "cap_step ?s2 ?s3"
    using cap_child [of ?s2 0 wit_root_pool 0 40 wit_child_pool 1] by (simp add: wit_cap_defs numeral_2_eq_2)
  moreover have "cap_step ?s3 ?s4"
    using cap_reserve [of ?s3 0 wit_child_pool 1 30 "fst wit_grant_pool" "wit_world\<lparr>w_next := 11\<rparr>" ?g]
    by (simp add: wit_cap_defs)
  moreover have "cap_step ?s4 wit_cap"
    using cap_redeem [of ?s4 0 "fst wit_grant_pool" ?g "?g\<lparr>cg_redeemed := True\<rparr>" wit_cap_permit "fst wit_grant_pool"]
    by (simp add: wit_cap_defs)
  ultimately show ?thesis by (meson reach_step)
qed

theorem capacity_conserved_witness:
  "\<exists>p row. reach cap_init cap_step wit_cap \<and> hget (cs_pools wit_cap) 0 = Some p \<and> hget (pool_rows p) 0 = Some row \<and>
     row_limit row = 100 \<and> held_bytes wit_cap 0 {x. beneath (pool_rows p) 0 x} \<le> 100"
proof -
  obtain p row where "hget (cs_pools wit_cap) 0 = Some p" "hget (pool_rows p) 0 = Some row" "row_limit row = 100"
    by (simp add: wit_cap_defs)
  with capacity_conserved [OF wit_cap_reach, of 0 p 0 row] show ?thesis using wit_cap_reach by auto
qed

theorem refund_exact_witness:
  "\<exists>p. hget (cs_pools wit_cap) 0 = Some p \<and> pool_unknown_refunds p = 0 \<and> snd (release wit_cap_permit p) = 30"
proof -
  obtain p where p: "hget (cs_pools wit_cap) 0 = Some p" by (simp add: wit_cap_def)
  have "wit_cap_permit \<in> set (cs_permits wit_cap)" "cm_ledger wit_cap_permit = 0" "cm_bytes wit_cap_permit = 30"
    by (simp_all add: wit_cap_def wit_cap_permit_def)
  with refund_exact [OF wit_cap_reach p] p show ?thesis by auto
qed

end
