(* ===== verification/Observer.thy ===== *)
theory Observer
  imports Prelude
begin

text \<open>
  The observer accumulator and the observer slot: \<open>src/index_lifecycle/observer.rs\<close>.

  A stamp derivation is an injected closure that may unwind: \<open>None\<close> is the unwinding run. Tokens and
  observer identities are \<open>nat\<close>.
\<close>

section \<open>Cuts and the coalescing accumulator\<close>

datatype latch_cause = Gap | ScopeDirty | CapacityExhausted | HandoffBarrier

datatype cut_kind =
    Incremental "(nat, nat) hmap"
  | FullBaseline latch_cause

record observation_cut =
  oc_token :: nat
  oc_kind :: cut_kind

record accumulator =
  acc_bound :: nat
  acc_pending :: "(nat, nat) hmap"
  acc_latch :: "latch_cause option"
  acc_next_token :: nat

definition acc_new :: "nat \<Rightarrow> accumulator" where
  "acc_new bound = \<lparr>acc_bound = bound, acc_pending = [], acc_latch = None, acc_next_token = 1\<rparr>"

definition latch :: "latch_cause \<Rightarrow> accumulator \<Rightarrow> accumulator" where
  "latch c acc = acc\<lparr>acc_latch := (case acc_latch acc of None \<Rightarrow> Some c | Some c' \<Rightarrow> Some c')\<rparr>"

text \<open>The flag of the result says that the derivation unwound through the call.\<close>

definition observe :: "nat \<Rightarrow> nat option \<Rightarrow> accumulator \<Rightarrow> accumulator \<times> bool" where
  "observe source derived acc =
     (if hget (acc_pending acc) source = None \<and> length (acc_pending acc) \<ge> acc_bound acc
      then (latch CapacityExhausted acc, False)
      else case derived of
             None \<Rightarrow> (latch ScopeDirty acc, True)
           | Some stamp \<Rightarrow> (acc\<lparr>acc_pending := hinsert source stamp (acc_pending acc)\<rparr>, False))"

definition report_gap :: "accumulator \<Rightarrow> accumulator" where
  "report_gap acc = latch Gap acc"

definition latch_handoff_barrier :: "accumulator \<Rightarrow> accumulator" where
  "latch_handoff_barrier acc = latch HandoffBarrier acc"

definition latch_scope_dirty :: "accumulator \<Rightarrow> accumulator" where
  "latch_scope_dirty acc = latch ScopeDirty acc"

definition pending_count :: "accumulator \<Rightarrow> nat" where
  "pending_count acc = length (acc_pending acc)"

definition acc_cut :: "accumulator \<Rightarrow> accumulator \<times> observation_cut" where
  "acc_cut acc =
     (acc\<lparr>acc_next_token := acc_next_token acc + 1, acc_pending := [], acc_latch := None\<rparr>,
      \<lparr>oc_token = acc_next_token acc,
       oc_kind = (case acc_latch acc of Some c \<Rightarrow> FullBaseline c | None \<Rightarrow> Incremental (acc_pending acc))\<rparr>)"

section \<open>The observer slot\<close>

datatype handoff_refusal =
    PredecessorStillDraining nat
  | NoHandoffInProgress
  | HandoffAlreadyInProgress nat
  | NotTheActiveObserver nat

record observer_slot =
  os_active :: nat
  os_undelivered :: "(nat \<times> observation_cut) list"
  os_pending_successor :: "nat option"

definition slot_new :: "nat \<Rightarrow> observer_slot" where
  "slot_new first = \<lparr>os_active = first, os_undelivered = [], os_pending_successor = None\<rparr>"

definition queue_undelivered ::
  "nat \<Rightarrow> observation_cut \<Rightarrow> observer_slot \<Rightarrow> observer_slot \<times> (handoff_refusal, unit) result" where
  "queue_undelivered producer c s =
     (if producer \<noteq> os_active s then (s, Err (NotTheActiveObserver producer))
      else (s\<lparr>os_undelivered := os_undelivered s @ [(producer, c)]\<rparr>, Ok ()))"

definition begin_handoff :: "nat \<Rightarrow> observer_slot \<Rightarrow> observer_slot \<times> (handoff_refusal, unit) result" where
  "begin_handoff successor s =
     (case os_pending_successor s of
        Some bound_successor \<Rightarrow> (s, Err (HandoffAlreadyInProgress bound_successor))
      | None \<Rightarrow> (s\<lparr>os_pending_successor := Some successor\<rparr>, Ok ()))"

definition deliver_pending :: "observer_slot \<Rightarrow> observer_slot \<times> observation_cut list" where
  "deliver_pending s = (s\<lparr>os_undelivered := []\<rparr>, map snd (os_undelivered s))"

definition complete_handoff :: "observer_slot \<Rightarrow> observer_slot \<times> (handoff_refusal, cut_kind) result" where
  "complete_handoff s =
     (case os_pending_successor s of
        None \<Rightarrow> (s, Err NoHandoffInProgress)
      | Some successor \<Rightarrow>
          if os_undelivered s \<noteq> [] then (s, Err (PredecessorStillDraining (length (os_undelivered s))))
          else (s\<lparr>os_active := successor, os_pending_successor := None\<rparr>, Ok (FullBaseline HandoffBarrier)))"

section \<open>What a cut owes its consumer\<close>

text \<open>
  The calls between two cuts. \<open>Observed source derived\<close> is a call of \<open>observe\<close>, \<open>Latched cause\<close> one of
  the three explicit latches.
\<close>

datatype acc_event = Observed nat "nat option" | Latched latch_cause

fun acc_apply :: "acc_event \<Rightarrow> accumulator \<Rightarrow> accumulator" where
  "acc_apply (Observed s d) acc = fst (observe s d acc)"
| "acc_apply (Latched Gap) acc = report_gap acc"
| "acc_apply (Latched HandoffBarrier) acc = latch_handoff_barrier acc"
| "acc_apply (Latched c) acc = latch_scope_dirty acc"

text \<open>The reference: sources observed, newest stamp of each, and whether a change of unknown content was seen.\<close>

definition observed_sources :: "acc_event list \<Rightarrow> nat set" where
  "observed_sources es = {s. \<exists>d. Observed s d \<in> set es}"

fun newest :: "acc_event list \<Rightarrow> nat \<rightharpoonup> nat" where
  "newest [] = Map.empty"
| "newest (Observed s (Some t) # es) = (newest es)(s := (case newest es s of None \<Rightarrow> Some t | Some t' \<Rightarrow> Some t'))"
| "newest (_ # es) = newest es"

definition unknown_change :: "acc_event \<Rightarrow> bool" where
  "unknown_change e \<longleftrightarrow> (\<exists>c. e = Latched c) \<or> (\<exists>s. e = Observed s None)"

lemma newest_snoc_known:
  "newest (es @ [Observed s (Some t)]) = (newest es)(s \<mapsto> t)"
  by (induction es rule: newest.induct) (auto split: option.splits)

lemma newest_snoc_unknown: "unknown_change e \<Longrightarrow> newest (es @ [e]) = newest es"
  by (induction es rule: newest.induct) (auto simp: unknown_change_def)

lemma latch_set: "\<exists>c'. acc_latch (latch c acc) = Some c'"
  by (simp add: latch_def split: option.split)

lemma acc_apply_unknown:
  "unknown_change e \<Longrightarrow> acc_latch (acc_apply e acc) \<noteq> None"
  by (cases "(e, acc)" rule: acc_apply.cases)
    (auto simp: unknown_change_def observe_def report_gap_def latch_handoff_barrier_def latch_scope_dirty_def latch_set)

lemma acc_apply_latched: "acc_latch acc \<noteq> None \<Longrightarrow> acc_latch (acc_apply e acc) \<noteq> None"
  by (cases "(e, acc)" rule: acc_apply.cases)
    (auto simp: observe_def report_gap_def latch_handoff_barrier_def latch_scope_dirty_def latch_def split: option.split)

lemma acc_apply_frame:
  "acc_bound (acc_apply e acc) = acc_bound acc \<and> acc_next_token (acc_apply e acc) = acc_next_token acc"
  by (cases "(e, acc)" rule: acc_apply.cases)
    (auto simp: observe_def report_gap_def latch_handoff_barrier_def latch_scope_dirty_def latch_def split: option.split)

lemma finite_observed: "finite (observed_sources es)"
proof -
  have "observed_sources es \<subseteq> (\<lambda>e. case e of Observed s d \<Rightarrow> s | Latched c \<Rightarrow> 0) ` set es"
    by (auto simp: observed_sources_def image_iff) (metis acc_event.simps(5))
  then show ?thesis by (rule finite_subset) simp
qed

lemma observed_snoc: "observed_sources (es @ [Observed s d]) = insert s (observed_sources es)"
  by (auto simp: observed_sources_def)

lemma observed_snoc_latched: "observed_sources (es @ [Latched c]) = observed_sources es"
  by (auto simp: observed_sources_def)

lemma length_pending: "hok m \<Longrightarrow> length m = card (dom (hget m))"
  using distinct_card [of "map fst m"] by (simp add: hok_def dom_map_of_conv_image_fst)

text \<open>
  After a run from a drained accumulator: the latch is set exactly when something is unknown or the
  bound was passed; while it is not, the pending map is the newest stamp of every observed source.
\<close>

lemma run_spec:
  assumes "acc_pending acc = []" "acc_latch acc = None"
  defines "run es \<equiv> fold acc_apply es acc"
  shows "acc_bound (run es) = acc_bound acc \<and> acc_next_token (run es) = acc_next_token acc \<and> hok (acc_pending (run es)) \<and>
    (acc_latch (run es) = None \<longleftrightarrow> (\<forall>e \<in> set es. \<not> unknown_change e) \<and> card (observed_sources es) \<le> acc_bound acc) \<and>
    (acc_latch (run es) = None \<longrightarrow> hget (acc_pending (run es)) = newest es \<and> dom (newest es) = observed_sources es)"
proof (induction es rule: rev_induct)
  case Nil
  then show ?case using assms by (simp add: run_def observed_sources_def)
next
  case (snoc e es)
  let ?a = "run es"
  have step: "run (es @ [e]) = acc_apply e ?a" by (simp add: run_def)
  show ?case
  proof (cases "unknown_change e")
    case True
    have "hok (acc_pending (acc_apply e ?a))"
      using snoc by (cases "(e, ?a)" rule: acc_apply.cases)
        (auto simp: observe_def report_gap_def latch_handoff_barrier_def latch_scope_dirty_def latch_def split: option.splits)
    then show ?thesis
      using snoc True acc_apply_unknown [OF True, of ?a] acc_apply_frame [of e ?a] unfolding step by auto
  next
    case False
    then obtain s t where e: "e = Observed s (Some t)"
      by (cases e) (auto simp: unknown_change_def)
    show ?thesis
    proof (cases "acc_latch ?a")
      case (Some c)
      then have l: "acc_latch (acc_apply e ?a) \<noteq> None" using acc_apply_latched by simp
      have "card (observed_sources es) \<le> card (observed_sources (es @ [e]))"
        unfolding e observed_snoc by (rule card_mono) (auto simp: finite_observed)
      moreover have "hok (acc_pending (acc_apply e ?a))" using snoc unfolding e by (auto simp: observe_def latch_def)
      ultimately show ?thesis
        using snoc l Some acc_apply_frame [of e ?a] unfolding step by (auto simp: e)
    next
      case None
      with snoc have p: "hget (acc_pending ?a) = newest es" "dom (newest es) = observed_sources es" "hok (acc_pending ?a)"
        and b: "card (observed_sources es) \<le> acc_bound acc" "acc_bound ?a = acc_bound acc" "acc_next_token ?a = acc_next_token acc"
        and u: "\<forall>e \<in> set es. \<not> unknown_change e" by auto
      have len: "length (acc_pending ?a) = card (observed_sources es)" using length_pending [OF p(3)] p(1,2) by simp
      have fin: "finite (observed_sources es)" by (rule finite_observed)
      show ?thesis
      proof (cases "s \<notin> observed_sources es \<and> card (observed_sources es) \<ge> acc_bound acc")
        case True
        then have "hget (acc_pending ?a) s = None" using p by (metis domIff)
        with True None len b have r: "acc_apply e ?a = latch CapacityExhausted ?a" by (simp add: e observe_def)
        have "acc_bound acc < card (observed_sources (es @ [e]))"
          unfolding e observed_snoc using True fin by simp
        then show ?thesis
          unfolding step r using p b latch_set [of CapacityExhausted ?a] by (auto simp: latch_def)
      next
        case False
        then have "hget (acc_pending ?a) s \<noteq> None \<or> length (acc_pending ?a) < acc_bound ?a" using p len b by (auto simp: domIff)
        then have r: "acc_apply e ?a = ?a\<lparr>acc_pending := hinsert s t (acc_pending ?a)\<rparr>"
          by (auto simp: e observe_def)
        have "card (observed_sources (es @ [e])) \<le> acc_bound acc"
          unfolding e observed_snoc using False b fin by (cases "s \<in> observed_sources es") (auto simp: insert_absorb)
        moreover have "hget (hinsert s t (acc_pending ?a)) = newest (es @ [e])"
          using p(1) by (simp add: e newest_snoc_known update_conv')
        moreover have "dom (newest (es @ [e])) = observed_sources (es @ [e])"
          using p(2) by (simp add: e newest_snoc_known observed_snoc)
        ultimately show ?thesis
          unfolding step r using p b u None \<open>\<not> unknown_change e\<close> by auto
      qed
    qed
  qed
qed

section \<open>The slot as a machine\<close>

inductive slot_step :: "observer_slot \<Rightarrow> observer_slot \<Rightarrow> bool" where
  slot_queue: "slot_step s (fst (queue_undelivered producer c s))"
| slot_begin: "slot_step s (fst (begin_handoff successor s))"
| slot_deliver: "slot_step s (fst (deliver_pending s))"
| slot_complete: "slot_step s (fst (complete_handoff s))"

definition slot_init :: "observer_slot \<Rightarrow> bool" where
  "slot_init s \<longleftrightarrow> (\<exists>first. s = slot_new first)"

text \<open>Undelivered cuts were all produced by the observer now active.\<close>

definition slot_inv :: "observer_slot \<Rightarrow> bool" where
  "slot_inv s \<longleftrightarrow> (\<forall>(p, c) \<in> set (os_undelivered s). p = os_active s)"

lemma slot_step_inv: "slot_inv s \<Longrightarrow> slot_step s t \<Longrightarrow> slot_inv t"
  by (erule slot_step.cases)
    (auto simp: slot_inv_def queue_undelivered_def begin_handoff_def deliver_pending_def complete_handoff_def
      split: option.splits)

interpretation slot: invariant_system slot_init slot_step slot_inv
proof
  fix s show "slot_init s \<Longrightarrow> slot_inv s" by (auto simp: slot_init_def slot_inv_def slot_new_def)
qed (rule slot_step_inv)

section \<open>Properties\<close>

text \<open>
  C30: a cut loses no observed change. Between two cuts let any sequence of observations, gaps, handoffs
  and dirty scopes reach the accumulator. The second cut's token is larger than the first's. If nothing of
  unknown content was reported and at most \<open>bound\<close> distinct sources were observed, it is incremental and
  carries, for exactly the observed sources, the newest stamp of each; otherwise it demands a full baseline.
\<close>

theorem cut_loses_nothing:
  "case acc_cut acc of (acc', first) \<Rightarrow>
     case acc_cut (fold acc_apply es acc') of (acc'', second) \<Rightarrow>
       oc_token first < oc_token second \<and>
       (if (\<forall>e \<in> set es. \<not> unknown_change e) \<and> card (observed_sources es) \<le> acc_bound acc
        then \<exists>inv. oc_kind second = Incremental inv \<and> hget inv = newest es \<and> dom (hget inv) = observed_sources es
        else \<exists>cause. oc_kind second = FullBaseline cause) \<and>
       pending_count acc'' = 0 \<and> acc_latch acc'' = None"
  using run_spec [of "fst (acc_cut acc)" es]
  by (auto simp: acc_cut_def pending_count_def split: option.split)

text \<open>
  A handoff never overtakes its predecessor's cuts. In every reachable state of the slot, if completing
  the handoff succeeds, the predecessor has no undelivered cut, the observer that becomes active is the one
  bound when the handoff began, and its first obligation is a full baseline; and whatever is delivered later
  was produced by the observer then active, so a replaced observer's late cut never enters the queue.
\<close>

lemma handoff_drains_predecessor:
  assumes "reach slot_init slot_step s"
  shows "(case complete_handoff s of
            (t, Ok k) \<Rightarrow> os_undelivered s = [] \<and> os_pending_successor s = Some (os_active t) \<and>
               os_pending_successor t = None \<and> k = FullBaseline HandoffBarrier
          | (t, Err e) \<Rightarrow> t = s) \<and>
    snd (deliver_pending s) = [c. (p, c) \<leftarrow> os_undelivered s, p = os_active s] \<and>
    (producer \<noteq> os_active s \<longrightarrow> queue_undelivered producer c s = (s, Err (NotTheActiveObserver producer)))"
proof -
  have own: "map snd q = [c. (p, c) \<leftarrow> q, p = a]" if "\<forall>(p, c) \<in> set q. p = a"
    for q :: "(nat \<times> observation_cut) list" and a
    using that by (induction q) auto
  have "slot_inv s" by (rule slot.reach_inv [OF assms])
  then have "map snd (os_undelivered s) = [c. (p, c) \<leftarrow> os_undelivered s, p = os_active s]"
    unfolding slot_inv_def by (rule own)
  then show ?thesis
    by (auto simp: complete_handoff_def deliver_pending_def queue_undelivered_def split: option.split)
qed

section \<open>Witnesses\<close>

definition wit_slot :: observer_slot where
  "wit_slot = \<lparr>os_active = 1, os_undelivered = [(1, \<lparr>oc_token = 1, oc_kind = FullBaseline Gap\<rparr>)], os_pending_successor = Some 2\<rparr>"

lemma wit_slot_reach: "reach slot_init slot_step wit_slot"
proof -
  let ?s1 = "fst (queue_undelivered 1 \<lparr>oc_token = 1, oc_kind = FullBaseline Gap\<rparr> (slot_new 1))"
  have "reach slot_init slot_step (slot_new 1)" by (rule reach_init) (auto simp: slot_init_def)
  then have "reach slot_init slot_step (fst (begin_handoff 2 ?s1))" by (meson reach_step slot_queue slot_begin)
  then show ?thesis by (simp add: wit_slot_def slot_new_def queue_undelivered_def begin_handoff_def)
qed

theorem handoff_drains_predecessor_witness:
  "reach slot_init slot_step wit_slot \<and> complete_handoff wit_slot = (wit_slot, Err (PredecessorStillDraining 1)) \<and>
   snd (deliver_pending wit_slot) = [\<lparr>oc_token = 1, oc_kind = FullBaseline Gap\<rparr>]"
  using handoff_drains_predecessor [OF wit_slot_reach] wit_slot_reach
  by (simp add: wit_slot_def complete_handoff_def)

theorem cut_loses_nothing_witness:
  "oc_kind (snd (acc_cut (fold acc_apply [Observed 7 (Some 1), Observed 7 (Some 2)] (fst (acc_cut (acc_new 1)))))) =
     Incremental [(7, 2)]"
  using cut_loses_nothing [of "[Observed 7 (Some 1), Observed 7 (Some 2)]" "acc_new 1"]
  by (simp add: acc_cut_def acc_new_def observe_def)

end
