(* ===== verification/Domain.thy ===== *)
theory Domain
  imports Prelude
begin

text \<open>
  The vocabulary of the index: \<open>src/domain/index.rs\<close>.

  Languages and how a path selects one, the noise classification of a path, ingest targets, what a scout decides about a
  path, what became of it (its disposition), and the freshness of a published view. Strings are lists of bytes
  (\<open>string\<close>), as \<open>str\<close> compares and splits them; a \<open>SystemTime\<close> is a \<open>nat\<close>.
\<close>

section \<open>Strings\<close>

text \<open>The string operations of the standard library the classifiers use.\<close>

definition ascii_lower :: "char \<Rightarrow> char" where
  "ascii_lower c = (if 65 \<le> (of_char c :: nat) \<and> (of_char c :: nat) \<le> 90 then char_of (of_char c + 32 :: nat) else c)"

definition to_ascii_lower :: "string \<Rightarrow> string" where
  "to_ascii_lower s = map ascii_lower s"

fun split_at :: "(char \<Rightarrow> bool) \<Rightarrow> string \<Rightarrow> string list" where
  "split_at sep [] = [[]]"
| "split_at sep (c # cs) =
     (if sep c then [] # split_at sep cs
      else case split_at sep cs of [] \<Rightarrow> [[c]] | w # ws \<Rightarrow> (c # w) # ws)"

abbreviation is_slash :: "char \<Rightarrow> bool" where
  "is_slash c \<equiv> c = CHR ''/'' \<or> c = CHR 0x5C"

definition rsplit_once :: "char \<Rightarrow> string \<Rightarrow> (string \<times> string) option" where
  "rsplit_once c s =
     (let r = takeWhile (\<lambda>x. x \<noteq> c) (rev s)
      in if length r = length s then None else Some (rev (drop (length r + 1) (rev s)), rev r))"

fun contains_str :: "string \<Rightarrow> string \<Rightarrow> bool" where
  "contains_str needle [] \<longleftrightarrow> needle = []"
| "contains_str needle (c # cs) \<longleftrightarrow> prefix needle (c # cs) \<or> contains_str needle cs"

section \<open>Languages\<close>

datatype language_id =
    LangRust | LangPython | LangJavaScript | LangTypeScript | LangGo | LangJava | LangC | LangCpp | LangCSharp |
    LangRuby | LangPhp | LangSwift | LangKotlin | LangDart | LangPerl | LangElixir | LangJson | LangToml |
    LangYaml | LangMarkdown | LangText | LangEnv | LangHtml | LangCss | LangScss

definition ALL_LANGUAGES :: "language_id list" where
  "ALL_LANGUAGES =
     [LangRust, LangPython, LangJavaScript, LangTypeScript, LangGo, LangJava, LangC, LangCpp, LangCSharp, LangRuby,
      LangPhp, LangSwift, LangKotlin, LangDart, LangPerl, LangElixir, LangJson, LangToml, LangYaml, LangMarkdown,
      LangText, LangEnv, LangHtml, LangCss, LangScss]"

fun language_name :: "language_id \<Rightarrow> string" where
  "language_name LangRust = ''rust''"
| "language_name LangPython = ''python''"
| "language_name LangJavaScript = ''javascript''"
| "language_name LangTypeScript = ''typescript''"
| "language_name LangGo = ''go''"
| "language_name LangJava = ''java''"
| "language_name LangC = ''c''"
| "language_name LangCpp = ''cpp''"
| "language_name LangCSharp = ''csharp''"
| "language_name LangRuby = ''ruby''"
| "language_name LangPhp = ''php''"
| "language_name LangSwift = ''swift''"
| "language_name LangKotlin = ''kotlin''"
| "language_name LangDart = ''dart''"
| "language_name LangPerl = ''perl''"
| "language_name LangElixir = ''elixir''"
| "language_name LangJson = ''json''"
| "language_name LangToml = ''toml''"
| "language_name LangYaml = ''yaml''"
| "language_name LangMarkdown = ''markdown''"
| "language_name LangText = ''text''"
| "language_name LangEnv = ''env''"
| "language_name LangHtml = ''html''"
| "language_name LangCss = ''css''"
| "language_name LangScss = ''scss''"

fun language_display :: "language_id \<Rightarrow> string" where
  "language_display LangRust = ''Rust''"
| "language_display LangPython = ''Python''"
| "language_display LangJavaScript = ''JavaScript''"
| "language_display LangTypeScript = ''TypeScript''"
| "language_display LangGo = ''Go''"
| "language_display LangJava = ''Java''"
| "language_display LangC = ''C''"
| "language_display LangCpp = ''C++''"
| "language_display LangCSharp = ''C#''"
| "language_display LangRuby = ''Ruby''"
| "language_display LangPhp = ''PHP''"
| "language_display LangSwift = ''Swift''"
| "language_display LangKotlin = ''Kotlin''"
| "language_display LangDart = ''Dart''"
| "language_display LangPerl = ''Perl''"
| "language_display LangElixir = ''Elixir''"
| "language_display LangJson = ''JSON''"
| "language_display LangToml = ''TOML''"
| "language_display LangYaml = ''YAML''"
| "language_display LangMarkdown = ''Markdown''"
| "language_display LangText = ''Text''"
| "language_display LangEnv = ''Env''"
| "language_display LangHtml = ''HTML''"
| "language_display LangCss = ''CSS''"
| "language_display LangScss = ''SCSS''"

definition from_extension :: "string \<Rightarrow> language_id option" where
  "from_extension ext =
     (let e = to_ascii_lower ext in
      if e = ''rs'' then Some LangRust
      else if e = ''py'' then Some LangPython
      else if e \<in> set [''js'', ''jsx'', ''cjs'', ''mjs''] then Some LangJavaScript
      else if e \<in> set [''ts'', ''tsx''] then Some LangTypeScript
      else if e = ''go'' then Some LangGo
      else if e = ''java'' then Some LangJava
      else if e \<in> set [''c'', ''h''] then Some LangC
      else if e \<in> set [''cpp'', ''cxx'', ''cc'', ''hpp'', ''hxx'', ''hh''] then Some LangCpp
      else if e = ''cs'' then Some LangCSharp
      else if e = ''rb'' then Some LangRuby
      else if e = ''php'' then Some LangPhp
      else if e = ''swift'' then Some LangSwift
      else if e = ''dart'' then Some LangDart
      else if e \<in> set [''kt'', ''kts''] then Some LangKotlin
      else if e \<in> set [''pl'', ''pm''] then Some LangPerl
      else if e \<in> set [''ex'', ''exs''] then Some LangElixir
      else if e = ''json'' then Some LangJson
      else if e = ''toml'' then Some LangToml
      else if e \<in> set [''yaml'', ''yml''] then Some LangYaml
      else if e \<in> set [''md'', ''mdx''] then Some LangMarkdown
      else if e \<in> set [''txt'', ''text'', ''rst'', ''adoc'', ''asciidoc'', ''org'', ''ini'', ''conf'', ''properties'', ''xml'', ''json5''] then Some LangText
      else if e = ''env'' then Some LangEnv
      else if e = ''html'' then Some LangHtml
      else if e = ''css'' then Some LangCss
      else if e = ''scss'' then Some LangScss
      else None)"

fun extensions :: "language_id \<Rightarrow> string list" where
  "extensions LangRust = [''rs'']"
| "extensions LangPython = [''py'']"
| "extensions LangJavaScript = [''js'', ''jsx'', ''cjs'', ''mjs'']"
| "extensions LangTypeScript = [''ts'', ''tsx'']"
| "extensions LangGo = [''go'']"
| "extensions LangJava = [''java'']"
| "extensions LangC = [''c'', ''h'']"
| "extensions LangCpp = [''cpp'', ''cxx'', ''cc'', ''hpp'', ''hxx'', ''hh'']"
| "extensions LangCSharp = [''cs'']"
| "extensions LangRuby = [''rb'']"
| "extensions LangPhp = [''php'']"
| "extensions LangSwift = [''swift'']"
| "extensions LangKotlin = [''kt'', ''kts'']"
| "extensions LangDart = [''dart'']"
| "extensions LangPerl = [''pl'', ''pm'']"
| "extensions LangElixir = [''ex'', ''exs'']"
| "extensions LangJson = [''json'']"
| "extensions LangToml = [''toml'']"
| "extensions LangYaml = [''yaml'', ''yml'']"
| "extensions LangMarkdown = [''md'', ''mdx'']"
| "extensions LangText = [''txt'', ''text'', ''rst'', ''adoc'', ''asciidoc'', ''org'', ''ini'', ''conf'', ''properties'', ''xml'', ''json5'']"
| "extensions LangEnv = [''env'']"
| "extensions LangHtml = [''html'']"
| "extensions LangCss = [''css'']"
| "extensions LangScss = [''scss'']"

definition is_code_language :: "language_id \<Rightarrow> bool" where
  "is_code_language l \<longleftrightarrow>
     l \<notin> set [LangJson, LangToml, LangYaml, LangMarkdown, LangText, LangEnv, LangHtml, LangCss, LangScss]"

definition last_segment :: "string \<Rightarrow> string" where
  "last_segment relative_path = last (split_at is_slash relative_path)"

definition from_path :: "string \<Rightarrow> language_id option" where
  "from_path relative_path =
     (let basename = to_ascii_lower (last_segment relative_path)
      in if basename = ''.env'' \<or> prefix ''.env.'' basename then Some LangEnv
         else if basename \<in> set [''readme'', ''changelog'', ''license'', ''notice'', ''agents'', ''claude'', ''contributing'',
            ''security'', ''governance'', ''.gitignore'', ''.gitattributes'', ''.editorconfig''] then Some LangText
         else case rsplit_once (CHR ''.'') basename of None \<Rightarrow> None | Some (_, extension) \<Rightarrow> from_extension extension)"

definition has_extension :: "string \<Rightarrow> string \<Rightarrow> bool" where
  "has_extension ext relative_path =
     (case rsplit_once (CHR ''.'') (last_segment relative_path) of None \<Rightarrow> False | Some (_, e) \<Rightarrow> to_ascii_lower e = ext)"

definition is_tsx_path :: "string \<Rightarrow> bool" where
  "is_tsx_path relative_path = has_extension ''tsx'' relative_path"

definition is_c_header_path :: "string \<Rightarrow> bool" where
  "is_c_header_path relative_path = has_extension ''h'' relative_path"

datatype support_tier = QualityFocus | Broader | Unsupported

definition support_tier_of :: "language_id \<Rightarrow> support_tier" where
  "support_tier_of l = (if l \<in> set [LangRust, LangPython, LangJavaScript, LangTypeScript, LangGo] then QualityFocus else Broader)"

section \<open>Ingest targets and classification\<close>

datatype index_targets = CodeTarget | KnowledgeTarget | CodeAndKnowledge

definition is_dual_target_text_path :: "string \<Rightarrow> bool" where
  "is_dual_target_text_path relative_path =
     (let basename = to_ascii_lower (last_segment relative_path)
      in (case rsplit_once (CHR ''.'') basename of
            None \<Rightarrow> False
          | Some (_, ext) \<Rightarrow> ext \<in> set [''ini'', ''conf'', ''properties'', ''xml'', ''json5'']) \<or>
         basename \<in> set [''.gitignore'', ''.gitattributes'', ''.editorconfig'', ''dockerfile''])"

definition targets_for_path :: "string \<Rightarrow> language_id option \<Rightarrow> index_targets" where
  "targets_for_path relative_path language =
     (case language of
        None \<Rightarrow> KnowledgeTarget
      | Some l \<Rightarrow>
          if l = LangMarkdown then KnowledgeTarget
          else if l \<in> set [LangJson, LangToml, LangYaml, LangEnv] then CodeAndKnowledge
          else if l = LangText then (if is_dual_target_text_path relative_path then CodeAndKnowledge else KnowledgeTarget)
          else CodeTarget)"

definition includes_code :: "index_targets \<Rightarrow> bool" where
  "includes_code t \<longleftrightarrow> t = CodeTarget \<or> t = CodeAndKnowledge"

definition includes_knowledge :: "index_targets \<Rightarrow> bool" where
  "includes_knowledge t \<longleftrightarrow> t = KnowledgeTarget \<or> t = CodeAndKnowledge"

datatype file_class = CodeClass | TextClass | BinaryClass

record file_classification =
  fc_class :: file_class
  fc_is_generated :: bool
  fc_is_test :: bool
  fc_is_vendor :: bool
  fc_is_config :: bool

definition VENDOR_PATH_SEGMENTS :: "string list" where
  "VENDOR_PATH_SEGMENTS =
     [''vendor'', ''third_party'', ''third-party'', ''node_modules'', ''.venv'', ''venv'', ''site-packages'', ''pods'',
      ''bower_components'', ''deps'', ''extern'', ''externals'']"

definition GENERATED_PATH_SEGMENTS :: "string list" where
  "GENERATED_PATH_SEGMENTS = [''dist'', ''generated'', ''__generated__'', ''generated-sources'']"

definition TEST_PATH_SEGMENTS :: "string list" where
  "TEST_PATH_SEGMENTS =
     [''tests'', ''test'', ''__tests__'', ''spec'', ''test_data'', ''testdata'', ''fixtures'', ''__fixtures__'', ''__snapshots__'']"

definition for_code_path :: "string \<Rightarrow> file_classification" where
  "for_code_path relative_path =
     (let lower = to_ascii_lower (map (\<lambda>c. if c = CHR 0x5C then CHR ''/'' else c) relative_path);
          segments = filter (\<lambda>s. s \<noteq> []) (split_at (\<lambda>c. c = CHR ''/'') lower);
          basename = (if segments = [] then [] else last segments);
          stem = (case rsplit_once (CHR ''.'') basename of None \<Rightarrow> basename | Some (name, _) \<Rightarrow> name);
          ext = (case rsplit_once (CHR ''.'') basename of None \<Rightarrow> [] | Some (_, e) \<Rightarrow> e)
      in \<lparr>fc_class = CodeClass,
          fc_is_generated = (list_ex (\<lambda>s. s \<in> set GENERATED_PATH_SEGMENTS) segments \<or>
            contains_str ''.generated.'' basename \<or> contains_str ''.gen.'' basename \<or>
            list_ex (\<lambda>e. suffix e basename) [''.g.dart'', ''.pb.go'', ''.designer.cs'', ''.min.js'', ''.min.css'', ''.map'']),
          fc_is_test = (list_ex (\<lambda>s. s \<in> set TEST_PATH_SEGMENTS) segments \<or>
            stem \<in> set [''test'', ''tests'', ''testutil'', ''testutils''] \<or> prefix ''test_'' stem \<or>
            list_ex (\<lambda>e. suffix e stem) [''_test'', ''.test'', ''_spec'', ''.spec'']),
          fc_is_vendor = list_ex (\<lambda>s. s \<in> set VENDOR_PATH_SEGMENTS) segments,
          fc_is_config = (ext \<in> set [''json'', ''toml'', ''yaml'', ''yml'', ''md'', ''env''])\<rparr>)"

definition for_indexed_path :: "string \<Rightarrow> index_targets \<Rightarrow> file_classification" where
  "for_indexed_path relative_path targets =
     (for_code_path relative_path)\<lparr>fc_class := (if targets = KnowledgeTarget then TextClass else CodeClass),
        fc_is_config := (targets = CodeAndKnowledge)\<rparr>"

section \<open>Catalog, scout and disposition\<close>

record catalog_path =
  public_id :: string
  normalized_utf8 :: "string option"

datatype metadata_only_reason =
    Lockfile | Binary | OversizedData | GeneratedOrVendor
  | SensitivePath string
  | SensitiveContent "string list" nat
  | LfsPointer "string option" "nat option"
  | UnsupportedPathEncoding | PathMetadataTooLarge | UnsupportedTextEncoding

datatype hard_skip_reason = ArtifactType | PerFileCeiling

datatype access_stage = MetadataStage | ProbeStage | FullReadStage

datatype access_error_kind = AccessNotFound | AccessPermissionDenied | AccessInvalidData | AccessResourceExhausted | AccessOther

record file_stamp =
  fs_size :: nat
  fs_created_hint :: "nat option"
  fs_modified_hint :: "nat option"
  fs_platform_id :: "bytes option"

datatype scout_decision =
    Ingest index_targets
  | ScoutMetadataOnly metadata_only_reason
  | ScoutHardSkip hard_skip_reason
  | Unavailable access_stage access_error_kind

record scouted_entry =
  se_path :: catalog_path
  se_absolute_path :: "string option"
  se_stamp :: file_stamp
  se_language :: "language_id option"
  se_classification :: file_classification
  se_decision :: scout_decision

datatype coverage_status = CoverageComplete | CoverageDegraded

datatype freshness_reason =
    ObservationFailed | WatcherUnavailable | ReconciliationPending | SnapshotVerificationFailed
  | DerivedPublicationPending | CatalogEntryCapacityExceeded | CatalogMetadataCapacityExceeded

datatype freshness_status = FreshCurrent | FreshVerifying | FreshDegraded nat "freshness_reason list"

datatype scout_issue_kind =
    DirectoryEntryUnreadable access_error_kind | ScopeEscape | UnsupportedSpecialFile | PathIdentityCollision | TraversalCircuitBreaker

record scout_issue =
  is_path_id :: "string option"
  is_safe_path :: "string option"
  is_kind :: scout_issue_kind
  is_safe_message :: string

record manifest_resource_usage =
  mu_catalog_entries :: nat
  mu_catalog_metadata_bytes :: nat
  mu_admitted_content_bytes :: nat

datatype file_outcome = Processed | OutcomePartialParse string | OutcomeFailed string

datatype parse_status = StatusParsed | StatusPartialParse | StatusFailed

fun from_operational_outcome :: "file_outcome \<Rightarrow> parse_status" where
  "from_operational_outcome Processed = StatusParsed"
| "from_operational_outcome (OutcomePartialParse _) = StatusPartialParse"
| "from_operational_outcome (OutcomeFailed _) = StatusFailed"

definition status_or_failed :: "parse_status option \<Rightarrow> parse_status" where
  "status_or_failed s = (case s of None \<Rightarrow> StatusFailed | Some s \<Rightarrow> s)"

definition aggregate_for_targets :: "index_targets \<Rightarrow> parse_status option \<Rightarrow> parse_status option \<Rightarrow> parse_status" where
  "aggregate_for_targets targets code knowledge =
     (case targets of
        CodeTarget \<Rightarrow> status_or_failed code
      | KnowledgeTarget \<Rightarrow> status_or_failed knowledge
      | CodeAndKnowledge \<Rightarrow>
          (let selected = [status_or_failed code, status_or_failed knowledge]
           in if list_all (\<lambda>s. s = StatusParsed) selected then StatusParsed
              else if list_all (\<lambda>s. s = StatusFailed) selected then StatusFailed
              else StatusPartialParse))"

datatype file_disposition =
    DispIndexed index_targets parse_status
  | DispMetadataOnly metadata_only_reason
  | DispHardSkip hard_skip_reason
  | Unreadable access_stage access_error_kind
  | UnstableDuringRead
  | AbortedCircuitBreaker

record catalog_entry =
  ce_path :: catalog_path
  ce_size :: nat
  ce_language :: "language_id option"
  ce_classification :: file_classification
  ce_disposition :: file_disposition
  ce_content_hash :: "string option"

section \<open>Symbols and references\<close>

datatype symbol_kind =
    SymFunction | SymMethod | SymClass | SymStruct | SymEnum | SymInterface | SymModule | SymConstant | SymVariable
  | SymType | SymTrait | SymImpl | SymOther | SymKey | SymSection | SymMacroGenerated

fun symbol_kind_display :: "symbol_kind \<Rightarrow> string" where
  "symbol_kind_display SymFunction = ''fn''"
| "symbol_kind_display SymMethod = ''fn''"
| "symbol_kind_display SymClass = ''class''"
| "symbol_kind_display SymStruct = ''struct''"
| "symbol_kind_display SymEnum = ''enum''"
| "symbol_kind_display SymInterface = ''interface''"
| "symbol_kind_display SymModule = ''mod''"
| "symbol_kind_display SymConstant = ''const''"
| "symbol_kind_display SymVariable = ''let''"
| "symbol_kind_display SymType = ''type''"
| "symbol_kind_display SymTrait = ''trait''"
| "symbol_kind_display SymImpl = ''impl''"
| "symbol_kind_display SymOther = ''other''"
| "symbol_kind_display SymKey = ''key''"
| "symbol_kind_display SymSection = ''section''"
| "symbol_kind_display SymMacroGenerated = ''macro-generated''"

record symbol_row =
  sy_name :: string
  sy_kind :: symbol_kind
  sy_byte_range :: "nat \<times> nat"
  sy_line_range :: "nat \<times> nat"

datatype reference_kind = RefCall | RefImport | RefTypeUsage | RefMacroUse | RefImplements | RefValueUse

record reference_record =
  rf_name :: string
  rf_qualified_name :: "string option"
  rf_kind :: reference_kind
  rf_byte_range :: "nat \<times> nat"
  rf_line_range :: "nat \<times> nat"
  rf_enclosing_symbol_index :: "nat option"

section \<open>Lemmas\<close>

lemma extension_table: "from_extension ext = Some l \<longleftrightarrow> to_ascii_lower ext \<in> set (extensions l)"
  unfolding from_extension_def Let_def by (cases l) simp_all

lemma all_languages: "set ALL_LANGUAGES = UNIV" "distinct ALL_LANGUAGES"
  by (auto simp: ALL_LANGUAGES_def intro: language_id.exhaust)

lemma language_name_inj: "language_name l = language_name m \<Longrightarrow> l = m"
proof -
  have "distinct (map language_name ALL_LANGUAGES)" by (simp add: ALL_LANGUAGES_def)
  then have "inj language_name" using all_languages(1) by (simp add: distinct_map)
  then show "language_name l = language_name m \<Longrightarrow> l = m" by (rule injD)
qed

end
