(* ===== verification/Candidate.thy ===== *)
theory Candidate
  imports Domain Capacity
begin

text \<open>
  The per-source supervisor and the isolated candidate pipeline: \<open>src/index_lifecycle/supervisor.rs\<close> and
  \<open>src/index_lifecycle/candidate.rs\<close>.

  A supervisor is shared behind a mutex by its attempts and candidates, so every operation takes and
  returns it. The derivation closure is a parameter whose \<open>None\<close> is a panic. Stamps and tokens are
  64-bit values as \<open>nat\<close>, the wrapping addition of an artifact's offset written out. An \<open>Arc\<close> of
  artifacts is the value it points to, which nothing mutates.
\<close>

section \<open>The supervisor\<close>

datatype classified_failure =
    Unreadable | UnstableDuringRead | AbortedCircuitBreaker | ParseFailed | UnknownOrdering
  | TruncatedRequiredDerivation | PartialParse

datatype attempt_disposition =
    Committed
  | Discarded classified_failure
  | Cancelled
  | SupersededRow
  | PanickedRow

type_synonym attempt_id = nat

record attempt_record =
  ar_id :: attempt_id
  ar_disposition :: attempt_disposition

definition MAX_ATTEMPT_RECORDS :: nat where
  "MAX_ATTEMPT_RECORDS = 64"

record supervisor_state =
  sv_next_attempt :: attempt_id
  sv_live :: "attempt_id list"
  sv_superseded :: "attempt_id set"
  sv_terminal :: "attempt_id set"
  sv_records :: "attempt_record list"
  sv_committed :: nat

definition supervisor_new :: supervisor_state where
  "supervisor_new = \<lparr>sv_next_attempt = 0, sv_live = [], sv_superseded = {}, sv_terminal = {}, sv_records = [], sv_committed = 0\<rparr>"

definition mint :: "supervisor_state \<Rightarrow> supervisor_state \<times> attempt_id" where
  "mint sv = (let i = sv_next_attempt sv
              in (sv\<lparr>sv_next_attempt := i + 1, sv_live := sv_live sv @ [i]\<rparr>, i))"

definition push_record :: "attempt_record \<Rightarrow> attempt_record list \<Rightarrow> attempt_record list" where
  "push_record r records =
     (let records = records @ [r] in if length records > MAX_ATTEMPT_RECORDS then tl records else records)"

definition terminal_row :: "attempt_id \<Rightarrow> attempt_disposition \<Rightarrow> supervisor_state \<Rightarrow> supervisor_state \<times> bool" where
  "terminal_row i d sv =
     (if i \<in> sv_terminal sv then (sv, False)
      else (sv\<lparr>sv_terminal := insert i (sv_terminal sv), sv_live := filter (\<lambda>l. l \<noteq> i) (sv_live sv),
               sv_records := push_record \<lparr>ar_id = i, ar_disposition = d\<rparr> (sv_records sv)\<rparr>, True))"

definition is_superseded :: "supervisor_state \<Rightarrow> attempt_id \<Rightarrow> bool" where
  "is_superseded sv i \<longleftrightarrow> i \<in> sv_superseded sv"

definition is_terminal_attempt :: "supervisor_state \<Rightarrow> attempt_id \<Rightarrow> bool" where
  "is_terminal_attempt sv i \<longleftrightarrow> i \<in> sv_terminal sv"

definition record_commit :: "attempt_id \<Rightarrow> supervisor_state \<Rightarrow> supervisor_state" where
  "record_commit i sv = (let (sv, ended) = terminal_row i Committed sv
                         in if ended then sv\<lparr>sv_committed := sv_committed sv + 1\<rparr> else sv)"

definition record_discard :: "attempt_id \<Rightarrow> classified_failure \<Rightarrow> supervisor_state \<Rightarrow> supervisor_state" where
  "record_discard i cause sv = fst (terminal_row i (Discarded cause) sv)"

definition record_panic :: "attempt_id \<Rightarrow> supervisor_state \<Rightarrow> supervisor_state" where
  "record_panic i sv = fst (terminal_row i PanickedRow sv)"

definition begin_attempt :: "supervisor_state \<Rightarrow> supervisor_state \<times> attempt_id" where
  "begin_attempt sv = mint sv"

definition supersede :: "attempt_id \<Rightarrow> supervisor_state \<Rightarrow> supervisor_state" where
  "supersede i sv = sv\<lparr>sv_superseded := insert i (sv_superseded sv)\<rparr>"

definition retry_trigger :: "classified_failure \<Rightarrow> supervisor_state \<Rightarrow> supervisor_state \<times> attempt_id" where
  "retry_trigger cause sv =
     (let sv = (if sv_live sv = [] then sv
                else let newest = last (sv_live sv) in record_discard newest cause (supersede newest sv));
          stale = sv_live sv;
          sv = sv\<lparr>sv_live := []\<rparr>;
          sv = fold (\<lambda>i sv. fst (terminal_row i SupersededRow (supersede i sv))) stale sv
      in mint sv)"

definition cancel :: "attempt_id \<Rightarrow> supervisor_state \<Rightarrow> supervisor_state" where
  "cancel i sv = fst (terminal_row i Cancelled sv)"

section \<open>Candidates\<close>

type_synonym source_id = nat
type_synonym content_token = nat

datatype artifact_kind = CatalogArt | SymbolsArt | ReferencesArt | OutlineArt

definition REQUIRED :: "artifact_kind list" where
  "REQUIRED = [CatalogArt, SymbolsArt, ReferencesArt, OutlineArt]"

datatype source_observation =
    Content catalog_path content_token nat
  | MetadataOnly catalog_path metadata_only_reason
  | Failed classified_failure

record candidate_source =
  src_id :: source_id
  src_observation :: source_observation

datatype entry_disposition = Indexed nat | EntryMetadataOnly metadata_only_reason

record manifest_entry =
  me_path :: catalog_path
  me_disposition :: entry_disposition

record source_artifacts =
  sa_token :: content_token
  sa_manifest :: "manifest_entry list"
  sa_artifacts :: "(artifact_kind, nat) hmap"

type_synonym project_artifacts = "(source_id, source_artifacts) hmap"

datatype promotion_refusal =
    Failure classified_failure
  | CapabilityCannotAuthorize
  | Superseded
  | AttemptAlreadyTerminal
  | SameSourceDrift "content_token option" "content_token option"
  | EpochIsNotAuthority
  | Panicked

record delta_spec =
  ds_changed :: source_id
  ds_expected :: "content_token option"

datatype build_outcome =
    Ready project_artifacts "delta_spec option"
  | Classified classified_failure
  | BuildPanicked

record isolated_candidate =
  ic_outcome :: build_outcome
  ic_attempt :: attempt_id
  ic_permit :: capacity_permit

definition observation_bytes :: "source_observation \<Rightarrow> nat" where
  "observation_bytes ob = (case ob of Content _ _ bytes \<Rightarrow> bytes | _ \<Rightarrow> 0)"

definition reserved_bytes :: "candidate_source list \<Rightarrow> nat" where
  "reserved_bytes sources = max (sum_list (map (observation_bytes \<circ> src_observation) sources)) 1"

definition required_artifacts :: "nat \<Rightarrow> (artifact_kind, nat) hmap" where
  "required_artifacts stamp =
     fold (\<lambda>(offset, kind). hinsert kind ((stamp + offset) mod 2 ^ 64)) (enumerate 0 REQUIRED) []"

fun build_sources ::
  "(candidate_source \<Rightarrow> nat option) \<Rightarrow> candidate_source list \<Rightarrow> project_artifacts \<Rightarrow> build_outcome" where
  "build_sources derive [] built = Ready built None"
| "build_sources derive (source # sources) built =
     (case src_observation source of
        Failed cause \<Rightarrow> Classified cause
      | Content path token _ \<Rightarrow>
          (case derive source of
             None \<Rightarrow> BuildPanicked
           | Some stamp \<Rightarrow>
               build_sources derive sources
                 (hinsert (src_id source)
                    \<lparr>sa_token = token, sa_manifest = [\<lparr>me_path = path, me_disposition = Indexed stamp\<rparr>],
                     sa_artifacts = required_artifacts stamp\<rparr> built))
      | MetadataOnly path reason \<Rightarrow>
          build_sources derive sources
            (hinsert (src_id source)
               \<lparr>sa_token = 0, sa_manifest = [\<lparr>me_path = path, me_disposition = EntryMetadataOnly reason\<rparr>],
                sa_artifacts = []\<rparr> built))"

definition reserve_permit ::
  "capacity_pool \<Rightarrow> identity \<Rightarrow> nat \<Rightarrow> world \<Rightarrow> capacity_pool \<times> world \<times> (capacity_refusal, capacity_permit) result" where
  "reserve_permit pool owner bytes w =
     (case reserve owner bytes pool w of
        (pool, w, Err e) \<Rightarrow> (pool, w, Err e)
      | (pool, w, Ok g) \<Rightarrow> (case redeem g pool of (g, r) \<Rightarrow> (drop_grant g pool, w, r)))"

definition prepare_full ::
  "capacity_pool \<Rightarrow> identity \<Rightarrow> attempt_id \<Rightarrow> candidate_source list \<Rightarrow> (candidate_source \<Rightarrow> nat option) \<Rightarrow> world \<Rightarrow>
   capacity_pool \<times> world \<times> (capacity_refusal, isolated_candidate) result" where
  "prepare_full pool owner attempt sources derive w =
     (case reserve_permit pool owner (reserved_bytes sources) w of
        (pool, w, Err e) \<Rightarrow> (pool, w, Err e)
      | (pool, w, Ok permit) \<Rightarrow>
          (pool, w, Ok \<lparr>ic_outcome = build_sources derive sources [], ic_attempt = attempt, ic_permit = permit\<rparr>))"

definition prepare_delta ::
  "capacity_pool \<Rightarrow> identity \<Rightarrow> attempt_id \<Rightarrow> candidate_source \<Rightarrow> content_token option \<Rightarrow>
   (candidate_source \<Rightarrow> nat option) \<Rightarrow> world \<Rightarrow> capacity_pool \<times> world \<times> (capacity_refusal, isolated_candidate) result" where
  "prepare_delta pool owner attempt changed expected derive w =
     (case reserve_permit pool owner (reserved_bytes [changed]) w of
        (pool, w, Err e) \<Rightarrow> (pool, w, Err e)
      | (pool, w, Ok permit) \<Rightarrow>
          (let outcome = (case build_sources derive [changed] [] of
                            Ready built _ \<Rightarrow> Ready built (Some \<lparr>ds_changed = src_id changed, ds_expected = expected\<rparr>)
                          | terminal \<Rightarrow> terminal)
           in (pool, w, Ok \<lparr>ic_outcome = outcome, ic_attempt = attempt, ic_permit = permit\<rparr>)))"

definition classified_failure_of :: "isolated_candidate \<Rightarrow> classified_failure option" where
  "classified_failure_of c = (case ic_outcome c of Classified cause \<Rightarrow> Some cause | _ \<Rightarrow> None)"

text \<open>
  \<open>None\<close> is the panic of the \<open>expect\<close> on a delta that did not build its changed source. Consuming the
  candidate drops its permit; \<open>commit_drop\<close> is the call together with that drop.
\<close>

definition commit ::
  "isolated_candidate \<Rightarrow> supervisor_state \<Rightarrow> project_artifacts \<Rightarrow>
   (supervisor_state \<times> project_artifacts \<times> (promotion_refusal, project_artifacts) result) option" where
  "commit c sv root =
     (if is_superseded sv (ic_attempt c) then Some (sv, root, Err Superseded)
      else if is_terminal_attempt sv (ic_attempt c) then Some (sv, root, Err AttemptAlreadyTerminal)
      else case ic_outcome c of
             Classified cause \<Rightarrow> Some (record_discard (ic_attempt c) cause sv, root, Err (Failure cause))
           | BuildPanicked \<Rightarrow> Some (record_panic (ic_attempt c) sv, root, Err Panicked)
           | Ready built None \<Rightarrow> Some (record_commit (ic_attempt c) sv, built, Ok built)
           | Ready built (Some spec) \<Rightarrow>
               (let found = map_option sa_token (hget root (ds_changed spec))
                in if found \<noteq> ds_expected spec then Some (sv, root, Err (SameSourceDrift (ds_expected spec) found))
                   else case hget built (ds_changed spec) of
                          None \<Rightarrow> None
                        | Some changed \<Rightarrow>
                            (let nxt = hinsert (ds_changed spec) changed root
                             in Some (record_commit (ic_attempt c) sv, nxt, Ok nxt))))"

definition commit_drop ::
  "isolated_candidate \<Rightarrow> supervisor_state \<Rightarrow> project_artifacts \<Rightarrow> capacity_pool \<Rightarrow>
   (supervisor_state \<times> project_artifacts \<times> (promotion_refusal, project_artifacts) result \<times> capacity_pool) option" where
  "commit_drop c sv root pool =
     map_option (\<lambda>(sv, root, r). (sv, root, r, drop_permit (ic_permit c) pool)) (commit c sv root)"

definition promote_partial_with_capability :: "isolated_candidate \<Rightarrow> project_artifacts \<Rightarrow> promotion_refusal" where
  "promote_partial_with_capability c root = CapabilityCannotAuthorize"

definition publish_claiming_epoch_only :: "nat \<Rightarrow> project_artifacts \<Rightarrow> promotion_refusal" where
  "publish_claiming_epoch_only epoch root = EpochIsNotAuthority"

section \<open>Attempts end once\<close>

text \<open>\<open>L\<close> are the attempts not yet ended; between calls they are the live list of the supervisor.\<close>

definition sv_ok :: "attempt_id list \<Rightarrow> supervisor_state \<Rightarrow> bool" where
  "sv_ok L sv \<longleftrightarrow> distinct L \<and> set L \<inter> sv_terminal sv = {} \<and> set L \<union> sv_terminal sv = {..<sv_next_attempt sv} \<and>
     sv_superseded sv \<subseteq> sv_terminal sv \<and> sv_committed sv \<le> card (sv_terminal sv - sv_superseded sv) \<and>
     length (sv_records sv) \<le> MAX_ATTEMPT_RECORDS \<and> ar_id ` set (sv_records sv) \<subseteq> sv_terminal sv \<and>
     distinct (map ar_id (sv_records sv))"

definition sv_inv :: "supervisor_state \<Rightarrow> bool" where
  "sv_inv sv \<longleftrightarrow> sv_ok (sv_live sv) sv"

lemma sv_ok_finite: "sv_ok L sv \<Longrightarrow> finite (sv_terminal sv)"
  unfolding sv_ok_def by (metis finite_Un finite_lessThan)

lemma terminal_row_live: "i \<notin> sv_terminal sv \<Longrightarrow> sv_live (fst (terminal_row i d sv)) = filter (\<lambda>l. l \<noteq> i) (sv_live sv)"
  by (simp add: terminal_row_def Let_def)

lemma push_record_ok:
  assumes "length rs \<le> MAX_ATTEMPT_RECORDS" "distinct (map ar_id rs)" "ar_id ` set rs \<subseteq> T" "i \<notin> T"
  shows "length (push_record \<lparr>ar_id = i, ar_disposition = d\<rparr> rs) \<le> MAX_ATTEMPT_RECORDS \<and>
    distinct (map ar_id (push_record \<lparr>ar_id = i, ar_disposition = d\<rparr> rs)) \<and>
    ar_id ` set (push_record \<lparr>ar_id = i, ar_disposition = d\<rparr> rs) \<subseteq> insert i T"
  using assms by (cases rs) (auto simp: push_record_def MAX_ATTEMPT_RECORDS_def Let_def split: if_splits)

text \<open>Ending an open attempt, as itself or together with superseding it.\<close>

lemma sv_ok_end:
  assumes ok: "sv_ok L sv" and i: "i \<in> set L"
  shows "sv_ok (filter (\<lambda>l. l \<noteq> i) L) (fst (terminal_row i d sv))"
    and "sv_committed (fst (terminal_row i d sv)) < card (sv_terminal (fst (terminal_row i d sv)) - sv_superseded (fst (terminal_row i d sv)))"
    and "sv_ok (filter (\<lambda>l. l \<noteq> i) L) (fst (terminal_row i d (supersede i sv)))"
proof -
  have n: "i \<notin> sv_terminal sv" "i \<notin> sv_superseded sv" using ok i by (auto simp: sv_ok_def)
  note fin = sv_ok_finite [OF ok]
  have c: "card (insert i (sv_terminal sv) - sv_superseded sv) = Suc (card (sv_terminal sv - sv_superseded sv))"
    using n fin by (simp add: insert_Diff_if)
  have c': "insert i (sv_terminal sv) - insert i (sv_superseded sv) = sv_terminal sv - sv_superseded sv" using n by auto
  note rec = push_record_ok [of "sv_records sv" "sv_terminal sv" i d]
  show "sv_ok (filter (\<lambda>l. l \<noteq> i) L) (fst (terminal_row i d sv))"
    using rec ok i n c unfolding sv_ok_def by (auto simp: terminal_row_def Let_def)
  show "sv_committed (fst (terminal_row i d sv)) < card (sv_terminal (fst (terminal_row i d sv)) - sv_superseded (fst (terminal_row i d sv)))"
    using ok n c by (simp add: sv_ok_def terminal_row_def Let_def)
  show "sv_ok (filter (\<lambda>l. l \<noteq> i) L) (fst (terminal_row i d (supersede i sv)))"
    using rec ok i n c' unfolding sv_ok_def by (auto simp: terminal_row_def supersede_def Let_def)
qed

lemma sv_inv_terminal_row:
  assumes inv: "sv_inv sv" and i: "i < sv_next_attempt sv"
  shows "sv_inv (fst (terminal_row i d sv))"
proof (cases "i \<in> sv_terminal sv")
  case True
  then show ?thesis using inv by (simp add: terminal_row_def)
next
  case False
  then have "i \<in> set (sv_live sv)" using inv i by (auto simp: sv_inv_def sv_ok_def)
  then show ?thesis
    using sv_ok_end(1) inv False by (simp add: sv_inv_def terminal_row_live)
qed

lemma sv_inv_mint: "sv_inv sv \<Longrightarrow> sv_inv (fst (mint sv))"
  by (auto simp: sv_inv_def sv_ok_def mint_def Let_def)

lemma supersede_all:
  "sv_ok L sv \<Longrightarrow> sv_live sv = [] \<Longrightarrow>
   sv_ok [] (fold (\<lambda>i sv. fst (terminal_row i SupersededRow (supersede i sv))) L sv) \<and>
   sv_live (fold (\<lambda>i sv. fst (terminal_row i SupersededRow (supersede i sv))) L sv) = [] \<and>
   sv_next_attempt (fold (\<lambda>i sv. fst (terminal_row i SupersededRow (supersede i sv))) L sv) = sv_next_attempt sv"
proof (induction L arbitrary: sv)
  case (Cons i L)
  have "filter (\<lambda>l. l \<noteq> i) (i # L) = L" using Cons.prems(1) by (auto simp: sv_ok_def filter_id_conv)
  then have "sv_ok L (fst (terminal_row i SupersededRow (supersede i sv)))"
    using sv_ok_end(3) [OF Cons.prems(1), of i SupersededRow] by simp
  moreover have "sv_live (fst (terminal_row i SupersededRow (supersede i sv))) = []"
      "sv_next_attempt (fst (terminal_row i SupersededRow (supersede i sv))) = sv_next_attempt sv"
    using Cons.prems(2) by (auto simp: terminal_row_def supersede_def Let_def)
  ultimately show ?case using Cons.IH by simp
qed simp

lemma retry_trigger_spec:
  assumes inv: "sv_inv sv" and r: "retry_trigger cause sv = (sv', j)"
  shows "sv_inv sv' \<and> j = sv_next_attempt sv \<and> sv_terminal sv' = {..<j} \<and> sv_live sv' = [j] \<and> sv_next_attempt sv' = j + 1"
proof -
  define sv1 where "sv1 = (if sv_live sv = [] then sv
      else let newest = last (sv_live sv) in record_discard newest cause (supersede newest sv))"
  have ok1: "sv_ok (sv_live sv1) sv1 \<and> sv_next_attempt sv1 = sv_next_attempt sv"
  proof (cases "sv_live sv = []")
    case True
    then show ?thesis using inv by (simp add: sv1_def sv_inv_def)
  next
    case False
    let ?i = "last (sv_live sv)"
    have i: "?i \<in> set (sv_live sv)" using False by simp
    then have "?i \<notin> sv_terminal sv" using inv by (auto simp: sv_inv_def sv_ok_def)
    then have "sv_live sv1 = filter (\<lambda>l. l \<noteq> ?i) (sv_live sv)" "sv_next_attempt sv1 = sv_next_attempt sv"
      using False by (simp_all add: sv1_def record_discard_def terminal_row_def supersede_def Let_def)
    then show ?thesis
      using sv_ok_end(3) [OF inv [unfolded sv_inv_def] i, of "Discarded cause"] False
      by (simp add: sv1_def record_discard_def Let_def)
  qed
  define sv2 where "sv2 = fold (\<lambda>i sv. fst (terminal_row i SupersededRow (supersede i sv))) (sv_live sv1) (sv1\<lparr>sv_live := []\<rparr>)"
  have "sv_ok (sv_live sv1) (sv1\<lparr>sv_live := []\<rparr>)" using ok1 by (simp add: sv_ok_def)
  then have ok2: "sv_ok [] sv2" "sv_live sv2 = []" "sv_next_attempt sv2 = sv_next_attempt sv"
    using supersede_all [of "sv_live sv1" "sv1\<lparr>sv_live := []\<rparr>"] ok1 by (simp_all add: sv2_def)
  have m: "(sv', j) = mint sv2"
    using r by (simp add: retry_trigger_def sv1_def [symmetric] sv2_def [symmetric] Let_def)
  have "sv_inv sv2" using ok2 by (simp add: sv_inv_def)
  then have "sv_inv sv'" using sv_inv_mint m by (metis fst_conv)
  then show ?thesis using m ok2 by (auto simp: mint_def Let_def sv_ok_def)
qed

inductive sv_step :: "supervisor_state \<Rightarrow> supervisor_state \<Rightarrow> bool" where
  sv_begin: "sv_step sv (fst (begin_attempt sv))"
| sv_retry: "sv_step sv (fst (retry_trigger cause sv))"
| sv_cancel: "i < sv_next_attempt sv \<Longrightarrow> sv_step sv (cancel i sv)"
| sv_commit: "ic_attempt c < sv_next_attempt sv \<Longrightarrow> commit c sv root = Some (sv', root', r) \<Longrightarrow> sv_step sv sv'"

text \<open>What a commit does to the supervisor: nothing, or one terminal row, counted when it published.\<close>

lemma commit_supervisor:
  assumes "commit c sv root = Some (sv', root', r)"
  shows "sv' = sv \<or> (\<exists>d. sv' = fst (terminal_row (ic_attempt c) d sv)) \<or>
    (\<exists>p. r = Ok p \<and> sv' = record_commit (ic_attempt c) sv \<and> ic_attempt c \<notin> sv_terminal sv)"
  using assms
  by (auto simp: commit_def is_superseded_def is_terminal_attempt_def record_discard_def record_panic_def Let_def
      split: if_splits build_outcome.splits option.splits)

lemma sv_inv_record_commit:
  assumes inv: "sv_inv sv" and i: "i < sv_next_attempt sv" "i \<notin> sv_terminal sv"
  shows "sv_inv (record_commit i sv)"
proof -
  have "i \<in> set (sv_live sv)" using inv i by (auto simp: sv_inv_def sv_ok_def)
  then have "sv_ok (filter (\<lambda>l. l \<noteq> i) (sv_live sv)) (fst (terminal_row i Committed sv))"
      "sv_committed (fst (terminal_row i Committed sv)) <
         card (sv_terminal (fst (terminal_row i Committed sv)) - sv_superseded (fst (terminal_row i Committed sv)))"
    using sv_ok_end [OF inv [unfolded sv_inv_def]] by blast+
  then show ?thesis
    using i(2) by (simp add: sv_inv_def sv_ok_def record_commit_def terminal_row_def Let_def)
qed

lemma sv_step_inv: "sv_step sv sv' \<Longrightarrow> sv_inv sv \<Longrightarrow> sv_inv sv'"
proof (induction rule: sv_step.induct)
  case (sv_begin sv)
  then show ?case by (simp add: begin_attempt_def sv_inv_mint)
next
  case (sv_retry sv cause)
  then show ?case using retry_trigger_spec by (metis prod.collapse)
next
  case (sv_cancel i sv)
  then show ?case by (simp add: cancel_def sv_inv_terminal_row)
next
  case (sv_commit c sv root sv' root' r)
  then show ?case using commit_supervisor [OF sv_commit(2)] sv_inv_terminal_row sv_inv_record_commit by auto
qed

interpretation supervisor: invariant_system "\<lambda>sv. sv = supervisor_new" sv_step sv_inv
proof
  fix s assume "s = supervisor_new"
  then show "sv_inv s" by (simp add: sv_inv_def sv_ok_def supervisor_new_def lessThan_0)
qed (rule sv_step_inv)

section \<open>Facts about builds and commits\<close>

lemma sv_step_terminal: "sv_step sv sv' \<Longrightarrow> sv_inv sv \<Longrightarrow> sv_terminal sv \<subseteq> sv_terminal sv'"
proof (induction rule: sv_step.induct)
  case (sv_retry sv cause)
  then have "sv_terminal (fst (retry_trigger cause sv)) = {..<sv_next_attempt sv}"
    using retry_trigger_spec by (metis prod.collapse)
  then show ?case using sv_retry by (auto simp: sv_inv_def sv_ok_def)
next
  case (sv_commit c sv root sv' root' r)
  then show ?case using commit_supervisor [OF sv_commit(2)] by (auto simp: terminal_row_def record_commit_def)
qed (auto simp: begin_attempt_def mint_def cancel_def terminal_row_def Let_def)

lemma sv_steps_terminal: "sv_step\<^sup>*\<^sup>* sv sv' \<Longrightarrow> sv_inv sv \<Longrightarrow> sv_terminal sv \<subseteq> sv_terminal sv'"
proof (induction rule: rtranclp_induct)
  case (step y z)
  then show ?case using sv_step_terminal supervisor.inv_steps by blast
qed simp

lemma commit_ended: "ic_attempt c \<in> sv_terminal sv \<Longrightarrow> \<exists>e. commit c sv root = Some (sv, root, Err e)"
  by (simp add: commit_def is_terminal_attempt_def)

lemma commit_Ok_ends:
  assumes "commit c sv root = Some (sv', root', Ok p)"
  shows "ic_attempt c \<in> sv_terminal sv' \<and> ic_attempt c \<notin> sv_terminal sv \<and> ic_attempt c \<notin> sv_superseded sv \<and>
    sv' = record_commit (ic_attempt c) sv \<and> sv_committed sv' = sv_committed sv + 1 \<and> root' = p"
  using assms
  by (auto simp: commit_def is_superseded_def is_terminal_attempt_def record_commit_def terminal_row_def Let_def
      split: if_splits build_outcome.splits option.splits)

lemma commit_Err_root: "commit c sv root = Some (sv', root', Err e) \<Longrightarrow> root' = root"
  by (auto simp: commit_def Let_def split: if_splits build_outcome.splits option.splits)

text \<open>What the artifacts of one observed source must be.\<close>

definition certified :: "(candidate_source \<Rightarrow> nat option) \<Rightarrow> candidate_source \<Rightarrow> source_artifacts \<Rightarrow> bool" where
  "certified derive source a \<longleftrightarrow> (case src_observation source of
     Content path token _ \<Rightarrow> (\<exists>stamp. derive source = Some stamp \<and> sa_token a = token \<and>
        sa_manifest a = [\<lparr>me_path = path, me_disposition = Indexed stamp\<rparr>] \<and> (\<forall>kind. hget (sa_artifacts a) kind \<noteq> None))
   | MetadataOnly path reason \<Rightarrow> sa_token a = 0 \<and> sa_artifacts a = [] \<and>
        sa_manifest a = [\<lparr>me_path = path, me_disposition = EntryMetadataOnly reason\<rparr>]
   | Failed _ \<Rightarrow> False)"

lemma required_complete: "\<exists>v. hget (required_artifacts stamp) kind = Some v"
  by (cases kind) (simp_all add: required_artifacts_def REQUIRED_def hget_hinsert)

lemma build_sources_Cons:
  assumes "build_sources derive (source # sources) built = Ready built' d"
  obtains a where "build_sources derive sources (hinsert (src_id source) a built) = Ready built' d" "certified derive source a"
    "\<And>cause. src_observation source \<noteq> Failed cause"
proof (cases "src_observation source")
  case (Content path token b)
  then obtain stamp where "derive source = Some stamp" using assms by (auto split: option.splits)
  with Content assms required_complete show ?thesis by (intro that) (auto simp: certified_def)
next
  case (MetadataOnly path reason)
  with assms show ?thesis by (intro that) (auto simp: certified_def)
next
  case (Failed c)
  with assms show ?thesis by simp
qed

lemma build_sources_spec:
  "build_sources derive sources built = Ready built' d \<Longrightarrow>
     d = None \<and> dom (hget built') = dom (hget built) \<union> src_id ` set sources \<and>
     (\<forall>s a. hget built' s = Some a \<longrightarrow> s \<in> src_id ` set sources \<longrightarrow> (\<exists>x \<in> set sources. src_id x = s \<and> certified derive x a)) \<and>
     (\<forall>s. s \<notin> src_id ` set sources \<longrightarrow> hget built' s = hget built s) \<and>
     (\<forall>x \<in> set sources. \<forall>cause. src_observation x \<noteq> Failed cause)"
proof (induction sources arbitrary: built)
  case (Cons source sources)
  obtain a where a: "build_sources derive sources (hinsert (src_id source) a built) = Ready built' d" "certified derive source a"
    "\<And>cause. src_observation source \<noteq> Failed cause"
    using build_sources_Cons [OF Cons.prems] by blast
  from Cons.IH [OF a(1)] a(2,3) show ?case by (auto simp: update_conv' split: if_splits)
qed simp

text \<open>The permit a candidate holds: preparing charges it, dropping it gives the ledger back.\<close>

lemma reserve_permit_cases:
  assumes "reserve_permit p owner bytes w = (p', w', Ok m)"
  obtains row where "hget (pool_rows p) owner = Some row" "bytes \<le> row_limit row - row_charged row"
    "p' = p\<lparr>pool_rows := hinsert owner (row\<lparr>row_charged := row_charged row + bytes,
                row_outstanding := hinsert (w_next w) bytes (row_outstanding row)\<rparr>) (pool_rows p)\<rparr>"
    "w' = w\<lparr>w_next := w_next w + 1\<rparr>"
    "m = \<lparr>cm_owner = owner, cm_bytes = bytes, cm_charge = w_next w, cm_ledger = pool_identity p, cm_refunded = False\<rparr>"
proof (cases "hget (pool_rows p) owner")
  case None
  then show ?thesis using assms by (simp add: reserve_permit_def reserve_def)
next
  case (Some row)
  show ?thesis
  proof (cases "bytes > row_limit row - row_charged row")
    case True
    then show ?thesis using assms Some by (simp add: reserve_permit_def reserve_def)
  next
    case False
    then show ?thesis
      using assms Some
      by (intro that [of row]) (simp_all add: reserve_permit_def reserve_def redeem_def drop_grant_def fresh_identity_def Let_def)
  qed
qed

lemma drop_permit_restores:
  assumes ok: "pool_ok T n p" and fresh: "\<And>x c b. (x, c, b) \<in> T \<Longrightarrow> c < w_next w"
    and r: "reserve_permit p owner bytes w = (p', w', Ok m)"
  shows "pool_ok T n (drop_permit m p') \<and> (\<forall>x. charged (drop_permit m p') x = charged p x) \<and>
    pool_identity (drop_permit m p') = pool_identity p"
proof -
  from r obtain row where row: "hget (pool_rows p) owner = Some row" "bytes \<le> row_limit row - row_charged row"
    and p': "p' = p\<lparr>pool_rows := hinsert owner (row\<lparr>row_charged := row_charged row + bytes,
                row_outstanding := hinsert (w_next w) bytes (row_outstanding row)\<rparr>) (pool_rows p)\<rparr>"
    and m: "m = \<lparr>cm_owner = owner, cm_bytes = bytes, cm_charge = w_next w, cm_ledger = pool_identity p, cm_refunded = False\<rparr>"
    by (rule reserve_permit_cases)
  let ?q = "fst (refund owner (w_next w) p')"
  have d: "drop_permit m p' = ?q" by (simp add: drop_permit_def m)
  obtain g where g: "reserve owner bytes p w = (p', w\<lparr>w_next := w_next w + 1\<rparr>, Ok g)"
    using row by (simp add: reserve_def p' fresh_identity_def Let_def)
  have "pool_ok (insert (owner, w_next w, bytes) T) n p'"
    using reserve_Ok [OF ok _ g] fresh by blast
  then have "pool_ok (insert (owner, w_next w, bytes) T - {(owner, w_next w, bytes)}) n ?q"
    using refund_ok by blast
  moreover have "insert (owner, w_next w, bytes) T - {(owner, w_next w, bytes)} = T"
    using fresh [of owner "w_next w" bytes] by auto
  moreover have "charged ?q x = charged p x" for x
    using row by (simp add: refund_def charged_def p' hget_hinsert)
  moreover have "pool_identity ?q = pool_identity p"
    by (simp add: refund_def p' hget_hinsert)
  ultimately show ?thesis using d by simp
qed

section \<open>Properties\<close>

text \<open>
  C31: a delta commit publishes its own source and nothing else. For every candidate that \<open>prepare_delta\<close>
  built, on any supervisor and any current root: the commit never panics; a refusal leaves the root as it
  was; a success happens only while the attempt is neither superseded nor ended and the root still holds
  the expected token, installs the certified artifacts of the changed source (every required kind, the
  observed path verbatim), keeps every sibling as it is in the latest root, and ends the attempt.
\<close>

theorem delta_commit_exact:
  assumes "prepare_delta pool owner attempt changed expected derive w = (pool', w', Ok c)"
  shows "case commit c sv root of
      None \<Rightarrow> False
    | Some (sv', root', Err e) \<Rightarrow> root' = root
    | Some (sv', root', Ok published) \<Rightarrow> published = root' \<and>
        attempt \<notin> sv_superseded sv \<union> sv_terminal sv \<and> attempt \<in> sv_terminal sv' \<and> sv_committed sv' = sv_committed sv + 1 \<and>
        map_option sa_token (hget root (src_id changed)) = expected \<and>
        (\<forall>s. s \<noteq> src_id changed \<longrightarrow> hget root' s = hget root s) \<and>
        (\<exists>a. hget root' (src_id changed) = Some a \<and> certified derive changed a)"
proof -
  let ?b = "build_sources derive [changed] []"
  obtain m where c: "c = \<lparr>ic_outcome = (case ?b of
          Ready built _ \<Rightarrow> Ready built (Some \<lparr>ds_changed = src_id changed, ds_expected = expected\<rparr>) | t \<Rightarrow> t),
        ic_attempt = attempt, ic_permit = m\<rparr>"
    using assms by (auto simp: prepare_delta_def Let_def split: prod.splits sum.splits)
  have b: "\<exists>a. hget built (src_id changed) = Some a \<and> certified derive changed a" if "?b = Ready built d" for built d
  proof -
    note s = build_sources_spec [OF that]
    then have "src_id changed \<in> dom (hget built)" by simp
    then obtain a where "hget built (src_id changed) = Some a" by blast
    then show ?thesis using s by simp
  qed
  show ?thesis
  proof (cases "commit c sv root")
    case None
    then obtain built d where "?b = Ready built d" "hget built (src_id changed) = None"
      by (cases ?b) (auto simp: c commit_def Let_def split: if_splits option.splits)
    then show ?thesis using b by fastforce
  next
    case (Some x)
    obtain sv' root' r where x: "x = (sv', root', r)" by (cases x)
    show ?thesis
    proof (cases r)
      case (Inl e)
      then show ?thesis using Some x commit_Err_root by auto
    next
      case (Inr p)
      note ends = commit_Ok_ends [OF Some [unfolded x Inr]]
      obtain built d where r: "?b = Ready built d"
        using Some x Inr by (cases ?b) (auto simp: c commit_def split: if_splits)
      then obtain a where a: "hget built (src_id changed) = Some a" "certified derive changed a" using b by blast
      have e: "map_option sa_token (hget root (src_id changed)) = expected" "p = hinsert (src_id changed) a root"
        using Some x Inr r a by (auto simp: c commit_def Let_def split: if_splits)
      show ?thesis
        unfolding Some x Inr using ends e a(2) by (auto simp: c hget_hinsert)
    qed
  qed
qed

text \<open>
  A full commit is total over its observed sources. When a candidate that \<open>prepare_full\<close> built publishes,
  the new root holds exactly the observed source identities and every entry carries the certified artifacts
  of an observation of that source; one failed observation or one panicking derivation publishes nothing.
\<close>

lemma full_commit_total:
  assumes "prepare_full pool owner attempt sources derive w = (pool', w', Ok c)"
    and "commit c sv root = Some (sv', root', r)"
  shows "case r of
      Err e \<Rightarrow> root' = root
    | Ok published \<Rightarrow> published = root' \<and> dom (hget root') = src_id ` set sources \<and>
        (\<forall>s a. hget root' s = Some a \<longrightarrow> (\<exists>x \<in> set sources. src_id x = s \<and> certified derive x a)) \<and>
        (\<forall>x \<in> set sources. \<forall>cause. src_observation x \<noteq> Failed cause)"
proof (cases r)
  case (Inl e)
  then show ?thesis using assms(2) commit_Err_root by auto
next
  case (Inr p)
  have c: "ic_outcome c = build_sources derive sources []"
    using assms(1) by (auto simp: prepare_full_def split: prod.splits sum.splits)
  obtain built d where bd: "build_sources derive sources [] = Ready built d"
    using assms(2) Inr c by (cases "build_sources derive sources []") (auto simp: commit_def split: if_splits)
  then have "d = None" using build_sources_spec by blast
  with bd have b: "build_sources derive sources [] = Ready built None" "p = built" "root' = built"
    using assms(2) Inr c by (auto simp: commit_def split: if_splits)
  from build_sources_spec [OF b(1)]
  have "dom (hget built) = src_id ` set sources" "\<forall>x \<in> set sources. \<forall>cause. src_observation x \<noteq> Failed cause"
    "\<And>s a. hget built s = Some a \<Longrightarrow> s \<in> src_id ` set sources \<Longrightarrow> \<exists>x \<in> set sources. src_id x = s \<and> certified derive x a"
    by simp_all
  moreover from this(1) have "s \<in> src_id ` set sources" if "hget built s = Some a" for s a using that by blast
  ultimately show ?thesis unfolding Inr using b(2,3) by auto
qed

text \<open>
  C39: an attempt publishes at most once and never after being retried. In every reachable state of a
  supervisor each attempt minted so far is either live or ended, never both, and at most as many attempts
  published as ended unsuperseded; once a commit of an attempt succeeded, or once a retry trigger fired
  after it was minted, every later commit under that attempt is refused and leaves root and supervisor
  unchanged, whatever happens in between.
\<close>

theorem attempt_publishes_at_most_once:
  assumes "reach (\<lambda>sv. sv = supervisor_new) sv_step sv"
  shows "(\<forall>i < sv_next_attempt sv. i \<in> set (sv_live sv) \<longleftrightarrow> i \<notin> sv_terminal sv) \<and>
    sv_committed sv \<le> card (sv_terminal sv - sv_superseded sv) \<and> length (sv_records sv) \<le> MAX_ATTEMPT_RECORDS \<and>
    (\<forall>sv1 sv2 c c' root root1 root2 p cause j.
       sv_step\<^sup>*\<^sup>* sv1 sv2 \<and>
       (commit c sv root = Some (sv1, root1, Ok p) \<and> ic_attempt c < sv_next_attempt sv \<and> ic_attempt c' = ic_attempt c \<or>
        retry_trigger cause sv = (sv1, j) \<and> ic_attempt c' < j) \<longrightarrow>
       (\<exists>e. commit c' sv2 root2 = Some (sv2, root2, Err e)))"
proof -
  have inv: "sv_inv sv" by (rule supervisor.reach_inv [OF assms])
  have later: "\<exists>e. commit c' sv2 root2 = Some (sv2, root2, Err e)"
    if "sv_step\<^sup>*\<^sup>* sv1 sv2" "sv_inv sv1" "ic_attempt c' \<in> sv_terminal sv1" for sv1 sv2 c' root2
    using sv_steps_terminal [OF that(1,2)] that(3) by (intro commit_ended) blast
  have "\<exists>e. commit c' sv2 root2 = Some (sv2, root2, Err e)"
    if s: "sv_step\<^sup>*\<^sup>* sv1 sv2" and r: "retry_trigger cause sv = (sv1, j)" and i: "ic_attempt c' < j" for sv1 sv2 c' root2 cause j
    using retry_trigger_spec [OF inv r] i by (intro later [OF s]) auto
  moreover have "\<exists>e. commit c' sv2 root2 = Some (sv2, root2, Err e)"
    if s: "sv_step\<^sup>*\<^sup>* sv1 sv2" and c: "commit c sv root = Some (sv1, root1, Ok p)" and i: "ic_attempt c < sv_next_attempt sv"
      and eq: "ic_attempt c' = ic_attempt c" for sv1 sv2 c c' root root1 root2 p
    using sv_step_inv [OF sv_commit [OF i c] inv] commit_Ok_ends [OF c] eq by (intro later [OF s]) auto
  moreover have "\<forall>i < sv_next_attempt sv. i \<in> set (sv_live sv) \<longleftrightarrow> i \<notin> sv_terminal sv"
      "sv_committed sv \<le> card (sv_terminal sv - sv_superseded sv)" "length (sv_records sv) \<le> MAX_ATTEMPT_RECORDS"
    using inv by (auto simp: sv_inv_def sv_ok_def)
  ultimately show ?thesis by blast
qed

section \<open>Witnesses\<close>

definition wit_path :: catalog_path where
  "wit_path = \<lparr>public_id = ''a.rs'', normalized_utf8 = Some ''a.rs''\<rparr>"

definition wit_source :: candidate_source where
  "wit_source = \<lparr>src_id = 5, src_observation = Content wit_path 7 30\<rparr>"

definition wit_sv :: supervisor_state where
  "wit_sv = fst (begin_attempt supervisor_new)"

definition wit_candidate :: isolated_candidate where
  "wit_candidate =
     \<lparr>ic_outcome = Ready [(5, \<lparr>sa_token = 7, sa_manifest = [\<lparr>me_path = wit_path, me_disposition = Indexed 9\<rparr>],
                          sa_artifacts = required_artifacts 9\<rparr>)] (Some \<lparr>ds_changed = 5, ds_expected = None\<rparr>),
      ic_attempt = 0,
      ic_permit = \<lparr>cm_owner = 1, cm_bytes = 30, cm_charge = 10, cm_ledger = 0, cm_refunded = False\<rparr>\<rparr>"

lemma wit_prepare_delta:
  "\<exists>p w. prepare_delta wit_child_pool 1 0 wit_source None (\<lambda>_. Some 9) wit_world = (p, w, Ok wit_candidate)"
  by (simp add: prepare_delta_def reserve_permit_def reserved_bytes_def observation_bytes_def wit_source_def
      wit_candidate_def wit_cap_defs)

lemma wit_commit:
  "\<exists>sv' root'. commit wit_candidate wit_sv [] = Some (sv', root', Ok root') \<and> hget root' 5 \<noteq> None"
  by (simp add: commit_def wit_candidate_def wit_sv_def begin_attempt_def mint_def supervisor_new_def is_superseded_def
      is_terminal_attempt_def Let_def)

theorem delta_commit_exact_witness:
  "\<exists>sv' root'. commit wit_candidate wit_sv [] = Some (sv', root', Ok root') \<and> sv_committed sv' = 1 \<and>
     (\<exists>a. hget root' 5 = Some a \<and> certified (\<lambda>_. Some 9) wit_source a)"
proof -
  obtain p w where "prepare_delta wit_child_pool 1 0 wit_source None (\<lambda>_. Some 9) wit_world = (p, w, Ok wit_candidate)"
    using wit_prepare_delta by blast
  from delta_commit_exact [OF this, of "[]" wit_sv] wit_commit show ?thesis
    by (auto simp: wit_sv_def begin_attempt_def mint_def supervisor_new_def Let_def wit_source_def)
qed

theorem full_commit_total_witness:
  "\<exists>p w c sv' root'. prepare_full wit_child_pool 1 0 [wit_source] (\<lambda>_. Some 9) wit_world = (p, w, Ok c) \<and>
     commit c wit_sv [] = Some (sv', root', Ok root') \<and> dom (hget root') = {5}"
proof -
  obtain p w c where p: "prepare_full wit_child_pool 1 0 [wit_source] (\<lambda>_. Some 9) wit_world = (p, w, Ok c)"
      "ic_attempt c = 0" "ic_outcome c = build_sources (\<lambda>_. Some 9) [wit_source] []"
    by (simp add: prepare_full_def reserve_permit_def reserved_bytes_def observation_bytes_def wit_source_def wit_cap_defs)
  obtain sv' root' where c: "commit c wit_sv [] = Some (sv', root', Ok root')"
    using p(2,3) by (simp add: commit_def wit_sv_def begin_attempt_def mint_def supervisor_new_def is_superseded_def
      is_terminal_attempt_def wit_source_def)
  have "dom (hget root') = {5}"
    using full_commit_total [OF p(1) c] by (simp add: wit_source_def)
  with p c show ?thesis by blast
qed

lemma wit_sv_reach: "reach (\<lambda>sv. sv = supervisor_new) sv_step wit_sv"
  unfolding wit_sv_def by (rule reach_step [where s = supervisor_new]) (auto intro: reach_init sv_begin)

theorem attempt_publishes_at_most_once_witness:
  "\<exists>sv1 root1 p e. commit wit_candidate wit_sv [] = Some (sv1, root1, Ok p) \<and>
     commit wit_candidate sv1 root1 = Some (sv1, root1, Err e)"
proof -
  obtain sv1 root1 p where c: "commit wit_candidate wit_sv [] = Some (sv1, root1, Ok p)" using wit_commit by blast
  have "ic_attempt wit_candidate < sv_next_attempt wit_sv"
    by (simp add: wit_candidate_def wit_sv_def begin_attempt_def mint_def Let_def)
  then have "\<exists>e. commit wit_candidate sv1 root1 = Some (sv1, root1, Err e)"
    using attempt_publishes_at_most_once [OF wit_sv_reach] c rtranclp.rtrancl_refl [of sv_step sv1] by blast
  with c show ?thesis by blast
qed

end
