(* ===== verification/PhysicalRoot.thy ===== *)
theory PhysicalRoot
  imports Authority
begin

text \<open>
  Leases on a physical root and writes beneath them: \<open>src/index_lifecycle/physical_root.rs\<close>.

  The directory capability is the third-party \<open>cap_std::fs::Dir\<close>: it is the parameter \<open>dir_ops\<close>, one
  function per call the module makes, over a file-system state that may change under every call (other
  processes run). A path beneath the root is the list of its component names; a path as given is the list of
  components \<open>Path::components\<close> yields. Leases share their liveness flag by identity in \<open>w_dead\<close>. The
  owner-only check is the one of Unix.
\<close>

section \<open>Names, paths, refusals\<close>

type_synonym name = string
type_synonym rel_path = "name list"

datatype component = Normal name | CurDir | ParentDir | RootDir | Prefix name

datatype root_refusal =
    LeaseRevoked
  | EscapesRoot "component list"
  | LinkComponent rel_path
  | UnreadablePath rel_path string

definition refusal_to_authority :: "root_refusal \<Rightarrow> authority_refusal" where
  "refusal_to_authority r = PhysicalRootReplaced"

datatype dir_error = DirNotFound string | DirAlreadyExists string | DirOther string

fun dir_message :: "dir_error \<Rightarrow> string" where
  "dir_message (DirNotFound m) = m"
| "dir_message (DirAlreadyExists m) = m"
| "dir_message (DirOther m) = m"

datatype entry_kind = KFile | KDirectory | KSymlink | KOther

record 'd dir_ops =
  d_symlink_metadata :: "'d \<Rightarrow> rel_path \<Rightarrow> 'd \<times> (dir_error, entry_kind) result"
  d_read :: "'d \<Rightarrow> rel_path \<Rightarrow> 'd \<times> (dir_error, bytes) result"
  d_try_clone :: "'d \<Rightarrow> 'd \<times> (dir_error, unit) result"
  d_create_dir_all :: "'d \<Rightarrow> rel_path \<Rightarrow> 'd \<times> (dir_error, unit) result"
  d_create_new :: "'d \<Rightarrow> rel_path \<Rightarrow> 'd \<times> (dir_error, unit) result"
  d_write_sync :: "'d \<Rightarrow> rel_path \<Rightarrow> bytes \<Rightarrow> 'd \<times> (dir_error, unit) result"
  d_mode :: "'d \<Rightarrow> rel_path \<Rightarrow> 'd \<times> (dir_error, nat) result"
  d_rename :: "'d \<Rightarrow> rel_path \<Rightarrow> rel_path \<Rightarrow> 'd \<times> (dir_error, unit) result"
  d_remove_file :: "'d \<Rightarrow> rel_path \<Rightarrow> 'd \<times> (dir_error, unit) result"

section \<open>Leases\<close>

record root_lease =
  ls_identity :: identity
  ls_root :: rel_path
  ls_open :: bool

definition fresh_root :: "world \<Rightarrow> identity \<times> world" where
  "fresh_root w = (w_next_root w, w\<lparr>w_next_root := w_next_root w + 1\<rparr>)"

text \<open>\<open>opens\<close> says whether the ambient open of the root succeeded.\<close>

definition lease_take :: "bool \<Rightarrow> rel_path \<Rightarrow> world \<Rightarrow> root_lease \<times> world" where
  "lease_take opens root w = (let (i, w) = fresh_root w in (\<lparr>ls_identity = i, ls_root = root, ls_open = opens\<rparr>, w))"

definition parked :: "root_lease \<Rightarrow> root_lease" where
  "parked l = l\<lparr>ls_open := False\<rparr>"

definition reopened :: "bool \<Rightarrow> root_lease \<Rightarrow> root_lease" where
  "reopened opens l = l\<lparr>ls_open := opens\<rparr>"

definition lease_is_live :: "world \<Rightarrow> root_lease \<Rightarrow> bool" where
  "lease_is_live w l \<longleftrightarrow> ls_identity l \<notin> set (w_dead w)"

definition revoke_lease :: "root_lease \<Rightarrow> world \<Rightarrow> world" where
  "revoke_lease l w = w\<lparr>w_dead := List.insert (ls_identity l) (w_dead w)\<rparr>"

definition no_capability :: string where
  "no_capability = ''the leased root could not be opened as a directory capability''"

definition capability :: "world \<Rightarrow> root_lease \<Rightarrow> (root_refusal, unit) result" where
  "capability w l =
     (if \<not> lease_is_live w l then Err LeaseRevoked
      else if ls_open l then Ok () else Err (UnreadablePath (ls_root l) no_capability))"

section \<open>Resolving a path beneath the root\<close>

fun normal_parts :: "component list \<Rightarrow> name list option" where
  "normal_parts [] = Some []"
| "normal_parts (Normal n # cs) = map_option ((#) n) (normal_parts cs)"
| "normal_parts (CurDir # cs) = normal_parts cs"
| "normal_parts (_ # cs) = None"

record resolved_target =
  rt_parent :: rel_path
  rt_leaf :: name
  rt_relative :: rel_path

definition target_path :: "resolved_target \<Rightarrow> rel_path" where
  "target_path t = rt_parent t @ [rt_leaf t]"

fun walk_parents ::
  "'d dir_ops \<Rightarrow> rel_path \<Rightarrow> rel_path \<Rightarrow> name list \<Rightarrow> 'd \<Rightarrow> 'd \<times> (root_refusal, unit) result" where
  "walk_parents ops root walked [] d = (d, Ok ())"
| "walk_parents ops root walked (part # parts) d =
     (let walked = walked @ [part]
      in case d_symlink_metadata ops d walked of
           (d, Ok KSymlink) \<Rightarrow> (d, Err (LinkComponent (root @ walked)))
         | (d, Ok _) \<Rightarrow> walk_parents ops root walked parts d
         | (d, Err (DirNotFound _)) \<Rightarrow> walk_parents ops root walked parts d
         | (d, Err e) \<Rightarrow> (d, Err (UnreadablePath (root @ walked) (dir_message e))))"

definition resolve_beneath ::
  "'d dir_ops \<Rightarrow> world \<Rightarrow> root_lease \<Rightarrow> component list \<Rightarrow> 'd \<Rightarrow> 'd \<times> (root_refusal, resolved_target) result" where
  "resolve_beneath ops w l relative d =
     (case capability w l of
        Err e \<Rightarrow> (d, Err e)
      | Ok _ \<Rightarrow>
          (case normal_parts relative of
             None \<Rightarrow> (d, Err (EscapesRoot relative))
           | Some [] \<Rightarrow> (d, Err (EscapesRoot relative))
           | Some parts \<Rightarrow>
               (case walk_parents ops (ls_root l) [] (butlast parts) d of
                  (d, Err e) \<Rightarrow> (d, Err e)
                | (d, Ok _) \<Rightarrow> (d, Ok \<lparr>rt_parent = ls_root l @ butlast parts, rt_leaf = last parts, rt_relative = parts\<rparr>))))"

definition refuse_link_relative ::
  "'d dir_ops \<Rightarrow> world \<Rightarrow> root_lease \<Rightarrow> rel_path \<Rightarrow> 'd \<Rightarrow> 'd \<times> (root_refusal, unit) result" where
  "refuse_link_relative ops w l relative d =
     (case capability w l of
        Err e \<Rightarrow> (d, Err e)
      | Ok _ \<Rightarrow>
          (case d_symlink_metadata ops d relative of
             (d, Ok KSymlink) \<Rightarrow> (d, Err (LinkComponent (ls_root l @ relative)))
           | (d, Ok _) \<Rightarrow> (d, Ok ())
           | (d, Err (DirNotFound _)) \<Rightarrow> (d, Ok ())
           | (d, Err e) \<Rightarrow> (d, Err (UnreadablePath (ls_root l @ relative) (dir_message e)))))"

text \<open>The prologue every operation beneath a lease shares: resolve, refuse a link leaf, take the capability.\<close>

definition guarded_target ::
  "'d dir_ops \<Rightarrow> world \<Rightarrow> root_lease \<Rightarrow> component list \<Rightarrow> 'd \<Rightarrow> 'd \<times> (root_refusal, resolved_target) result" where
  "guarded_target ops w l relative d =
     (case resolve_beneath ops w l relative d of
        (d, Err e) \<Rightarrow> (d, Err e)
      | (d, Ok t) \<Rightarrow>
          (case refuse_link_relative ops w l (rt_relative t) d of
             (d, Err e) \<Rightarrow> (d, Err e)
           | (d, Ok _) \<Rightarrow> (case capability w l of Err e \<Rightarrow> (d, Err e) | Ok _ \<Rightarrow> (d, Ok t))))"

section \<open>Receipts and reads\<close>

datatype replacement_step = TempCreated | Replaced | DelegatedVerified

record write_receipt =
  wr_steps :: "replacement_step list"
  wr_target :: rel_path
  wr_lease :: identity

definition verify_replacement_beneath ::
  "'d dir_ops \<Rightarrow> world \<Rightarrow> root_lease \<Rightarrow> component list \<Rightarrow> bytes \<Rightarrow> 'd \<Rightarrow> 'd \<times> (root_refusal, write_receipt option) result" where
  "verify_replacement_beneath ops w l relative expected d =
     (case guarded_target ops w l relative d of
        (d, Err e) \<Rightarrow> (d, Err e)
      | (d, Ok t) \<Rightarrow>
          (case d_read ops d (rt_relative t) of
             (d, Err e) \<Rightarrow> (d, Err (UnreadablePath (target_path t) (dir_message e)))
           | (d, Ok observed) \<Rightarrow>
               if observed \<noteq> expected then (d, Ok None)
               else (d, Ok (Some \<lparr>wr_steps = [DelegatedVerified], wr_target = target_path t, wr_lease = ls_identity l\<rparr>))))"

definition matches_optional_image_beneath ::
  "'d dir_ops \<Rightarrow> world \<Rightarrow> root_lease \<Rightarrow> component list \<Rightarrow> bytes option \<Rightarrow> 'd \<Rightarrow> 'd \<times> (root_refusal, bool) result" where
  "matches_optional_image_beneath ops w l relative expected d =
     (case guarded_target ops w l relative d of
        (d, Err e) \<Rightarrow> (d, Err e)
      | (d, Ok t) \<Rightarrow>
          (case d_read ops d (rt_relative t) of
             (d, Ok observed) \<Rightarrow> (d, Ok (expected = Some observed))
           | (d, Err (DirNotFound _)) \<Rightarrow> (d, Ok (expected = None))
           | (d, Err e) \<Rightarrow> (d, Err (UnreadablePath (target_path t) (dir_message e)))))"

section \<open>Staged replacement\<close>

definition MAX_TEMP_ATTEMPTS :: nat where
  "MAX_TEMP_ATTEMPTS = 16"

definition temp_name :: "nat \<Rightarrow> name \<Rightarrow> nat \<Rightarrow> nat \<Rightarrow> name" where
  "temp_name pid leaf serial attempt =
     leaf @ ''.symforge-tmp-'' @ decimal pid @ ''-'' @ decimal serial @ ''-'' @ decimal attempt"

text \<open>\<open>n\<close> attempts are left; \<open>serial\<close> is the process-wide \<open>NEXT_TEMP\<close> counter.\<close>

fun open_temp ::
  "'d dir_ops \<Rightarrow> nat \<Rightarrow> root_lease \<Rightarrow> resolved_target \<Rightarrow> nat \<Rightarrow> nat \<Rightarrow> 'd \<Rightarrow> 'd \<times> nat \<times> (root_refusal, rel_path option) result" where
  "open_temp ops pid l t 0 serial d = (d, serial, Ok None)"
| "open_temp ops pid l t (Suc n) serial d =
     (let candidate = butlast (rt_relative t) @ [temp_name pid (rt_leaf t) serial (MAX_TEMP_ATTEMPTS - Suc n)]
      in case d_create_new ops d candidate of
           (d, Ok _) \<Rightarrow> (d, serial + 1, Ok (Some candidate))
         | (d, Err (DirAlreadyExists _)) \<Rightarrow> open_temp ops pid l t n (serial + 1) d
         | (d, Err e) \<Rightarrow> (d, serial + 1, Err (UnreadablePath (ls_root l @ candidate) (dir_message e))))"

definition verify_owner_only :: "'d dir_ops \<Rightarrow> rel_path \<Rightarrow> 'd \<Rightarrow> 'd \<times> (dir_error, unit) result" where
  "verify_owner_only ops p d =
     (case d_mode ops d p of
        (d, Err e) \<Rightarrow> (d, Err e)
      | (d, Ok mode) \<Rightarrow> if mode mod 512 = 384 then (d, Ok ()) else (d, Err (DirOther ''owner-only mode was not preserved'')))"

definition protect_owner_only :: "'d dir_ops \<Rightarrow> rel_path \<Rightarrow> 'd \<Rightarrow> 'd \<times> (dir_error, unit) result" where
  "protect_owner_only ops p d = verify_owner_only ops p d"

record staged_replacement =
  sr_temp_relative :: rel_path
  sr_target_relative :: rel_path
  sr_target :: rel_path
  sr_lease :: identity
  sr_steps :: "replacement_step list"
  sr_owner_only :: bool

definition make_parent :: "'d dir_ops \<Rightarrow> resolved_target \<Rightarrow> 'd \<Rightarrow> 'd \<times> (root_refusal, unit) result" where
  "make_parent ops t d =
     (if butlast (rt_relative t) \<noteq> []
      then case d_create_dir_all ops d (butlast (rt_relative t)) of
             (d, Err e) \<Rightarrow> (d, Err (UnreadablePath (rt_parent t) (dir_message e)))
           | (d, Ok _) \<Rightarrow> (d, Ok ())
      else (d, Ok ()))"

definition fill_temp ::
  "'d dir_ops \<Rightarrow> root_lease \<Rightarrow> rel_path \<Rightarrow> bytes \<Rightarrow> bool \<Rightarrow> 'd \<Rightarrow> 'd \<times> (root_refusal, unit) result" where
  "fill_temp ops l temp contents owner_only d =
     (case (if owner_only then protect_owner_only ops temp d else (d, Ok ())) of
        (d, Err e) \<Rightarrow> (fst (d_remove_file ops d temp), Err (UnreadablePath (ls_root l @ temp) (dir_message e)))
      | (d, Ok _) \<Rightarrow>
          (case d_write_sync ops d temp contents of
             (d, Err e) \<Rightarrow> (fst (d_remove_file ops d temp), Err (UnreadablePath (ls_root l @ temp) (dir_message e)))
           | (d, Ok _) \<Rightarrow> (d, Ok ())))"

definition stage_replacement_with_policy ::
  "'d dir_ops \<Rightarrow> nat \<Rightarrow> world \<Rightarrow> root_lease \<Rightarrow> component list \<Rightarrow> bytes \<Rightarrow> bool \<Rightarrow> nat \<Rightarrow> 'd \<Rightarrow>
   'd \<times> nat \<times> (root_refusal, staged_replacement) result" where
  "stage_replacement_with_policy ops pid w l relative contents owner_only serial d =
     (case guarded_target ops w l relative d of
        (d, Err e) \<Rightarrow> (d, serial, Err e)
      | (d, Ok t) \<Rightarrow>
     (case d_try_clone ops d of
        (d, Err e) \<Rightarrow> (d, serial, Err (UnreadablePath (ls_root l) (dir_message e)))
      | (d, Ok _) \<Rightarrow>
     (case make_parent ops t d of
        (d, Err e) \<Rightarrow> (d, serial, Err e)
      | (d, Ok _) \<Rightarrow>
     (case open_temp ops pid l t MAX_TEMP_ATTEMPTS serial d of
        (d, serial, Err e) \<Rightarrow> (d, serial, Err e)
      | (d, serial, Ok None) \<Rightarrow>
          (d, serial, Err (UnreadablePath (rt_parent t) ''no unused temporary name was available beneath the leased root''))
      | (d, serial, Ok (Some temp)) \<Rightarrow>
     (case fill_temp ops l temp contents owner_only d of
        (d, Err e) \<Rightarrow> (d, serial, Err e)
      | (d, Ok _) \<Rightarrow>
          (d, serial, Ok \<lparr>sr_temp_relative = temp, sr_target_relative = rt_relative t, sr_target = target_path t,
                         sr_lease = ls_identity l, sr_steps = [TempCreated], sr_owner_only = owner_only\<rparr>))))))"

definition drop_staged :: "'d dir_ops \<Rightarrow> staged_replacement \<Rightarrow> 'd \<Rightarrow> 'd" where
  "drop_staged ops s d = (if sr_temp_relative s \<noteq> [] then fst (d_remove_file ops d (sr_temp_relative s)) else d)"

text \<open>\<open>commit\<close> consumes the stage, so every way out ends with its drop; success has forgotten the temporary.\<close>

definition staged_commit ::
  "'d dir_ops \<Rightarrow> world \<Rightarrow> staged_replacement \<Rightarrow> 'd \<Rightarrow> 'd \<times> (root_refusal, write_receipt) result" where
  "staged_commit ops w s d =
     (if sr_lease s \<in> set (w_dead w) then (drop_staged ops s d, Err LeaseRevoked)
      else case d_rename ops d (sr_temp_relative s) (sr_target_relative s) of
             (d, Err e) \<Rightarrow>
               (drop_staged ops s (fst (d_remove_file ops d (sr_temp_relative s))),
                Err (UnreadablePath (sr_target s) (dir_message e)))
           | (d, Ok _) \<Rightarrow>
               (case (if sr_owner_only s then verify_owner_only ops (sr_target_relative s) d else (d, Ok ())) of
                  (d, Err e) \<Rightarrow> (drop_staged ops s d, Err (UnreadablePath (sr_target s) (dir_message e)))
                | (d, Ok _) \<Rightarrow>
                    (drop_staged ops (s\<lparr>sr_temp_relative := []\<rparr>) d,
                     Ok \<lparr>wr_steps = sr_steps s @ [Replaced], wr_target = sr_target s, wr_lease = sr_lease s\<rparr>)))"

definition replace_with_policy ::
  "'d dir_ops \<Rightarrow> nat \<Rightarrow> world \<Rightarrow> world \<Rightarrow> root_lease \<Rightarrow> component list \<Rightarrow> bytes \<Rightarrow> bool \<Rightarrow> nat \<Rightarrow> 'd \<Rightarrow>
   'd \<times> nat \<times> (root_refusal, write_receipt) result" where
  "replace_with_policy ops pid w w' l relative contents owner_only serial d =
     (case stage_replacement_with_policy ops pid w l relative contents owner_only serial d of
        (d, serial, Err e) \<Rightarrow> (d, serial, Err e)
      | (d, serial, Ok s) \<Rightarrow> (case staged_commit ops w' s d of (d, r) \<Rightarrow> (d, serial, r)))"

text \<open>\<open>w'\<close> is the world when the stage commits: the lease may be revoked between the two steps.\<close>

definition replace_beneath ::
  "'d dir_ops \<Rightarrow> nat \<Rightarrow> world \<Rightarrow> world \<Rightarrow> root_lease \<Rightarrow> component list \<Rightarrow> bytes \<Rightarrow> nat \<Rightarrow> 'd \<Rightarrow>
   'd \<times> nat \<times> (root_refusal, write_receipt) result" where
  "replace_beneath ops pid w w' l relative contents = replace_with_policy ops pid w w' l relative contents False"

definition replace_owner_only_beneath ::
  "'d dir_ops \<Rightarrow> nat \<Rightarrow> world \<Rightarrow> world \<Rightarrow> root_lease \<Rightarrow> component list \<Rightarrow> bytes \<Rightarrow> nat \<Rightarrow> 'd \<Rightarrow>
   'd \<times> nat \<times> (root_refusal, write_receipt) result" where
  "replace_owner_only_beneath ops pid w w' l relative contents = replace_with_policy ops pid w w' l relative contents True"

section \<open>The calls a lease makes\<close>

text \<open>Every call on the capability with its outcome, in order, for a capability that obeys no law at all.\<close>

datatype dir_call =
    CMeta rel_path "(dir_error, entry_kind) result"
  | CRead rel_path
  | CClone
  | CMkdir rel_path
  | CCreate rel_path bool
  | CWrite rel_path bytes bool
  | CMode rel_path
  | CRename rel_path rel_path bool
  | CRemove rel_path

definition is_ok :: "('e, 'a) result \<Rightarrow> bool" where
  "is_ok r \<longleftrightarrow> (case r of Ok _ \<Rightarrow> True | Err _ \<Rightarrow> False)"

lemma is_ok_simps [simp]: "is_ok (Ok x) = True" "is_ok (Err e) = False"
  by (simp_all add: is_ok_def)

definition logging :: "('d \<Rightarrow> 'd \<times> ('e, 'a) result) \<Rightarrow> (('e, 'a) result \<Rightarrow> dir_call) \<Rightarrow> 'd \<times> dir_call list \<Rightarrow> ('d \<times> dir_call list) \<times> ('e, 'a) result" where
  "logging f c = (\<lambda>(d, log). let (d, r) = f d in ((d, log @ [c r]), r))"

definition logged_dir :: "'d dir_ops \<Rightarrow> ('d \<times> dir_call list) dir_ops" where
  "logged_dir ops =
     \<lparr>d_symlink_metadata = (\<lambda>s p. logging (\<lambda>d. d_symlink_metadata ops d p) (CMeta p) s),
      d_read = (\<lambda>s p. logging (\<lambda>d. d_read ops d p) (\<lambda>_. CRead p) s),
      d_try_clone = (\<lambda>s. logging (d_try_clone ops) (\<lambda>_. CClone) s),
      d_create_dir_all = (\<lambda>s p. logging (\<lambda>d. d_create_dir_all ops d p) (\<lambda>_. CMkdir p) s),
      d_create_new = (\<lambda>s p. logging (\<lambda>d. d_create_new ops d p) (\<lambda>r. CCreate p (is_ok r)) s),
      d_write_sync = (\<lambda>s p b. logging (\<lambda>d. d_write_sync ops d p b) (\<lambda>r. CWrite p b (is_ok r)) s),
      d_mode = (\<lambda>s p. logging (\<lambda>d. d_mode ops d p) (\<lambda>_. CMode p) s),
      d_rename = (\<lambda>s p q. logging (\<lambda>d. d_rename ops d p q) (\<lambda>r. CRename p q (is_ok r)) s),
      d_remove_file = (\<lambda>s p. logging (\<lambda>d. d_remove_file ops d p) (\<lambda>_. CRemove p) s)\<rparr>"

lemma logging_eq: "logging f c (d, log) = (s, r) \<longleftrightarrow> (\<exists>d'. f d = (d', r) \<and> s = (d', log @ [c r]))"
  by (auto simp: logging_def Let_def split: prod.splits)

lemma logging_state: "fst (logging f c (d, log)) = (fst (f d), log @ [c (snd (f d))])"
  by (simp add: logging_def Let_def split: prod.splits)

lemma logged_ops:
  "d_symlink_metadata (logged_dir ops) s p = logging (\<lambda>d. d_symlink_metadata ops d p) (CMeta p) s"
  "d_read (logged_dir ops) s p = logging (\<lambda>d. d_read ops d p) (\<lambda>_. CRead p) s"
  "d_try_clone (logged_dir ops) s = logging (d_try_clone ops) (\<lambda>_. CClone) s"
  "d_create_dir_all (logged_dir ops) s p = logging (\<lambda>d. d_create_dir_all ops d p) (\<lambda>_. CMkdir p) s"
  "d_create_new (logged_dir ops) s p = logging (\<lambda>d. d_create_new ops d p) (\<lambda>r. CCreate p (is_ok r)) s"
  "d_write_sync (logged_dir ops) s p b = logging (\<lambda>d. d_write_sync ops d p b) (\<lambda>r. CWrite p b (is_ok r)) s"
  "d_mode (logged_dir ops) s p = logging (\<lambda>d. d_mode ops d p) (\<lambda>_. CMode p) s"
  "d_rename (logged_dir ops) s p q = logging (\<lambda>d. d_rename ops d p q) (\<lambda>r. CRename p q (is_ok r)) s"
  "d_remove_file (logged_dir ops) s p = logging (\<lambda>d. d_remove_file ops d p) (\<lambda>_. CRemove p) s"
  by (simp_all add: logged_dir_def)


text \<open>The link checks of a walk: one per prefix, none of them seeing a link.\<close>

definition no_link :: "(dir_error, entry_kind) result \<Rightarrow> bool" where
  "no_link r \<longleftrightarrow> r \<noteq> Ok KSymlink"

lemma walk_parents_log:
  assumes "walk_parents (logged_dir ops) root walked parts (d, log) = ((d', log'), r)"
  shows "\<exists>rs. length rs \<le> length parts \<and>
    log' = log @ map (\<lambda>(i, x). CMeta (walked @ take (Suc i) parts) x) (enumerate 0 rs) \<and>
    (r = Ok () \<longrightarrow> length rs = length parts \<and> list_all no_link rs)"
  using assms
proof (induction parts arbitrary: walked d log)
  case Nil
  then show ?case by simp
next
  case (Cons part parts)
  obtain d1 x where x: "d_symlink_metadata ops d (walked @ [part]) = (d1, x)" by force
  show ?case
  proof (cases "walk_parents (logged_dir ops) root (walked @ [part]) parts (d1, log @ [CMeta (walked @ [part]) x]) = ((d', log'), r) \<and> no_link x")
    case True
    from Cons.IH [OF conjunct1 [OF True]] obtain rs where rs: "length rs \<le> length parts"
      "log' = (log @ [CMeta (walked @ [part]) x]) @ map (\<lambda>(i, x). CMeta ((walked @ [part]) @ take (Suc i) parts) x) (enumerate 0 rs)"
      "r = Ok () \<longrightarrow> length rs = length parts \<and> list_all no_link rs" by blast
    have "map (\<lambda>(i, x). CMeta (walked @ take (Suc i) (part # parts)) x) (enumerate 0 (x # rs)) =
      CMeta (walked @ [part]) x # map (\<lambda>(i, x). CMeta ((walked @ [part]) @ take (Suc i) parts) x) (enumerate 0 rs)"
      by (auto simp: enumerate_Suc_eq [of 0, simplified] apfst_def map_prod_def)
    then show ?thesis using rs True by (intro exI [of _ "x # rs"]) auto
  next
    case False
    then have "r \<noteq> Ok () \<and> log' = log @ [CMeta (walked @ [part]) x]"
      using Cons.prems x
      by (auto simp: logged_ops logging_def no_link_def Let_def split: sum.splits entry_kind.splits dir_error.splits)
    then show ?thesis by (intro exI [of _ "[x]"]) auto
  qed
qed

text \<open>The monitor of a replacement: which calls may change what, in which order.\<close>

fun replace_step :: "rel_path \<Rightarrow> bytes \<Rightarrow> (rel_path \<times> bool) option \<Rightarrow> dir_call \<Rightarrow> (rel_path \<times> bool) option option" where
  "replace_step tgt b None (CMkdir p) = (if p = butlast tgt then Some None else None)"
| "replace_step tgt b None (CCreate p ok) =
     (if p \<noteq> tgt \<and> butlast p = butlast tgt then Some (if ok then Some (p, False) else None) else None)"
| "replace_step tgt b (Some (q, False)) (CWrite p c ok) = (if p = q \<and> c = b then Some (Some (q, ok)) else None)"
| "replace_step tgt b (Some (q, True)) (CRename p p' ok) =
     (if p = q \<and> p' = tgt then Some (if ok then None else Some (q, True)) else None)"
| "replace_step tgt b st (CRemove p) = (if p \<noteq> tgt then Some None else None)"
| "replace_step tgt b st (CMeta p r) = Some st"
| "replace_step tgt b st (CRead p) = Some st"
| "replace_step tgt b st CClone = Some st"
| "replace_step tgt b st (CMode p) = Some st"
| "replace_step tgt b st c = None"

fun replace_run :: "rel_path \<Rightarrow> bytes \<Rightarrow> (rel_path \<times> bool) option \<Rightarrow> dir_call list \<Rightarrow> (rel_path \<times> bool) option option" where
  "replace_run tgt b st [] = Some st"
| "replace_run tgt b st (c # cs) = (case replace_step tgt b st c of None \<Rightarrow> None | Some st \<Rightarrow> replace_run tgt b st cs)"

lemma replace_run_append:
  "replace_run tgt b st (xs @ ys) = (case replace_run tgt b st xs of None \<Rightarrow> None | Some st \<Rightarrow> replace_run tgt b st ys)"
  by (induction xs arbitrary: st) (auto split: option.splits)

lemma replace_run_metas: "(\<And>c. c \<in> set cs \<Longrightarrow> \<exists>p r. c = CMeta p r) \<Longrightarrow> replace_run tgt b st cs = Some st"
  by (induction cs) (fastforce split: option.splits)+

lemma temp_name_longer: "temp_name pid leaf serial attempt \<noteq> leaf"
  by (simp add: temp_name_def)

lemma walk_refusal: "walk_parents ops root walked parts d = (d', Err e) \<Longrightarrow> e \<noteq> EscapesRoot cs"
  by (induction ops root walked parts d rule: walk_parents.induct)
    (auto simp: Let_def split: prod.splits sum.splits entry_kind.splits dir_error.splits)

lemma guarded_target_log:
  assumes "guarded_target (logged_dir ops) w l relative (d, log) = ((d', log'), r)"
  shows "\<exists>ms. log' = log @ ms \<and> (\<forall>c \<in> set ms. \<exists>p x. c = CMeta p x) \<and>
    (\<forall>t. r = Ok t \<longrightarrow> lease_is_live w l \<and> ls_open l \<and> normal_parts relative = Some (rt_relative t) \<and> rt_relative t \<noteq> [] \<and>
       rt_leaf t = last (rt_relative t) \<and> target_path t = ls_root l @ rt_relative t \<and> rt_parent t = ls_root l @ butlast (rt_relative t) \<and>
       (\<exists>rs. length rs = length (rt_relative t) \<and> list_all no_link rs \<and>
          ms = map (\<lambda>(i, x). CMeta (take (Suc i) (rt_relative t)) x) (enumerate 0 rs))) \<and>
    (normal_parts relative = None \<longrightarrow> ms = []) \<and> (\<forall>cs. r = Err (EscapesRoot cs) \<longrightarrow> ms = [])"
proof (cases "capability w l")
  case (Inl e)
  then show ?thesis
    using assms by (auto simp: guarded_target_def resolve_beneath_def capability_def split: if_splits)
next
  case (Inr u)
  then have live: "lease_is_live w l" "ls_open l" by (auto simp: capability_def split: if_splits)
  show ?thesis
  proof (cases "normal_parts relative = None \<or> normal_parts relative = Some []")
    case True
    then show ?thesis using assms Inr by (auto simp: guarded_target_def resolve_beneath_def)
  next
    case False
    then obtain parts where parts: "normal_parts relative = Some parts" "parts \<noteq> []" by auto
    obtain d1 log1 r1 where walk: "walk_parents (logged_dir ops) (ls_root l) [] (butlast parts) (d, log) = ((d1, log1), r1)"
      by (metis prod.collapse)
    obtain rs where rs: "length rs \<le> length (butlast parts)"
        "log1 = log @ map (\<lambda>(i, x). CMeta (take (Suc i) (butlast parts)) x) (enumerate 0 rs)"
        "r1 = Ok () \<longrightarrow> length rs = length (butlast parts) \<and> list_all no_link rs"
      using walk_parents_log [OF walk] by auto
    show ?thesis
    proof (cases r1)
      case (Inl e)
      have "r = Err e" "log' = log1"
        using assms Inr parts walk Inl
        by (auto simp: guarded_target_def resolve_beneath_def split: list.splits)
      moreover have "e \<noteq> EscapesRoot cs" for cs
        using walk Inl by (auto dest: walk_refusal)
      ultimately show ?thesis using rs(2) parts by auto
    next
      case (Inr v)
      let ?t = "\<lparr>rt_parent = ls_root l @ butlast parts, rt_leaf = last parts, rt_relative = parts\<rparr>"
      have res: "resolve_beneath (logged_dir ops) w l relative (d, log) = ((d1, log1), Ok ?t)"
        using \<open>capability w l = Inr u\<close> parts walk Inr by (auto simp: resolve_beneath_def split: list.splits)
      obtain d2 x where x: "d_symlink_metadata ops d1 parts = (d2, x)" by force
      have g: "log' = log1 @ [CMeta parts x] \<and> (\<forall>t. r = Ok t \<longrightarrow> t = ?t \<and> no_link x) \<and> (\<forall>cs. r \<noteq> Err (EscapesRoot cs))"
        using assms res \<open>capability w l = Inr u\<close> x
        by (auto simp: guarded_target_def refuse_link_relative_def logged_ops logging_def no_link_def
            split: sum.splits entry_kind.splits dir_error.splits)
      have tk: "take (Suc i) (butlast parts) = take (Suc i) parts" if "i < length (butlast parts)" for i
        using that by (simp add: take_butlast)
      have "log' = log @ map (\<lambda>(i, x). CMeta (take (Suc i) parts) x) (enumerate 0 (rs @ [x]))"
        if "length rs = length (butlast parts)"
      proof -
        have "map (\<lambda>(i, x). CMeta (take (Suc i) (butlast parts)) x) (enumerate 0 rs) =
            map (\<lambda>(i, x). CMeta (take (Suc i) parts) x) (enumerate 0 rs)"
          using tk that by (auto simp: in_set_enumerate_eq)
        moreover have "enumerate 0 (rs @ [x]) = enumerate 0 rs @ [(length rs, x)]" by (simp add: enumerate_append_eq)
        ultimately show ?thesis using g rs(2) that parts(2) by simp
      qed
      then show ?thesis
        using g rs Inr parts live
        by (intro exI [of _ "map (\<lambda>(i, x). CMeta (take (Suc i) parts) x) (enumerate 0 (rs @ [x]))"])
          (auto simp: target_path_def list_all_append intro!: exI [of _ "rs @ [x]"])
    qed
  qed
qed

text \<open>
  \<open>moves tgt b st st' log log'\<close>: the log grew by calls that rename nothing and take the monitor from one
  state to the other.
\<close>

definition moves ::
  "rel_path \<Rightarrow> bytes \<Rightarrow> (rel_path \<times> bool) option \<Rightarrow> (rel_path \<times> bool) option \<Rightarrow> dir_call list \<Rightarrow> dir_call list \<Rightarrow> bool" where
  "moves tgt b st st' log log' \<longleftrightarrow>
     (\<exists>new. log' = log @ new \<and> (\<forall>p q ok. CRename p q ok \<notin> set new) \<and> replace_run tgt b st new = Some st')"

lemma moves_trans [trans]: "moves tgt b x y l1 l2 \<Longrightarrow> moves tgt b y z l2 l3 \<Longrightarrow> moves tgt b x z l1 l3"
proof -
  assume "moves tgt b x y l1 l2" "moves tgt b y z l2 l3"
  then obtain n m where "l2 = l1 @ n" "l3 = l2 @ m" "\<forall>p q ok. CRename p q ok \<notin> set n \<and> CRename p q ok \<notin> set m"
    "replace_run tgt b x n = Some y" "replace_run tgt b y m = Some z"
    unfolding moves_def by blast
  then show "moves tgt b x z l1 l3" unfolding moves_def by (intro exI [of _ "n @ m"]) (simp add: replace_run_append)
qed

lemma moves_snoc:
  assumes "moves tgt b x y l1 l2" "replace_step tgt b y c = Some z" "\<forall>p q ok. c \<noteq> CRename p q ok"
  shows "moves tgt b x z l1 (l2 @ [c])"
proof (rule moves_trans [OF assms(1)])
  show "moves tgt b y z l2 (l2 @ [c])" unfolding moves_def using assms(2,3) by (intro exI [of _ "[c]"]) auto
qed

lemma moves_refl: "moves tgt b x x l l"
  by (simp add: moves_def)

lemma open_temp_log:
  assumes "open_temp (logged_dir ops) pid l t n serial (d, log) = ((d', log'), serial', r)"
    and "rt_relative t \<noteq> []" "rt_leaf t = last (rt_relative t)"
  shows "case r of
      Ok (Some temp) \<Rightarrow> moves (rt_relative t) b None (Some (temp, False)) log log' \<and> temp \<noteq> rt_relative t \<and> temp \<noteq> []
    | _ \<Rightarrow> moves (rt_relative t) b None None log log'"
  using assms(1)
proof (induction n arbitrary: serial d log)
  case (Suc n)
  define cand where "cand = butlast (rt_relative t) @ [temp_name pid (rt_leaf t) serial (MAX_TEMP_ATTEMPTS - Suc n)]"
  have c: "butlast cand = butlast (rt_relative t)" "cand \<noteq> []" "cand \<noteq> rt_relative t"
    using assms(2,3) temp_name_longer by (auto simp: cand_def) (metis last_snoc)
  obtain d1 x where x: "d_create_new ops d cand = (d1, x)" by force
  define log1 where "log1 = log @ [CCreate cand (is_ok x)]"
  have x': "d_create_new (logged_dir ops) (d, log) cand = ((d1, log1), x)"
    using x by (simp add: logged_ops logging_def log1_def)
  have one: "moves (rt_relative t) b None (if is_ok x then Some (cand, False) else None) log log1"
    unfolding log1_def by (rule moves_snoc [OF moves_refl]) (use c in auto)
  note step = Suc.prems [unfolded open_temp.simps Let_def cand_def [symmetric] x']
  show ?case
  proof (cases "\<exists>m. x = Err (DirAlreadyExists m)")
    case True
    with step have "open_temp (logged_dir ops) pid l t n (serial + 1) (d1, log1) = ((d', log'), serial', r)" by auto
    from Suc.IH [OF this] one True show ?thesis by (auto split: sum.splits option.splits intro: moves_trans)
  next
    case False
    then show ?thesis using step c one by (auto split: sum.splits dir_error.splits)
  qed
qed (auto simp: moves_refl)

lemma verify_owner_only_log:
  "verify_owner_only (logged_dir ops) p (d, log) = ((d', log'), r) \<Longrightarrow> log' = log @ [CMode p]"
  by (auto simp: verify_owner_only_def logged_ops logging_def split: prod.splits sum.splits if_splits)

lemma make_parent_log:
  assumes "make_parent (logged_dir ops) t (d, log) = ((d', log'), r)"
  shows "moves (rt_relative t) b None None log log'"
proof (cases "butlast (rt_relative t) = []")
  case False
  then have "log' = log @ [CMkdir (butlast (rt_relative t))]"
    using assms by (auto simp: make_parent_def logged_ops logging_def split: prod.splits sum.splits)
  then show ?thesis by (simp add: moves_snoc [OF moves_refl])
qed (use assms in \<open>simp add: make_parent_def moves_refl\<close>)

lemma remove_log:
  assumes "moves tgt b x y l1 l2" "p \<noteq> tgt"
  shows "moves tgt b x None l1 (snd (fst (d_remove_file (logged_dir ops) (d, l2) p)))"
  using moves_snoc [OF assms(1), of "CRemove p" None] assms(2)
  by (cases y) (auto simp: logged_ops logging_state split: prod.splits)

lemma fill_temp_log:
  assumes "fill_temp (logged_dir ops) l temp b oo (d, log) = ((d', log'), r)" and "temp \<noteq> tgt"
  shows "moves tgt b (Some (temp, False)) (case r of Ok _ \<Rightarrow> Some (temp, True) | Err _ \<Rightarrow> None) log log'"
proof -
  obtain d1 log1 x1 where x1: "(if oo then protect_owner_only (logged_dir ops) temp (d, log) else ((d, log), Ok ())) = ((d1, log1), x1)"
    by (metis prod.collapse)
  have m1: "moves tgt b (Some (temp, False)) (Some (temp, False)) log log1"
    using x1 verify_owner_only_log [of ops temp d log d1 log1 x1]
    by (cases oo) (auto simp: protect_owner_only_def moves_refl intro: moves_snoc [OF moves_refl])
  obtain d2 x2 where x2: "d_write_sync ops d1 temp b = (d2, x2)" by force
  let ?log2 = "log1 @ [CWrite temp b (is_ok x2)]"
  have w: "d_write_sync (logged_dir ops) (d1, log1) temp b = ((d2, ?log2), x2)" using x2 by (simp add: logged_ops logging_def)
  have m2: "moves tgt b (Some (temp, False)) (Some (temp, is_ok x2)) log ?log2"
    by (rule moves_snoc [OF m1]) auto
  note f = assms(1) [unfolded fill_temp_def x1 prod.case]
  show ?thesis
  proof (cases x1)
    case (Inl e)
    then show ?thesis using f remove_log [OF m1 assms(2), of ops d1] by auto
  next
    case (Inr u)
    then show ?thesis using f w m2 remove_log [OF m2 assms(2), of ops d2] by (cases x2) auto
  qed
qed

text \<open>A stage that fails has cleaned up; a stage that succeeds holds a fully written temporary.\<close>

lemma stage_log:
  assumes "stage_replacement_with_policy (logged_dir ops) pid w l relative contents oo serial (d, log) = ((d', log'), serial', r)"
  shows "case r of
      Err e \<Rightarrow> (case normal_parts relative of None \<Rightarrow> log' = log | Some tgt \<Rightarrow> moves tgt contents None None log log')
    | Ok s \<Rightarrow> lease_is_live w l \<and> normal_parts relative = Some (sr_target_relative s) \<and>
        moves (sr_target_relative s) contents None (Some (sr_temp_relative s, True)) log log' \<and>
        sr_temp_relative s \<noteq> sr_target_relative s \<and> sr_temp_relative s \<noteq> [] \<and> sr_lease s = ls_identity l \<and>
        sr_target s = ls_root l @ sr_target_relative s \<and> sr_steps s = [TempCreated] \<and> sr_owner_only s = oo"
proof -
  obtain d1 log1 r1 where g: "guarded_target (logged_dir ops) w l relative (d, log) = ((d1, log1), r1)" by (metis prod.collapse)
  obtain ms where ms: "log1 = log @ ms" "\<forall>c \<in> set ms. \<exists>p x. c = CMeta p x" "normal_parts relative = None \<longrightarrow> ms = []"
    and ok: "\<forall>t. r1 = Ok t \<longrightarrow> lease_is_live w l \<and> normal_parts relative = Some (rt_relative t) \<and> rt_relative t \<noteq> [] \<and>
       rt_leaf t = last (rt_relative t) \<and> target_path t = ls_root l @ rt_relative t"
  proof -
    from guarded_target_log [OF g] show thesis by (elim exE conjE) (rule that, assumption, assumption, assumption, simp)
  qed
  have m1: "moves tgt contents None None log log1" for tgt
    unfolding moves_def using ms(1,2) replace_run_metas [of ms] by (intro exI [of _ ms]) fastforce
  note st = assms [unfolded stage_replacement_with_policy_def g]
  show ?thesis
  proof (cases r1)
    case (Inl e)
    then show ?thesis using st ms m1 by (auto split: option.split)
  next
    case (Inr t)
    let ?tgt = "rt_relative t"
    have t: "lease_is_live w l" "normal_parts relative = Some ?tgt" "?tgt \<noteq> []" "rt_leaf t = last ?tgt" "target_path t = ls_root l @ ?tgt"
      using ok Inr by auto
    obtain d2 x2 where x2: "d_try_clone (logged_dir ops) (d1, log1) = ((d2, log1 @ [CClone]), x2)"
      by (cases "d_try_clone ops d1") (simp add: logged_ops logging_def)
    have m2: "moves ?tgt contents None None log (log1 @ [CClone])" by (rule moves_snoc [OF m1]) auto
    obtain d3 log3 x3 where x3: "make_parent (logged_dir ops) t (d2, log1 @ [CClone]) = ((d3, log3), x3)" by (metis prod.collapse)
    note m3 = moves_trans [OF m2 make_parent_log [OF x3]]
    obtain d4 log4 s4 x4 where x4: "open_temp (logged_dir ops) pid l t MAX_TEMP_ATTEMPTS serial (d3, log3) = ((d4, log4), s4, x4)"
      by (metis prod.collapse)
    note m4 = open_temp_log [OF x4 t(3,4), of contents]
    note st = st [unfolded Inr x2 x3 x4 prod.case sum.case]
    show ?thesis
    proof (cases "\<exists>temp. x2 = Ok () \<and> x3 = Ok () \<and> x4 = Ok (Some temp)")
      case False
      then show ?thesis using st t m2 m3 m4 by (auto split: sum.splits option.splits intro: moves_trans)
    next
      case True
      then obtain temp where x: "x2 = Ok ()" "x3 = Ok ()" "x4 = Ok (Some temp)" by blast
      obtain d5 log5 x5 where x5: "fill_temp (logged_dir ops) l temp contents oo (d4, log4) = ((d5, log5), x5)" by (metis prod.collapse)
      have m5: "moves ?tgt contents None (case x5 of Ok _ \<Rightarrow> Some (temp, True) | Err _ \<Rightarrow> None) log log5" "temp \<noteq> ?tgt" "temp \<noteq> []"
        using m4 x fill_temp_log [OF x5, of ?tgt] by (auto intro: moves_trans [OF m3] moves_trans)
      then show ?thesis using st x x5 t by (auto split: sum.splits)
    qed
  qed
qed

lemma drop_staged_log:
  "snd (drop_staged (logged_dir ops) s (d, log)) = log @ (if sr_temp_relative s \<noteq> [] then [CRemove (sr_temp_relative s)] else [])"
  by (simp add: drop_staged_def logged_ops logging_state)

text \<open>A commit renames once, to the target, while its lease is live; every other way out removes the temporary.\<close>

lemma staged_commit_log:
  assumes "staged_commit (logged_dir ops) w s (d, log) = ((d', log'), r)"
    and s: "sr_temp_relative s \<noteq> sr_target_relative s" "sr_temp_relative s \<noteq> []"
  defines "tmp \<equiv> sr_temp_relative s" and "tgt \<equiv> sr_target_relative s"
  shows "\<exists>new. log' = log @ new \<and> replace_run tgt b (Some (tmp, True)) new = Some None \<and>
    (case r of
       Ok rec \<Rightarrow> CRename tmp tgt True \<in> set new \<and> rec = \<lparr>wr_steps = sr_steps s @ [Replaced], wr_target = sr_target s, wr_lease = sr_lease s\<rparr>
     | Err e \<Rightarrow> sr_owner_only s \<or> (\<forall>p q. CRename p q True \<notin> set new)) \<and>
    (sr_lease s \<in> set (w_dead w) \<longrightarrow> (\<exists>e. r = Err e) \<and> (\<forall>p q ok. CRename p q ok \<notin> set new))"
proof (cases "sr_lease s \<in> set (w_dead w)")
  case True
  then have "log' = log @ [CRemove tmp]" "r = Err LeaseRevoked"
    using assms(1) s drop_staged_log [of ops s d log] by (auto simp: staged_commit_def tmp_def)
  then show ?thesis using s by (intro exI [of _ "[CRemove tmp]"]) (auto simp: tmp_def tgt_def)
next
  case False
  obtain d1 x1 where x1: "d_rename ops d tmp tgt = (d1, x1)" by force
  have r1: "d_rename (logged_dir ops) (d, log) tmp tgt = ((d1, log @ [CRename tmp tgt (is_ok x1)]), x1)"
    using x1 by (simp add: logged_ops logging_def)
  note c = assms(1) [unfolded staged_commit_def if_not_P [OF False], folded tmp_def tgt_def, unfolded r1 prod.case]
  show ?thesis
  proof (cases x1)
    case (Inl e)
    obtain d2 x2 where x2: "d_remove_file (logged_dir ops) (d1, log @ [CRename tmp tgt False]) tmp =
        ((d2, log @ [CRename tmp tgt False, CRemove tmp]), x2)"
      by (cases "d_remove_file ops d1 tmp") (simp add: logged_ops logging_def)
    have "log' = log @ [CRename tmp tgt False, CRemove tmp, CRemove tmp]" "\<exists>e. r = Err e"
      using c Inl x2 s drop_staged_log [of ops s d2 "log @ [CRename tmp tgt False, CRemove tmp]"] by (auto simp: tmp_def)
    then show ?thesis
      using False s by (intro exI [of _ "[CRename tmp tgt False, CRemove tmp, CRemove tmp]"]) (auto simp: tmp_def tgt_def)
  next
    case (Inr u)
    let ?log1 = "log @ [CRename tmp tgt True]"
    obtain d2 log2 x2 where x2: "(if sr_owner_only s then verify_owner_only (logged_dir ops) tgt (d1, ?log1) else ((d1, ?log1), Ok ())) = ((d2, log2), x2)"
      by (metis prod.collapse)
    obtain md where md: "log2 = ?log1 @ md" "md = [] \<or> md = [CMode tgt]" "sr_owner_only s \<or> x2 = Ok ()"
      using x2 verify_owner_only_log [of ops tgt d1 ?log1 d2 log2 x2] by (cases "sr_owner_only s") auto
    note c = c [unfolded Inr is_ok_simps sum.case x2 prod.case]
    show ?thesis
    proof (cases x2)
      case (Inl e)
      then have "log' = log @ CRename tmp tgt True # md @ [CRemove tmp]" "r = Err (UnreadablePath (sr_target s) (dir_message e))"
        using c md(1) s drop_staged_log [of ops s d2 log2] by (auto simp: tmp_def)
      then show ?thesis
        using False s md Inl by (intro exI [of _ "CRename tmp tgt True # md @ [CRemove tmp]"]) (auto simp: tmp_def tgt_def)
    next
      case (Inr v)
      then show ?thesis
        using c False md drop_staged_log [of ops "s\<lparr>sr_temp_relative := []\<rparr>" d2 log2]
        by (intro exI [of _ "CRename tmp tgt True # md"]) auto
    qed
  qed
qed





section \<open>Properties\<close>


text \<open>
  C17: the target of a replacement is never exposed half-written. For a capability that obeys no law, every
  run of a replacement only creates its parent directory, creates and writes a temporary of another name in
  the same directory, renames that temporary onto the target after all its bytes were written and synced,
  and removes it on every other way out. A receipt names this lease, and the rename it reports happened
  while the lease was live; a lease revoked between staging and committing renames nothing; an error after
  the rename can only be the failed owner-only check.
\<close>

theorem replace_temp_first:
  assumes "replace_with_policy (logged_dir ops) pid w w' l relative contents oo serial (d, []) = ((d', log), serial', r)"
  shows "(case normal_parts relative of None \<Rightarrow> log = [] | Some tgt \<Rightarrow> replace_run tgt contents None log = Some None) \<and>
    (case r of
       Ok rec \<Rightarrow> wr_lease rec = ls_identity l \<and> wr_steps rec = [TempCreated, Replaced] \<and> lease_is_live w l \<and> lease_is_live w' l \<and>
         (\<exists>tmp tgt. normal_parts relative = Some tgt \<and> wr_target rec = ls_root l @ tgt \<and> CRename tmp tgt True \<in> set log)
     | Err e \<Rightarrow> oo \<or> (\<forall>p q. CRename p q True \<notin> set log)) \<and>
    (lease_is_live w' l \<or> (\<forall>p q ok. CRename p q ok \<notin> set log))"
proof -
  obtain d1 log1 s1 r1 where st: "stage_replacement_with_policy (logged_dir ops) pid w l relative contents oo serial (d, []) = ((d1, log1), s1, r1)"
    by (metis prod.collapse)
  note sl = stage_log [OF st]
  show ?thesis
  proof (cases r1)
    case (Inl e)
    then have "log = log1" "r = Err e" using assms st by (auto simp: replace_with_policy_def)
    then show ?thesis using sl Inl by (auto simp: moves_def split: option.splits)
  next
    case (Inr s)
    then have s: "lease_is_live w l" "normal_parts relative = Some (sr_target_relative s)"
        "moves (sr_target_relative s) contents None (Some (sr_temp_relative s, True)) [] log1"
        "sr_temp_relative s \<noteq> sr_target_relative s" "sr_temp_relative s \<noteq> []" "sr_lease s = ls_identity l"
        "sr_target s = ls_root l @ sr_target_relative s" "sr_steps s = [TempCreated]" "sr_owner_only s = oo"
      using sl by auto
    have c: "staged_commit (logged_dir ops) w' s (d1, log1) = ((d', log), r)"
      using assms st Inr by (auto simp: replace_with_policy_def split: prod.splits)
    from staged_commit_log [OF c s(4,5), of contents] obtain new where new: "log = log1 @ new"
      "replace_run (sr_target_relative s) contents (Some (sr_temp_relative s, True)) new = Some None"
      "case r of Ok rec \<Rightarrow> CRename (sr_temp_relative s) (sr_target_relative s) True \<in> set new \<and>
          rec = \<lparr>wr_steps = sr_steps s @ [Replaced], wr_target = sr_target s, wr_lease = sr_lease s\<rparr>
        | Err e \<Rightarrow> sr_owner_only s \<or> (\<forall>p q. CRename p q True \<notin> set new)"
      "sr_lease s \<in> set (w_dead w') \<longrightarrow> (\<exists>e. r = Err e) \<and> (\<forall>p q ok. CRename p q ok \<notin> set new)"
      by blast
    have "replace_run (sr_target_relative s) contents None log = Some None" "\<forall>p q ok. CRename p q ok \<notin> set log1"
      using s(3) new(1,2) by (auto simp: moves_def replace_run_append)
    then show ?thesis
      using s new by (auto simp: lease_is_live_def split: sum.splits)
  qed
qed

section \<open>Witness\<close>

text \<open>A directory held in memory: every directory exists, files are bytes by path.\<close>

definition mem_dir :: "(rel_path, bytes) hmap dir_ops" where
  "mem_dir =
     \<lparr>d_symlink_metadata = (\<lambda>d p. (d, if hget d p = None then Err (DirNotFound []) else Ok KFile)),
      d_read = (\<lambda>d p. (d, case hget d p of None \<Rightarrow> Err (DirNotFound []) | Some b \<Rightarrow> Ok b)),
      d_try_clone = (\<lambda>d. (d, Ok ())),
      d_create_dir_all = (\<lambda>d p. (d, Ok ())),
      d_create_new = (\<lambda>d p. if hget d p = None then (hinsert p [] d, Ok ()) else (d, Err (DirAlreadyExists []))),
      d_write_sync = (\<lambda>d p b. (hinsert p b d, Ok ())),
      d_mode = (\<lambda>d p. (d, Ok 384)),
      d_rename = (\<lambda>d p q. case hget d p of None \<Rightarrow> (d, Err (DirNotFound [])) | Some b \<Rightarrow> (hinsert q b (hremove p d), Ok ())),
      d_remove_file = (\<lambda>d p. if hget d p = None then (d, Err (DirNotFound [])) else (hremove p d, Ok ()))\<rparr>"

definition wit_lease :: root_lease where
  "wit_lease = \<lparr>ls_identity = 1, ls_root = [''r''], ls_open = True\<rparr>"

definition wit_replaced :: "(((rel_path, bytes) hmap \<times> dir_call list) \<times> nat \<times> (root_refusal, write_receipt) result)" where
  "wit_replaced = replace_with_policy (logged_dir mem_dir) 7 wit_world wit_world wit_lease [Normal ''s'', CurDir, Normal ''a'']
       [1, 2] True 3 ([([''s'', ''a''], [9])], [])"

lemma wit_replaced_ok: "is_ok (snd (snd wit_replaced)) \<and> hget (fst (fst wit_replaced)) [''s'', ''a''] = Some [1, 2]"
  by code_simp

theorem replace_temp_first_witness:
  "\<exists>d' log serial' rec tmp. replace_with_policy (logged_dir mem_dir) 7 wit_world wit_world wit_lease [Normal ''s'', CurDir, Normal ''a'']
       [1, 2] True 3 ([([''s'', ''a''], [9])], []) = ((d', log), serial', Ok rec) \<and> hget d' [''s'', ''a''] = Some [1, 2] \<and>
     wr_lease rec = 1 \<and> CRename tmp [''s'', ''a''] True \<in> set log"
proof -
  obtain d' log serial' r where w: "wit_replaced = ((d', log), serial', r)" by (metis prod.collapse)
  have "is_ok r" and h: "hget d' [''s'', ''a''] = Some [1, 2]" using wit_replaced_ok unfolding w by simp_all
  then obtain rec where "r = Ok rec" by (cases r) auto
  with w have r: "wit_replaced = ((d', log), serial', Ok rec)" by simp
  from replace_temp_first [OF r [unfolded wit_replaced_def]] r h show ?thesis
    unfolding wit_replaced_def by (auto simp: wit_lease_def)
qed

end
