(* ===== verification/Mutation.thy ===== *)
theory Mutation
  imports PhysicalRoot
begin

text \<open>
  Source mutation permits (\<open>src/index_lifecycle/mutation.rs\<close>) and the Freeze, Drain, Install transition
  (\<open>src/index_lifecycle/transition.rs\<close>).

  A drain signal is shared between a permit and its source: signals live in a store, the list \<open>sg\<close>, and are
  named by their index. A permit is owned by one holder, so its operations take and return it.
\<close>

section \<open>Drain signals\<close>

datatype permit_end = TermCommitted | TermNoSideEffect | TermDrained

datatype permit_state = Granted | InFlight | Terminal permit_end

record drain_signal =
  dr_armed :: bool
  dr_ended :: bool
  dr_termination :: "permit_end option"

type_synonym signals = "drain_signal list"

definition drain_new :: drain_signal where
  "drain_new = \<lparr>dr_armed = False, dr_ended = False, dr_termination = None\<rparr>"

definition has_ended :: "drain_signal \<Rightarrow> bool" where
  "has_ended s \<longleftrightarrow> \<not> dr_armed s \<or> dr_ended s"

definition arm :: "drain_signal \<Rightarrow> drain_signal" where
  "arm s = s\<lparr>dr_armed := True\<rparr>"

definition record_end :: "permit_end \<Rightarrow> drain_signal \<Rightarrow> drain_signal" where
  "record_end t s = (if dr_termination s = None then s\<lparr>dr_termination := Some t, dr_ended := True\<rparr> else s)"

definition on_signal :: "nat \<Rightarrow> (drain_signal \<Rightarrow> drain_signal) \<Rightarrow> signals \<Rightarrow> signals" where
  "on_signal i f sg = (if i < length sg then sg[i := f (sg ! i)] else sg)"

section \<open>Permits\<close>

record refresh_ticket =
  tk_epoch :: nat
  tk_termination :: permit_end

record mutation_permit =
  pm_authority :: mutation_authority
  pm_proof :: non_current_proof
  pm_lease :: root_lease
  pm_state :: permit_state
  pm_drain :: nat

definition permit_grant ::
  "grant_authority \<Rightarrow> root_lease \<Rightarrow> nat \<Rightarrow> world \<Rightarrow> signals \<Rightarrow> signals \<times> (authority_refusal, mutation_permit) result" where
  "permit_grant g l drain w sg =
     (let b = ma_binding (ga_authority g)
      in if b_root b \<noteq> ls_identity l then (sg, Err WholeAuthorityMismatch)
         else if \<not> binding_is_live w b then (sg, Err (BindingRevoked (b_identity b)))
         else if \<not> lease_is_live w l then (sg, Err PhysicalRootReplaced)
         else (on_signal drain arm sg,
               Ok \<lparr>pm_authority = ga_authority g, pm_proof = ga_proof g, pm_lease = l, pm_state = Granted, pm_drain = drain\<rparr>))"

definition authority_result :: "(root_refusal, 'a) result \<Rightarrow> (authority_refusal, 'a) result" where
  "authority_result r = (case r of Err e \<Rightarrow> Err (refusal_to_authority e) | Ok x \<Rightarrow> Ok x)"

definition permit_replace_beneath ::
  "'d dir_ops \<Rightarrow> nat \<Rightarrow> world \<Rightarrow> world \<Rightarrow> mutation_permit \<Rightarrow> component list \<Rightarrow> bytes \<Rightarrow> nat \<Rightarrow> 'd \<Rightarrow>
   'd \<times> nat \<times> (authority_refusal, write_receipt) result" where
  "permit_replace_beneath ops pid w w' p relative contents serial d =
     (if pm_state p \<noteq> InFlight then (d, serial, Err PermitAlreadyTerminal)
      else case replace_beneath ops pid w w' (pm_lease p) relative contents serial d of
             (d, serial, r) \<Rightarrow> (d, serial, authority_result r))"

definition permit_replace_owner_only_beneath ::
  "'d dir_ops \<Rightarrow> nat \<Rightarrow> world \<Rightarrow> world \<Rightarrow> mutation_permit \<Rightarrow> component list \<Rightarrow> bytes \<Rightarrow> nat \<Rightarrow> 'd \<Rightarrow>
   'd \<times> nat \<times> (authority_refusal, write_receipt) result" where
  "permit_replace_owner_only_beneath ops pid w w' p relative contents serial d =
     (if pm_state p \<noteq> InFlight then (d, serial, Err PermitAlreadyTerminal)
      else case replace_owner_only_beneath ops pid w w' (pm_lease p) relative contents serial d of
             (d, serial, r) \<Rightarrow> (d, serial, authority_result r))"

definition attest_delegated_beneath ::
  "'d dir_ops \<Rightarrow> world \<Rightarrow> mutation_permit \<Rightarrow> component list \<Rightarrow> bytes \<Rightarrow> 'd \<Rightarrow>
   'd \<times> (authority_refusal, write_receipt option) result" where
  "attest_delegated_beneath ops w p relative expected d =
     (if pm_state p \<noteq> InFlight then (d, Err PermitAlreadyTerminal)
      else case verify_replacement_beneath ops w (pm_lease p) relative expected d of
             (d, r) \<Rightarrow> (d, authority_result r))"

definition is_terminal :: "mutation_permit \<Rightarrow> bool" where
  "is_terminal p \<longleftrightarrow> (case pm_state p of Terminal _ \<Rightarrow> True | _ \<Rightarrow> False)"

definition start_side_effect :: "world \<Rightarrow> mutation_permit \<Rightarrow> mutation_permit \<times> (authority_refusal, unit) result" where
  "start_side_effect w p =
     (case pm_state p of
        Terminal _ \<Rightarrow> (p, Err PermitAlreadyTerminal)
      | InFlight \<Rightarrow> (p, Err SideEffectAlreadyInFlight)
      | Granted \<Rightarrow>
          if \<not> lease_is_live w (pm_lease p) then (p, Err PhysicalRootReplaced)
          else (p\<lparr>pm_state := InFlight\<rparr>, Ok ()))"

definition finish ::
  "permit_end \<Rightarrow> mutation_permit \<Rightarrow> signals \<Rightarrow> mutation_permit \<times> signals \<times> (authority_refusal, refresh_ticket) result" where
  "finish t p sg =
     (p\<lparr>pm_state := Terminal t\<rparr>, on_signal (pm_drain p) (record_end t) sg,
      Ok \<lparr>tk_epoch = ma_epoch (pm_authority p), tk_termination = t\<rparr>)"

definition permit_commit ::
  "write_receipt \<Rightarrow> mutation_permit \<Rightarrow> signals \<Rightarrow>
   mutation_permit \<times> signals \<times> (authority_refusal, refresh_ticket) result" where
  "permit_commit receipt p sg =
     (if pm_state p \<noteq> InFlight then (p, sg, Err PermitAlreadyTerminal)
      else if wr_lease receipt \<noteq> ls_identity (pm_lease p) then (p, sg, Err WholeAuthorityMismatch)
      else finish TermCommitted p sg)"

definition no_side_effect ::
  "mutation_permit \<Rightarrow> signals \<Rightarrow> mutation_permit \<times> signals \<times> (authority_refusal, refresh_ticket) result" where
  "no_side_effect p sg =
     (case pm_state p of
        Terminal _ \<Rightarrow> (p, sg, Err PermitAlreadyTerminal)
      | InFlight \<Rightarrow> (p, sg, Err SideEffectAlreadyInFlight)
      | Granted \<Rightarrow> finish TermNoSideEffect p sg)"

definition drop_mutation_permit :: "mutation_permit \<Rightarrow> signals \<Rightarrow> signals" where
  "drop_mutation_permit p sg = (if is_terminal p then sg else on_signal (pm_drain p) (record_end TermDrained) sg)"

section \<open>Transitions\<close>

datatype transition_kind = Reload | Rebind | PhysicalRootReplacement

datatype transition_step = FreezeStep | DrainStep | InstallStep

record transition_receipt =
  tr_kind :: transition_kind
  tr_steps :: "transition_step list"

definition transition_apply ::
  "transition_kind \<Rightarrow> root_lease \<Rightarrow> binding_authority \<Rightarrow> identity \<Rightarrow> drain_signal \<Rightarrow> source_runtime \<Rightarrow> world \<Rightarrow>
   source_runtime \<times> world \<times> (authority_refusal, transition_receipt) result" where
  "transition_apply kind outgoing incoming observer_cut signal rt w =
     (if \<not> has_ended signal \<or> \<not> is_drained (rt_active_permits rt) then (rt, w, Err OutstandingPermit)
      else case freeze rt w of
             (rt, w, None) \<Rightarrow> (rt, w, Err (PhaseNotCurrent (phase_name_of (rt_phase rt))))
           | (rt, w, Some _) \<Rightarrow>
               if \<not> has_ended signal \<or> \<not> is_drained (rt_active_permits rt) then (rt, w, Err OutstandingPermit)
               else (let w = revoke_lease outgoing w;
                         (p, w) = promote incoming observer_cut w
                     in (install p rt, w, Ok \<lparr>tr_kind = kind, tr_steps = [FreezeStep, DrainStep, InstallStep]\<rparr>)))"

section \<open>One permit through its life\<close>

text \<open>
  The holder of a permit may call every operation in any order, in a world that changes between the calls,
  until the permit is gone (\<open>None\<close>). \<open>tickets\<close> are the tickets handed out so far.
\<close>

record permit_run =
  pr_permit :: "mutation_permit option"
  pr_signals :: signals
  pr_tickets :: "refresh_ticket list"

definition ticket_of :: "(authority_refusal, refresh_ticket) result \<Rightarrow> refresh_ticket list" where
  "ticket_of r = (case r of Ok t \<Rightarrow> [t] | Err _ \<Rightarrow> [])"

inductive permit_step :: "permit_run \<Rightarrow> permit_run \<Rightarrow> bool" where
  ps_start: "pr_permit s = Some p \<Longrightarrow> start_side_effect w p = (p', r) \<Longrightarrow> permit_step s (s\<lparr>pr_permit := Some p'\<rparr>)"
| ps_commit: "pr_permit s = Some p \<Longrightarrow> permit_commit receipt p (pr_signals s) = (p', sg, r) \<Longrightarrow>
    permit_step s (s\<lparr>pr_permit := Some p', pr_signals := sg, pr_tickets := pr_tickets s @ ticket_of r\<rparr>)"
| ps_none: "pr_permit s = Some p \<Longrightarrow> no_side_effect p (pr_signals s) = (p', sg, r) \<Longrightarrow>
    permit_step s (s\<lparr>pr_permit := Some p', pr_signals := sg, pr_tickets := pr_tickets s @ ticket_of r\<rparr>)"
| ps_drop: "pr_permit s = Some p \<Longrightarrow>
    permit_step s (s\<lparr>pr_permit := None, pr_signals := drop_mutation_permit p (pr_signals s)\<rparr>)"

definition permit_init :: "grant_authority \<Rightarrow> nat \<Rightarrow> permit_run \<Rightarrow> bool" where
  "permit_init g i s \<longleftrightarrow>
     (\<exists>l w sg p. i < length sg \<and> sg ! i = drain_new \<and> permit_grant g l i w sg = (pr_signals s, Ok p) \<and>
        pr_permit s = Some p \<and> pr_tickets s = [])"

text \<open>The signal tells exactly how the permit ended, and the tickets handed out say the same.\<close>

definition permit_ok :: "grant_authority \<Rightarrow> nat \<Rightarrow> permit_run \<Rightarrow> bool" where
  "permit_ok g i s \<longleftrightarrow> i < length (pr_signals s) \<and> dr_armed (pr_signals s ! i) \<and>
     dr_ended (pr_signals s ! i) = (dr_termination (pr_signals s ! i) \<noteq> None) \<and>
     (case pr_permit s of
        None \<Rightarrow> dr_ended (pr_signals s ! i)
      | Some p \<Rightarrow> pm_drain p = i \<and> pm_authority p = ga_authority g \<and>
          dr_termination (pr_signals s ! i) = (case pm_state p of Terminal t \<Rightarrow> Some t | _ \<Rightarrow> None)) \<and>
     pr_tickets s = (case dr_termination (pr_signals s ! i) of
        Some t \<Rightarrow> if t = TermDrained then [] else [\<lparr>tk_epoch = ma_epoch (ga_authority g), tk_termination = t\<rparr>]
      | None \<Rightarrow> [])"

lemma on_signal_nth [simp]: "on_signal i f sg ! j = (if j = i \<and> i < length sg then f (sg ! i) else sg ! j)"
  by (simp add: on_signal_def)

lemma on_signal_length [simp]: "length (on_signal i f sg) = length sg"
  by (simp add: on_signal_def)

lemmas permit_ops =
  start_side_effect_def permit_commit_def no_side_effect_def finish_def drop_mutation_permit_def is_terminal_def

lemma permit_init_ok:
  assumes "permit_init g i s"
  shows "permit_ok g i s"
proof -
  obtain l w sg p where "i < length sg" "sg ! i = drain_new" "pr_permit s = Some p" "pr_tickets s = []"
      and g: "permit_grant g l i w sg = (pr_signals s, Ok p)"
    using assms by (auto simp: permit_init_def)
  moreover from g have "pr_signals s = on_signal i arm sg" "pm_state p = Granted" "pm_drain p = i" "pm_authority p = ga_authority g"
    by (auto simp: permit_grant_def Let_def split: if_splits)
  ultimately show ?thesis by (simp add: permit_ok_def arm_def drain_new_def)
qed

lemma permit_step_ok: "permit_step s t \<Longrightarrow> permit_ok g i s \<Longrightarrow> permit_ok g i t"
proof (induction rule: permit_step.induct)
  case (ps_start s p w p' r)
  then show ?case by (auto simp: permit_ok_def permit_ops split: permit_state.splits if_splits)
next
  case (ps_commit s p receipt p' sg r)
  then show ?case by (auto simp: permit_ok_def permit_ops record_end_def ticket_of_def split: permit_state.splits if_splits)
next
  case (ps_none s p p' sg r)
  then show ?case by (auto simp: permit_ok_def permit_ops record_end_def ticket_of_def split: permit_state.splits if_splits)
next
  case (ps_drop s p)
  then show ?case by (auto simp: permit_ok_def permit_ops record_end_def split: permit_state.splits if_splits option.splits)
qed

interpretation permit: invariant_system "permit_init g i" permit_step "permit_ok g i"
proof
  fix s show "permit_init g i s \<Longrightarrow> permit_ok g i s" by (rule permit_init_ok)
next
  fix s t show "permit_ok g i s \<Longrightarrow> permit_step s t \<Longrightarrow> permit_ok g i t" by (rule permit_step_ok)
qed

lemma permit_step_ended:
  "permit_step s t \<Longrightarrow> permit_ok g i s \<Longrightarrow> dr_termination (pr_signals s ! i) = Some x \<Longrightarrow>
   dr_termination (pr_signals t ! i) = Some x"
  by (induction rule: permit_step.induct)
    (auto simp: permit_ok_def permit_ops record_end_def split: permit_state.splits if_splits option.splits)

lemma permit_steps_ended:
  assumes "permit_step\<^sup>*\<^sup>* s t" and "permit_ok g i s" and "dr_termination (pr_signals s ! i) = Some x"
  shows "dr_termination (pr_signals t ! i) = Some x"
  using assms(1)
proof (induction rule: rtranclp_induct)
  case base
  show ?case by (rule assms(3))
next
  case (step y z)
  then show ?case using permit_step_ended [OF step(2) permit.inv_steps [OF step(1) assms(2)]] by blast
qed

section \<open>Receipts and transitions\<close>

lemma authority_result_Ok [simp]: "authority_result r = Ok x \<longleftrightarrow> r = Ok x"
  by (auto simp: authority_result_def split: sum.splits)

lemma staged_lease:
  "stage_replacement_with_policy ops pid w l relative contents oo serial d = (d', serial', Ok s) \<Longrightarrow> sr_lease s = ls_identity l"
  by (auto simp: stage_replacement_with_policy_def split: prod.splits sum.splits option.splits)

lemma staged_commit_lease: "staged_commit ops w s d = (d', Ok rec) \<Longrightarrow> wr_lease rec = sr_lease s"
  by (auto simp: staged_commit_def split: prod.splits sum.splits if_splits)

lemma replace_lease:
  "replace_with_policy ops pid w w' l relative contents oo serial d = (d', serial', Ok rec) \<Longrightarrow> wr_lease rec = ls_identity l"
  by (auto simp: replace_with_policy_def staged_lease dest!: staged_commit_lease split: prod.splits sum.splits)

lemma verify_lease:
  "verify_replacement_beneath ops w l relative expected d = (d', Ok (Some rec)) \<Longrightarrow> wr_lease rec = ls_identity l"
  by (auto simp: verify_replacement_beneath_def split: prod.splits sum.splits if_splits)

lemma permit_receipt_lease:
  "permit_replace_beneath ops pid w w' p relative contents serial d = (d', serial', Ok rec) \<Longrightarrow>
     pm_state p = InFlight \<and> wr_lease rec = ls_identity (pm_lease p)"
  "permit_replace_owner_only_beneath ops pid w w' p relative contents serial d = (d', serial', Ok rec) \<Longrightarrow>
     pm_state p = InFlight \<and> wr_lease rec = ls_identity (pm_lease p)"
  "attest_delegated_beneath ops w p relative expected d = (d', Ok (Some rec)) \<Longrightarrow>
     pm_state p = InFlight \<and> wr_lease rec = ls_identity (pm_lease p)"
  by (auto simp: permit_replace_beneath_def permit_replace_owner_only_beneath_def attest_delegated_beneath_def
      replace_beneath_def replace_owner_only_beneath_def replace_lease verify_lease split: if_splits prod.splits)

lemma transition_applies:
  assumes "has_ended signal" "outstanding (rt_active_permits rt) = []" "phase_name_of (rt_phase rt) \<in> {CurrentPhase, RefreshingPhase}"
  shows "transition_apply kind outgoing incoming cut0 signal rt w =
    (rt\<lparr>rt_epoch := rt_epoch rt + 1,
        rt_phase := Current \<lparr>cp_publication = w_next w + 1, cp_generation = w_next w + 2, cp_binding = incoming, cp_observer_cut = cut0\<rparr>\<rparr>,
     (revoke_lease outgoing w)\<lparr>w_next := w_next w + 3\<rparr>,
     Ok \<lparr>tr_kind = kind, tr_steps = [FreezeStep, DrainStep, InstallStep]\<rparr>)"
  using assms
  by (cases "rt_phase rt")
    (simp_all add: transition_apply_def freeze_def fresh_identity_def promote_def install_def is_drained_def rt_active_permits_def
      revoke_lease_def no_permits_def Let_def)

section \<open>Properties\<close>

text \<open>
  C23: a permit ends exactly once, and its signal tells the truth. Through any sequence of calls by its
  holder, the drain signal reports an end iff the permit is terminal or gone; it then names the termination
  the permit reached, a permit that was dropped early counts as drained; exactly one ticket was handed out
  when it committed or proved no side effect, with the granted epoch, and none otherwise; once ended, no call
  changes the termination or hands out another ticket.
\<close>

theorem permit_ends_once:
  assumes "reach (permit_init g i) permit_step s"
  shows "(has_ended (pr_signals s ! i) \<longleftrightarrow> (case pr_permit s of None \<Rightarrow> True | Some p \<Rightarrow> is_terminal p)) \<and>
    (\<forall>p x. pr_permit s = Some p \<longrightarrow> (dr_termination (pr_signals s ! i) = Some x \<longleftrightarrow> pm_state p = Terminal x)) \<and>
    map tk_termination (pr_tickets s) =
      (case dr_termination (pr_signals s ! i) of None \<Rightarrow> [] | Some x \<Rightarrow> if x = TermDrained then [] else [x]) \<and>
    (\<forall>k. k \<in> set (pr_tickets s) \<longrightarrow> tk_epoch k = ma_epoch (ga_authority g)) \<and>
    (has_ended (pr_signals s ! i) \<longrightarrow>
       (\<forall>t. permit_step\<^sup>*\<^sup>* s t \<longrightarrow> dr_termination (pr_signals t ! i) = dr_termination (pr_signals s ! i) \<and> pr_tickets t = pr_tickets s))"
proof -
  have ok: "permit_ok g i s" using permit.reach_inv [OF assms] .
  have "pr_tickets t = pr_tickets s \<and> dr_termination (pr_signals t ! i) = dr_termination (pr_signals s ! i)"
    if e: "has_ended (pr_signals s ! i)" and that: "permit_step\<^sup>*\<^sup>* s t" for t
  proof -
    obtain x where "dr_termination (pr_signals s ! i) = Some x" using ok e by (auto simp: permit_ok_def has_ended_def)
    with permit_steps_ended [OF that ok] have "dr_termination (pr_signals t ! i) = dr_termination (pr_signals s ! i)" by simp
    with ok permit.inv_steps [OF that ok] show ?thesis by (simp add: permit_ok_def)
  qed
  moreover have "has_ended (pr_signals s ! i) \<longleftrightarrow> (case pr_permit s of None \<Rightarrow> True | Some p \<Rightarrow> is_terminal p)"
    using ok by (cases "pr_permit s") (auto simp: permit_ok_def has_ended_def is_terminal_def split: permit_state.splits)
  moreover have "dr_termination (pr_signals s ! i) = Some x \<longleftrightarrow> pm_state p = Terminal x" if "pr_permit s = Some p" for p x
    using ok that by (auto simp: permit_ok_def split: permit_state.splits)
  moreover have "map tk_termination (pr_tickets s) =
      (case dr_termination (pr_signals s ! i) of None \<Rightarrow> [] | Some x \<Rightarrow> if x = TermDrained then [] else [x])"
    using ok by (simp add: permit_ok_def split: option.split)
  moreover have "tk_epoch k = ma_epoch (ga_authority g)" if "k \<in> set (pr_tickets s)" for k
    using ok that by (auto simp: permit_ok_def split: option.splits if_splits)
  ultimately show ?thesis by blast
qed

text \<open>
  C19: a transition either installs completely or leaves no trace. It is refused with \<open>OutstandingPermit\<close> exactly
  when the presented signal has not ended or the source itself still has a permit outstanding, and with
  \<open>PhaseNotCurrent\<close> exactly when the drained source is Loading, Blocked or Stopping; source and world are then
  untouched. Otherwise it observes Freeze, Drain, Install in that order, leaves the source Current on the
  incoming binding and cut under a publication and generation drawn in this call, advances the epoch by one,
  keeps the grant count, and the outgoing lease is dead while every other lease keeps its state.
\<close>

theorem transition_apply_exact:
  "case transition_apply kind outgoing incoming cut0 signal rt w of (rt', w', r) \<Rightarrow>
    (if has_ended signal \<and> outstanding (rt_active_permits rt) = []
     then if phase_name_of (rt_phase rt) \<in> {CurrentPhase, RefreshingPhase}
       then r = Ok \<lparr>tr_kind = kind, tr_steps = [FreezeStep, DrainStep, InstallStep]\<rparr> \<and>
         (\<exists>p. live_publication rt' = Some p \<and> cp_binding p = incoming \<and> cp_observer_cut p = cut0 \<and>
            {cp_publication p, cp_generation p} \<subseteq> {w_next w..<w_next w'}) \<and>
         rt_epoch rt' = rt_epoch rt + 1 \<and> rt_grants rt' = rt_grants rt \<and>
         (\<forall>l. lease_is_live w' l \<longleftrightarrow> lease_is_live w l \<and> ls_identity l \<noteq> ls_identity outgoing)
       else r = Err (PhaseNotCurrent (phase_name_of (rt_phase rt))) \<and> rt' = rt \<and> w' = w
     else r = Err OutstandingPermit \<and> rt' = rt \<and> w' = w)"
proof (cases "phase_name_of (rt_phase rt) \<in> {CurrentPhase, RefreshingPhase}")
  case False
  then show ?thesis
    by (cases "rt_phase rt") (simp_all add: transition_apply_def freeze_def is_drained_def rt_active_permits_def no_permits_def)
next
  case True
  show ?thesis
  proof (cases "has_ended signal \<and> outstanding (rt_active_permits rt) = []")
    case False
    then show ?thesis by (auto simp: transition_apply_def is_drained_def)
  next
    case ended: True
    show ?thesis using ended True unfolding transition_applies [OF ended [THEN conjunct1] ended [THEN conjunct2] True] by (auto simp: live_publication_def lease_is_live_def revoke_lease_def)
  qed
qed

text \<open>
  The receipt a permit's own write produced is always accepted, and nothing else is. Whichever way the
  permit wrote (replacement, owner-only replacement, attested delegation), committing with the receipt it got
  ends the permit as committed with a ticket for its epoch; a receipt of another lease is refused and leaves
  permit and signal as they were.
\<close>

lemma own_receipt_commits:
  assumes "permit_replace_beneath ops pid w w' p relative contents serial d = (d', serial', Ok rec) \<or>
    permit_replace_owner_only_beneath ops pid w w' p relative contents serial d = (d', serial', Ok rec) \<or>
    attest_delegated_beneath ops w p relative contents d = (d', Ok (Some rec))"
  shows "permit_commit rec p sg =
      (p\<lparr>pm_state := Terminal TermCommitted\<rparr>, on_signal (pm_drain p) (record_end TermCommitted) sg,
       Ok \<lparr>tk_epoch = ma_epoch (pm_authority p), tk_termination = TermCommitted\<rparr>) \<and>
    (\<forall>foreign. wr_lease foreign \<noteq> wr_lease rec \<longrightarrow> permit_commit foreign p sg = (p, sg, Err WholeAuthorityMismatch))"
proof -
  have "pm_state p = InFlight \<and> wr_lease rec = ls_identity (pm_lease p)"
    using assms by (elim disjE) (erule permit_receipt_lease)+
  then show ?thesis by (simp add: permit_commit_def finish_def)
qed

section \<open>Witnesses\<close>

definition wit_ga :: grant_authority where
  "wit_ga = \<lparr>ga_authority = \<lparr>ma_generation = 2, ma_binding = wit_binding, ma_epoch = 5, ma_publication = 1\<rparr>,
             ga_proof = \<lparr>np_publication = 9, np_epoch = 5\<rparr>\<rparr>"

definition wit_permit :: mutation_permit where
  "wit_permit = \<lparr>pm_authority = ga_authority wit_ga, pm_proof = ga_proof wit_ga, pm_lease = wit_lease, pm_state = Granted, pm_drain = 0\<rparr>"

definition wit_run :: permit_run where
  "wit_run = \<lparr>pr_permit = Some wit_permit, pr_signals = [arm drain_new], pr_tickets = []\<rparr>"

lemma wit_run_reach: "reach (permit_init wit_ga 0) permit_step wit_run"
proof (rule reach_init)
  have "permit_grant wit_ga wit_lease 0 wit_world [drain_new] = ([arm drain_new], Ok wit_permit)"
    by (simp add: permit_grant_def wit_ga_def wit_permit_def wit_lease_def wit_binding_def wit_world_def binding_is_live_def
        lease_is_live_def on_signal_def)
  then show "permit_init wit_ga 0 wit_run"
    unfolding permit_init_def
    by (intro exI [of _ wit_lease] exI [of _ wit_world] exI [of _ "[drain_new]"] exI [of _ wit_permit]) (simp add: wit_run_def)
qed

lemma wit_no_side_effect:
  "no_side_effect wit_permit (pr_signals wit_run) =
     (wit_permit\<lparr>pm_state := Terminal TermNoSideEffect\<rparr>, [record_end TermNoSideEffect (arm drain_new)],
      Ok \<lparr>tk_epoch = 5, tk_termination = TermNoSideEffect\<rparr>)"
  by (simp add: no_side_effect_def finish_def wit_permit_def wit_run_def wit_ga_def on_signal_def)

theorem permit_ends_once_witness:
  "\<exists>t. permit_step wit_run t \<and> has_ended (pr_signals t ! 0) \<and> map tk_termination (pr_tickets t) = [TermNoSideEffect]"
proof -
  have "pr_permit wit_run = Some wit_permit" by (simp add: wit_run_def)
  note s = ps_none [OF this wit_no_side_effect]
  define t where "t = wit_run\<lparr>pr_permit := Some (wit_permit\<lparr>pm_state := Terminal TermNoSideEffect\<rparr>),
    pr_signals := [record_end TermNoSideEffect (arm drain_new)],
    pr_tickets := pr_tickets wit_run @ ticket_of (Ok \<lparr>tk_epoch = 5, tk_termination = TermNoSideEffect\<rparr>)\<rparr>"
  note s = s [folded t_def]
  have t: "pr_signals t = [record_end TermNoSideEffect (arm drain_new)]"
      "pr_permit t = Some (wit_permit\<lparr>pm_state := Terminal TermNoSideEffect\<rparr>)"
    by (simp_all add: t_def)
  note ends = permit_ends_once [OF reach_step [OF wit_run_reach s]]
  have "has_ended (pr_signals t ! 0)" using ends [THEN conjunct1] t(2) by (simp add: is_terminal_def)
  moreover have "dr_termination (pr_signals t ! 0) = Some TermNoSideEffect"
    by (simp add: t(1) record_end_def arm_def drain_new_def)
  then have "map tk_termination (pr_tickets t) = [TermNoSideEffect]"
    using ends [THEN conjunct2, THEN conjunct2, THEN conjunct1] by simp
  ultimately show ?thesis using s by (intro exI [of _ t] conjI)
qed

definition wit_attested where
  "wit_attested = attest_delegated_beneath mem_dir wit_world (wit_permit\<lparr>pm_state := InFlight\<rparr>) [Normal ''a''] [1] [([''a''], [1])]"

lemma wit_attested_eq:
  "wit_attested = ([([''a''], [1])], Ok (Some \<lparr>wr_steps = [DelegatedVerified], wr_target = ls_root wit_lease @ [''a''], wr_lease = 1\<rparr>))"
  by code_simp

theorem own_receipt_commits_witness:
  "\<exists>d rec p' sg'. attest_delegated_beneath mem_dir wit_world (wit_permit\<lparr>pm_state := InFlight\<rparr>) [Normal ''a''] [1] [([''a''], [1])] =
       (d, Ok (Some rec)) \<and>
     permit_commit rec (wit_permit\<lparr>pm_state := InFlight\<rparr>) [arm drain_new] =
       (p', sg', Ok \<lparr>tk_epoch = 5, tk_termination = TermCommitted\<rparr>)"
proof -
  obtain d rec where a: "attest_delegated_beneath mem_dir wit_world (wit_permit\<lparr>pm_state := InFlight\<rparr>) [Normal ''a''] [1] [([''a''], [1])] =
       (d, Ok (Some rec))"
    using wit_attested_eq unfolding wit_attested_def by blast
  have "ma_epoch (pm_authority (wit_permit\<lparr>pm_state := InFlight\<rparr>)) = 5" by (simp add: wit_permit_def wit_ga_def)
  with own_receipt_commits [OF disjI2 [OF disjI2 [OF a]], of "[arm drain_new]"] a show ?thesis by auto
qed

end
