(* ===== verification/ObservationLane.thy ===== *)
theory ObservationLane
  imports Observer Candidate
begin

text \<open>
  The observation lane of a project source: the \<open>ObservationLane\<close> part of
  \<open>src/index_lifecycle/activation.rs\<close>, which composes the observer slot, the coalescing accumulator, the
  supervisors, the candidate pipeline and the capacity pool.

  Every operation holds the lane mutex for its whole body, so it is one function on the lane. A panic of an
  \<open>expect\<close> is \<open>None\<close>. \<open>source_id\<close> is \<open>observation_source_id\<close>: the standard library leaves the algorithm
  of its default hasher open, so it is a parameter, and nothing is assumed of it. Stamps and observer
  identities count up from 64-bit counters and are \<open>nat\<close>.
\<close>

section \<open>The lane\<close>

record observation_lane =
  ol_slot :: observer_slot
  ol_active_token :: identity
  ol_accumulator :: accumulator
  ol_supervisors :: "(source_id, supervisor_state) hmap"
  ol_artifacts :: project_artifacts
  ol_pool :: capacity_pool
  ol_owner :: identity
  ol_next_observer :: nat
  ol_next_stamp :: nat
  ol_last_cut :: "observation_cut option"

definition OBSERVATION_ACCUMULATOR_BOUND :: nat where
  "OBSERVATION_ACCUMULATOR_BOUND = 4096"

definition OBSERVATION_CAPACITY_BYTES :: nat where
  "OBSERVATION_CAPACITY_BYTES = 2 ^ 30"

text \<open>\<open>addr\<close> tells the pool of this lane from other pools.\<close>

definition lane_new :: "identity \<Rightarrow> identity \<Rightarrow> world \<Rightarrow> observation_lane \<times> world" where
  "lane_new seed_token addr w =
     (let (owner, w) = fresh_identity w
      in (\<lparr>ol_slot = slot_new 1, ol_active_token = seed_token, ol_accumulator = acc_new OBSERVATION_ACCUMULATOR_BOUND,
           ol_supervisors = [], ol_artifacts = [], ol_pool = pool_root owner OBSERVATION_CAPACITY_BYTES (pool_new addr),
           ol_owner = owner, ol_next_observer = 1, ol_next_stamp = 0, ol_last_cut = None\<rparr>, w))"

definition register_observer :: "observation_lane \<Rightarrow> world \<Rightarrow> (observation_lane \<times> world \<times> nat) option" where
  "register_observer lane w =
     (let successor = ol_next_observer lane + 1
      in case begin_handoff successor (ol_slot lane) of
           (_, Err _) \<Rightarrow> None
         | (slot, Ok _) \<Rightarrow>
             (case complete_handoff (fst (deliver_pending slot)) of
                (_, Err _) \<Rightarrow> None
              | (slot, Ok _) \<Rightarrow>
                  (let (token, w) = fresh_identity w
                   in Some (lane\<lparr>ol_next_observer := successor, ol_slot := slot,
                                 ol_accumulator := latch_handoff_barrier (ol_accumulator lane), ol_active_token := token\<rparr>,
                            w, successor))))"

definition active_observer :: "observation_lane \<Rightarrow> nat" where
  "active_observer lane = os_active (ol_slot lane)"

definition admitted_source :: "(string \<Rightarrow> source_id) \<Rightarrow> string \<Rightarrow> nat \<Rightarrow> candidate_source" where
  "admitted_source source_id relative stamp =
     \<lparr>src_id = source_id relative,
      src_observation = Content \<lparr>public_id = relative, normalized_utf8 = Some relative\<rparr> stamp 1\<rparr>"

definition observe_admission_locked ::
  "(string \<Rightarrow> source_id) \<Rightarrow> string \<Rightarrow> observation_lane \<Rightarrow> world \<Rightarrow> (observation_lane \<times> world) option" where
  "observe_admission_locked source_id relative lane w =
     (let source = source_id relative;
          stamp = ol_next_stamp lane + 1;
          lane = lane\<lparr>ol_next_stamp := stamp\<rparr>;
          sv = (case hget (ol_supervisors lane) source of Some sv \<Rightarrow> sv | None \<Rightarrow> supervisor_new);
          (sv, attempt) = begin_attempt sv;
          lane = lane\<lparr>ol_supervisors := hinsert source sv (ol_supervisors lane)\<rparr>;
          expected = map_option sa_token (hget (ol_artifacts lane) source)
      in case prepare_delta (ol_pool lane) (ol_owner lane) attempt (admitted_source source_id relative stamp) expected
                (\<lambda>_. Some stamp) w of
           (pool, w, Err _) \<Rightarrow> Some (lane\<lparr>ol_pool := pool, ol_accumulator := report_gap (ol_accumulator lane)\<rparr>, w)
         | (pool, w, Ok candidate) \<Rightarrow>
             (case commit_drop candidate sv (ol_artifacts lane) pool of
                None \<Rightarrow> None
              | Some (sv, root, r, pool) \<Rightarrow>
                  (let lane = lane\<lparr>ol_supervisors := hinsert source sv (ol_supervisors lane), ol_artifacts := root, ol_pool := pool\<rparr>
                   in case r of
                        Ok _ \<Rightarrow> Some (lane\<lparr>ol_accumulator := fst (observe source (Some stamp) (ol_accumulator lane))\<rparr>, w)
                      | Err _ \<Rightarrow> Some (lane\<lparr>ol_accumulator := report_gap (ol_accumulator lane)\<rparr>, w))))"

definition observe_admission ::
  "(string \<Rightarrow> source_id) \<Rightarrow> nat \<Rightarrow> string \<Rightarrow> observation_lane \<Rightarrow> world \<Rightarrow>
   (observation_lane \<times> world \<times> (nat, unit) result) option" where
  "observe_admission source_id observer relative lane w =
     (if os_active (ol_slot lane) \<noteq> observer then Some (lane, w, Err (os_active (ol_slot lane)))
      else map_option (\<lambda>(lane, w). (lane, w, Ok ())) (observe_admission_locked source_id relative lane w))"

definition observe_removal_active :: "(string \<Rightarrow> source_id) \<Rightarrow> string \<Rightarrow> observation_lane \<Rightarrow> observation_lane" where
  "observe_removal_active source_id relative lane =
     (let stamp = ol_next_stamp lane + 1
      in lane\<lparr>ol_next_stamp := stamp,
              ol_accumulator := fst (observe (source_id relative) (Some stamp) (ol_accumulator lane))\<rparr>)"

definition observe_removal ::
  "(string \<Rightarrow> source_id) \<Rightarrow> nat \<Rightarrow> string \<Rightarrow> observation_lane \<Rightarrow> observation_lane \<times> (nat, unit) result" where
  "observe_removal source_id observer relative lane =
     (if os_active (ol_slot lane) \<noteq> observer then (lane, Err (os_active (ol_slot lane)))
      else (observe_removal_active source_id relative lane, Ok ()))"

definition report_lane_gap :: "nat \<Rightarrow> observation_lane \<Rightarrow> observation_lane \<times> (nat, unit) result" where
  "report_lane_gap observer lane =
     (if os_active (ol_slot lane) \<noteq> observer then (lane, Err (os_active (ol_slot lane)))
      else (lane\<lparr>ol_accumulator := report_gap (ol_accumulator lane)\<rparr>, Ok ()))"

definition observe_admission_active ::
  "(string \<Rightarrow> source_id) \<Rightarrow> string \<Rightarrow> observation_lane \<Rightarrow> world \<Rightarrow> (observation_lane \<times> world) option" where
  "observe_admission_active source_id relative lane w = observe_admission_locked source_id relative lane w"

definition observation_capacity_ledger :: "observation_lane \<Rightarrow> nat \<times> nat \<times> nat \<times> nat" where
  "observation_capacity_ledger lane =
     (charged (ol_pool lane) (ol_owner lane), OBSERVATION_CAPACITY_BYTES,
      outstanding_charges (ol_pool lane) (ol_owner lane), pool_unknown_refunds (ol_pool lane))"

definition retained_observation_artifacts :: "observation_lane \<Rightarrow> nat \<times> nat" where
  "retained_observation_artifacts lane = (length (ol_artifacts lane), length (ol_artifacts lane))"

definition committed_observations :: "(string \<Rightarrow> source_id) \<Rightarrow> string \<Rightarrow> observation_lane \<Rightarrow> nat" where
  "committed_observations source_id relative lane =
     (case hget (ol_supervisors lane) (source_id relative) of Some sv \<Rightarrow> sv_committed sv | None \<Rightarrow> 0)"

text \<open>The lane section of the return path: the accumulated cut and the active token.\<close>

definition take_cut :: "observation_lane \<Rightarrow> observation_lane \<times> identity" where
  "take_cut lane = (let (acc, c) = acc_cut (ol_accumulator lane)
                    in (lane\<lparr>ol_accumulator := acc, ol_last_cut := Some c\<rparr>, ol_active_token lane))"

definition latch_lane_dirty :: "observation_lane \<Rightarrow> observation_lane" where
  "latch_lane_dirty lane = lane\<lparr>ol_accumulator := latch_scope_dirty (ol_accumulator lane)\<rparr>"

section \<open>The lane as a machine\<close>

text \<open>
  Every call on a lane, and \<open>Elsewhere w\<close>: the rest of the process moved on to world \<open>w\<close>. The two internal
  sections of the return path are \<open>CallDirty\<close> and \<open>CallCut\<close>.
\<close>

type_synonym lane_state = "observation_lane \<times> world"

datatype lane_call =
    CallRegister
  | CallAdmit nat string
  | CallAdmitActive string
  | CallRemove nat string
  | CallRemoveActive string
  | CallGap nat
  | CallDirty
  | CallCut
  | Elsewhere world

datatype lane_response = Done | Refused nat | Registered nat | CutTaken cut_kind identity

fun response_of :: "(nat, unit) result \<Rightarrow> lane_response" where
  "response_of (Inl active) = Refused active"
| "response_of (Inr _) = Done"

fun lane_do :: "(string \<Rightarrow> source_id) \<Rightarrow> lane_call \<Rightarrow> lane_state \<Rightarrow> (lane_state \<times> lane_response) option" where
  "lane_do sid CallRegister (lane, w) = map_option (\<lambda>(lane, w, i). ((lane, w), Registered i)) (register_observer lane w)"
| "lane_do sid (CallAdmit ob rel) (lane, w) =
     map_option (\<lambda>(lane, w, r). ((lane, w), response_of r)) (observe_admission sid ob rel lane w)"
| "lane_do sid (CallAdmitActive rel) (lane, w) = map_option (\<lambda>s. (s, Done)) (observe_admission_active sid rel lane w)"
| "lane_do sid (CallRemove ob rel) (lane, w) = (case observe_removal sid ob rel lane of (lane, r) \<Rightarrow> Some ((lane, w), response_of r))"
| "lane_do sid (CallRemoveActive rel) (lane, w) = Some ((observe_removal_active sid rel lane, w), Done)"
| "lane_do sid (CallGap ob) (lane, w) = (case report_lane_gap ob lane of (lane, r) \<Rightarrow> Some ((lane, w), response_of r))"
| "lane_do sid CallDirty (lane, w) = Some ((latch_lane_dirty lane, w), Done)"
| "lane_do sid CallCut (lane, w) =
     (case take_cut lane of (lane, t) \<Rightarrow> Some ((lane, w), CutTaken (oc_kind (the (ol_last_cut lane))) t))"
| "lane_do sid (Elsewhere w') (lane, w) = Some ((lane, w'), Done)"

section \<open>What the lane promises\<close>

text \<open>
  The specification knows nothing of supervisors, candidates, permits or accumulators: it holds the stamp of
  the latest admission of every source, how often each was admitted, the active observer and the changes
  since the last cut.
\<close>

record lane_spec =
  sp_latest :: "source_id \<Rightarrow> nat option"
  sp_admitted :: "source_id \<Rightarrow> nat"
  sp_stamp :: nat
  sp_observer :: nat
  sp_changes :: "acc_event list"

definition spec_init :: lane_spec where
  "spec_init = \<lparr>sp_latest = Map.empty, sp_admitted = (\<lambda>_. 0), sp_stamp = 0, sp_observer = 1, sp_changes = []\<rparr>"

definition spec_admit :: "source_id \<Rightarrow> lane_spec \<Rightarrow> lane_spec" where
  "spec_admit src sp = sp\<lparr>sp_stamp := sp_stamp sp + 1, sp_latest := (sp_latest sp)(src \<mapsto> sp_stamp sp + 1),
     sp_admitted := (sp_admitted sp)(src := sp_admitted sp src + 1),
     sp_changes := sp_changes sp @ [Observed src (Some (sp_stamp sp + 1))]\<rparr>"

definition spec_remove :: "source_id \<Rightarrow> lane_spec \<Rightarrow> lane_spec" where
  "spec_remove src sp = sp\<lparr>sp_stamp := sp_stamp sp + 1, sp_changes := sp_changes sp @ [Observed src (Some (sp_stamp sp + 1))]\<rparr>"

definition spec_latch :: "latch_cause \<Rightarrow> lane_spec \<Rightarrow> lane_spec" where
  "spec_latch c sp = sp\<lparr>sp_changes := sp_changes sp @ [Latched c]\<rparr>"

text \<open>A cut names the newest stamp of exactly the changed sources, or asks for a full baseline.\<close>

definition cut_allowed :: "acc_event list \<Rightarrow> cut_kind \<Rightarrow> bool" where
  "cut_allowed changes kind \<longleftrightarrow>
     (if (\<exists>c. Latched c \<in> set changes) \<or> card (observed_sources changes) > OBSERVATION_ACCUMULATOR_BOUND
      then \<exists>c. kind = FullBaseline c
      else \<exists>m. kind = Incremental m \<and> hget m = newest changes \<and> dom (hget m) = observed_sources changes)"

fun spec_allows :: "(string \<Rightarrow> source_id) \<Rightarrow> lane_call \<Rightarrow> lane_spec \<Rightarrow> lane_response \<Rightarrow> lane_spec \<Rightarrow> bool" where
  "spec_allows sid CallRegister sp r sp' \<longleftrightarrow>
     r = Registered (sp_observer sp + 1) \<and> sp' = (spec_latch HandoffBarrier sp)\<lparr>sp_observer := sp_observer sp + 1\<rparr>"
| "spec_allows sid (CallAdmit ob rel) sp r sp' \<longleftrightarrow>
     (if ob = sp_observer sp then r = Done \<and> sp' = spec_admit (sid rel) sp else r = Refused (sp_observer sp) \<and> sp' = sp)"
| "spec_allows sid (CallAdmitActive rel) sp r sp' \<longleftrightarrow> r = Done \<and> sp' = spec_admit (sid rel) sp"
| "spec_allows sid (CallRemove ob rel) sp r sp' \<longleftrightarrow>
     (if ob = sp_observer sp then r = Done \<and> sp' = spec_remove (sid rel) sp else r = Refused (sp_observer sp) \<and> sp' = sp)"
| "spec_allows sid (CallRemoveActive rel) sp r sp' \<longleftrightarrow> r = Done \<and> sp' = spec_remove (sid rel) sp"
| "spec_allows sid (CallGap ob) sp r sp' \<longleftrightarrow>
     (if ob = sp_observer sp then r = Done \<and> sp' = spec_latch Gap sp else r = Refused (sp_observer sp) \<and> sp' = sp)"
| "spec_allows sid CallDirty sp r sp' \<longleftrightarrow> r = Done \<and> sp' = spec_latch ScopeDirty sp"
| "spec_allows sid CallCut sp r sp' \<longleftrightarrow>
     (\<exists>kind t. r = CutTaken kind t \<and> cut_allowed (sp_changes sp) kind) \<and> sp' = sp\<lparr>sp_changes := []\<rparr>"
| "spec_allows sid (Elsewhere w) sp r sp' \<longleftrightarrow> r = Done \<and> sp' = sp"

section \<open>The lane implements it\<close>

text \<open>A supervisor between two admissions: every attempt so far ran to its commit.\<close>

definition sv_quiet :: "supervisor_state \<Rightarrow> bool" where
  "sv_quiet sv \<longleftrightarrow> sv_inv sv \<and> sv_live sv = [] \<and> sv_superseded sv = {} \<and> sv_committed sv = sv_next_attempt sv"

definition lane_ok :: "lane_state \<Rightarrow> bool" where
  "lane_ok s \<longleftrightarrow> (let lane = fst s in
     os_undelivered (ol_slot lane) = [] \<and> os_pending_successor (ol_slot lane) = None \<and>
     os_active (ol_slot lane) = ol_next_observer lane \<and>
     pool_rows (ol_pool lane) = [(ol_owner lane, new_row OBSERVATION_CAPACITY_BYTES None)] \<and>
     pool_unknown_refunds (ol_pool lane) = 0 \<and>
     (\<forall>src sv. hget (ol_supervisors lane) src = Some sv \<longrightarrow> sv_quiet sv) \<and>
     (\<forall>src. hget (ol_artifacts lane) src = None \<longleftrightarrow> hget (ol_supervisors lane) src = None) \<and>
     hok (ol_artifacts lane))"

lemma sv_quiet_new: "sv_quiet supervisor_new"
  using supervisor.inv_init [of supervisor_new] by (simp add: sv_quiet_def supervisor_new_def)

text \<open>One attempt from mint to commit keeps a supervisor quiet and counts one.\<close>

lemma sv_quiet_commit:
  assumes "sv_quiet sv"
  shows "sv_quiet (record_commit (sv_next_attempt sv) (fst (mint sv)))"
    and "sv_committed (record_commit (sv_next_attempt sv) (fst (mint sv))) = sv_committed sv + 1"
    and "sv_next_attempt sv \<notin> sv_terminal (fst (mint sv))" "sv_next_attempt sv \<notin> sv_superseded (fst (mint sv))"
proof -
  have t: "sv_terminal sv = {..<sv_next_attempt sv}" and q: "sv_live sv = []" "sv_superseded sv = {}" "sv_committed sv = sv_next_attempt sv"
    using assms by (auto simp: sv_quiet_def sv_inv_def sv_ok_def)
  have m: "sv_terminal (fst (mint sv)) = {..<sv_next_attempt sv}" "sv_superseded (fst (mint sv)) = {}"
      "sv_next_attempt (fst (mint sv)) = sv_next_attempt sv + 1" "sv_live (fst (mint sv)) = [sv_next_attempt sv]"
      "sv_committed (fst (mint sv)) = sv_committed sv"
    using t q by (simp_all add: mint_def Let_def)
  have i: "sv_inv (record_commit (sv_next_attempt sv) (fst (mint sv)))"
    using assms m by (intro sv_inv_record_commit sv_inv_mint) (auto simp: sv_quiet_def)
  show "sv_quiet (record_commit (sv_next_attempt sv) (fst (mint sv)))"
    using i m q by (simp add: sv_quiet_def record_commit_def terminal_row_def Let_def)
  show "sv_committed (record_commit (sv_next_attempt sv) (fst (mint sv))) = sv_committed sv + 1"
    using m by (simp add: record_commit_def terminal_row_def Let_def)
  show "sv_next_attempt sv \<notin> sv_terminal (fst (mint sv))" "sv_next_attempt sv \<notin> sv_superseded (fst (mint sv))"
    using m by simp_all
qed

definition admitted_artifacts :: "string \<Rightarrow> nat \<Rightarrow> source_artifacts" where
  "admitted_artifacts relative stamp =
     \<lparr>sa_token = stamp,
      sa_manifest = [\<lparr>me_path = \<lparr>public_id = relative, normalized_utf8 = Some relative\<rparr>, me_disposition = Indexed stamp\<rparr>],
      sa_artifacts = required_artifacts stamp\<rparr>"

text \<open>In a lane that satisfies the invariant, the one byte an admission reserves is always there and comes back.\<close>

lemma lane_prepare:
  assumes "pool_rows pool = [(owner, new_row OBSERVATION_CAPACITY_BYTES None)]"
  shows "\<exists>pool' m. prepare_delta pool owner attempt (admitted_source source_id relative stamp) expected (\<lambda>_. Some stamp) w =
      (pool', w\<lparr>w_next := w_next w + 1\<rparr>,
       Ok \<lparr>ic_outcome = Ready [(source_id relative, admitted_artifacts relative stamp)]
             (Some \<lparr>ds_changed = source_id relative, ds_expected = expected\<rparr>), ic_attempt = attempt, ic_permit = m\<rparr>) \<and>
    drop_permit m pool' = pool"
proof -
  obtain i u where p: "pool = \<lparr>pool_identity = i, pool_rows = [(owner, new_row OBSERVATION_CAPACITY_BYTES None)],
      pool_unknown_refunds = u\<rparr>"
    using assms by (cases pool) simp
  show ?thesis
    unfolding p
    by (simp add: prepare_delta_def reserve_permit_def reserve_def redeem_def drop_grant_def drop_permit_def refund_def new_row_def
        fresh_identity_def reserved_bytes_def observation_bytes_def admitted_source_def admitted_artifacts_def
        OBSERVATION_CAPACITY_BYTES_def Let_def)
qed

definition lane_supervisor :: "observation_lane \<Rightarrow> source_id \<Rightarrow> supervisor_state" where
  "lane_supervisor lane src = (case hget (ol_supervisors lane) src of Some sv \<Rightarrow> sv | None \<Rightarrow> supervisor_new)"

lemma admission_effect:
  fixes lane w sid rel
  assumes ok: "lane_ok (lane, w)"
  defines "src \<equiv> sid rel" and "stamp \<equiv> ol_next_stamp lane + 1"
  defines "sv \<equiv> lane_supervisor lane src"
  shows "observe_admission_locked sid rel lane w =
    Some (lane\<lparr>ol_next_stamp := stamp,
               ol_supervisors := hinsert src (record_commit (sv_next_attempt sv) (fst (mint sv))) (hinsert src (fst (mint sv)) (ol_supervisors lane)),
               ol_artifacts := hinsert src (admitted_artifacts rel stamp) (ol_artifacts lane),
               ol_accumulator := fst (observe src (Some stamp) (ol_accumulator lane))\<rparr>, w\<lparr>w_next := w_next w + 1\<rparr>)"
proof -
  have q: "sv_quiet sv"
    using ok sv_quiet_new by (auto simp: lane_ok_def Let_def sv_def lane_supervisor_def split: option.split)
  have p: "pool_rows (ol_pool lane) = [(ol_owner lane, new_row OBSERVATION_CAPACITY_BYTES None)]"
    using ok by (simp add: lane_ok_def Let_def)
  obtain sv1 i where m: "mint sv = (sv1, i)" by force
  have i: "i = sv_next_attempt sv" "sv1 = fst (mint sv)" using m by (auto simp: mint_def Let_def)
  obtain pool' perm where pd: "prepare_delta (ol_pool lane) (ol_owner lane) i (admitted_source sid rel stamp)
        (map_option sa_token (hget (ol_artifacts lane) src)) (\<lambda>_. Some stamp) w =
      (pool', w\<lparr>w_next := w_next w + 1\<rparr>,
       Ok \<lparr>ic_outcome = Ready [(src, admitted_artifacts rel stamp)]
             (Some \<lparr>ds_changed = src, ds_expected = map_option sa_token (hget (ol_artifacts lane) src)\<rparr>), ic_attempt = i, ic_permit = perm\<rparr>)"
      and d: "drop_permit perm pool' = ol_pool lane"
    using lane_prepare [OF p] unfolding src_def by blast
  have c: "i \<notin> sv_terminal sv1" "i \<notin> sv_superseded sv1" using sv_quiet_commit [OF q] i by simp_all
  have st: "Suc (ol_next_stamp lane) = stamp" by (simp add: stamp_def)
  have w': "w\<lparr>w_next := Suc (w_next w)\<rparr> = w\<lparr>w_next := w_next w + 1\<rparr>" by simp
  show ?thesis
    unfolding i [symmetric]
    by (simp add: m pd [simplified w' [symmetric]] d c st observe_admission_locked_def begin_attempt_def
        sv_def [unfolded lane_supervisor_def, symmetric] commit_drop_def commit_def
        is_superseded_def is_terminal_attempt_def src_def [symmetric] Let_def)
qed

text \<open>The accumulator after the changes since the last cut.\<close>

definition acc_tracks :: "accumulator \<Rightarrow> acc_event list \<Rightarrow> bool" where
  "acc_tracks acc changes \<longleftrightarrow> (\<forall>e \<in> set changes. \<forall>src. e \<noteq> Observed src None) \<and>
     (\<exists>acc0. acc_pending acc0 = [] \<and> acc_latch acc0 = None \<and> acc_bound acc0 = OBSERVATION_ACCUMULATOR_BOUND \<and>
        acc = fold acc_apply changes acc0)"

lemma tracks_init: "acc_tracks (acc_new OBSERVATION_ACCUMULATOR_BOUND) []"
  by (auto simp: acc_tracks_def acc_new_def)

lemma tracks_snoc: "acc_tracks acc changes \<Longrightarrow> (\<And>src. e \<noteq> Observed src None) \<Longrightarrow> acc_tracks (acc_apply e acc) (changes @ [e])"
  by (fastforce simp: acc_tracks_def)

lemma tracks_cut:
  assumes "acc_tracks acc changes" and c: "acc_cut acc = (acc', c)"
  shows "acc_tracks acc' [] \<and> cut_allowed changes (oc_kind c)"
proof -
  obtain acc0 where a: "acc_pending acc0 = []" "acc_latch acc0 = None" "acc_bound acc0 = OBSERVATION_ACCUMULATOR_BOUND"
      "acc = fold acc_apply changes acc0" and n: "\<forall>e \<in> set changes. \<forall>src. e \<noteq> Observed src None"
    using assms(1) by (auto simp: acc_tracks_def)
  note spec = run_spec [OF a(1,2), of changes, folded a(4)]
  have u: "(\<forall>e \<in> set changes. \<not> unknown_change e) \<longleftrightarrow> \<not> (\<exists>c. Latched c \<in> set changes)"
    using n by (auto simp: unknown_change_def)
  have k: "oc_kind c = (case acc_latch acc of Some c \<Rightarrow> FullBaseline c | None \<Rightarrow> Incremental (acc_pending acc))"
      "acc_pending acc' = []" "acc_latch acc' = None" "acc_bound acc' = acc_bound acc"
    using c by (auto simp: acc_cut_def)
  have "cut_allowed changes (oc_kind c)"
    unfolding cut_allowed_def k(1) using spec u a(3) by (auto split: option.splits)
  moreover have "acc_tracks acc' []"
    using k spec a(3) by (simp add: acc_tracks_def)
  ultimately show ?thesis by simp
qed

text \<open>The simulation relation: the invariant, and where each field of the specification is found in the lane.\<close>

definition lane_sim :: "lane_state \<Rightarrow> lane_spec \<Rightarrow> bool" where
  "lane_sim s sp \<longleftrightarrow> lane_ok s \<and>
     (\<forall>src. sp_latest sp src = map_option sa_token (hget (ol_artifacts (fst s)) src)) \<and>
     (\<forall>src. sp_admitted sp src = sv_committed (lane_supervisor (fst s) src)) \<and>
     sp_stamp sp = ol_next_stamp (fst s) \<and> sp_observer sp = ol_next_observer (fst s) \<and>
     acc_tracks (ol_accumulator (fst s)) (sp_changes sp)"

lemma sim_world: "lane_sim (lane, w) sp \<Longrightarrow> lane_sim (lane, w') sp"
  by (simp add: lane_sim_def lane_ok_def)

lemma sim_active: "lane_sim (lane, w) sp \<Longrightarrow> os_active (ol_slot lane) = sp_observer sp"
  by (simp add: lane_sim_def lane_ok_def Let_def)

lemma sim_accumulator:
  assumes "lane_sim (lane, w) sp" and "\<And>src. e \<noteq> Observed src None"
  shows "lane_sim (lane\<lparr>ol_accumulator := acc_apply e (ol_accumulator lane)\<rparr>, w) (sp\<lparr>sp_changes := sp_changes sp @ [e]\<rparr>)"
  using assms tracks_snoc [of "ol_accumulator lane" "sp_changes sp" e]
  by (simp add: lane_sim_def lane_ok_def lane_supervisor_def Let_def)

lemma sim_new: "lane_sim (lane_new seed addr w) spec_init"
  using tracks_init
  by (simp add: lane_sim_def lane_ok_def lane_new_def spec_init_def slot_new_def pool_root_def pool_new_def fresh_identity_def
      lane_supervisor_def supervisor_new_def Let_def)

lemma sim_admit:
  assumes sim: "lane_sim (lane, w) sp"
  shows "\<exists>s. observe_admission_locked sid rel lane w = Some s \<and> lane_sim s (spec_admit (sid rel) sp)"
proof -
  let ?src = "sid rel"
  let ?sv = "lane_supervisor lane ?src"
  have ok: "lane_ok (lane, w)" and t: "acc_tracks (ol_accumulator lane) (sp_changes sp)" and st: "sp_stamp sp = ol_next_stamp lane"
    using sim by (simp_all add: lane_sim_def)
  have q: "sv_quiet ?sv"
    using ok sv_quiet_new by (auto simp: lane_ok_def Let_def lane_supervisor_def split: option.split)
  have "acc_tracks (fst (observe ?src (Some (ol_next_stamp lane + 1)) (ol_accumulator lane)))
      (sp_changes sp @ [Observed ?src (Some (ol_next_stamp lane + 1))])"
    using tracks_snoc [OF t, of "Observed ?src (Some (ol_next_stamp lane + 1))"] by simp
  with sim ok st sv_quiet_commit [OF q] show ?thesis
    unfolding admission_effect [OF ok]
    by (auto simp: lane_sim_def lane_ok_def lane_supervisor_def spec_admit_def hget_hinsert admitted_artifacts_def Let_def)
qed

lemma sim_remove:
  assumes "lane_sim (lane, w) sp"
  shows "lane_sim (observe_removal_active sid rel lane, w) (spec_remove (sid rel) sp)"
proof -
  let ?e = "Observed (sid rel) (Some (ol_next_stamp lane + 1))"
  have "acc_tracks (acc_apply ?e (ol_accumulator lane)) (sp_changes sp @ [?e])"
    using assms by (intro tracks_snoc) (simp_all add: lane_sim_def)
  then show ?thesis
    using assms by (simp add: observe_removal_active_def spec_remove_def lane_sim_def lane_ok_def lane_supervisor_def Let_def)
qed

lemma sim_register:
  assumes "lane_sim (lane, w) sp"
  shows "\<exists>lane' w'. register_observer lane w = Some (lane', w', sp_observer sp + 1) \<and>
    lane_sim (lane', w') ((spec_latch HandoffBarrier sp)\<lparr>sp_observer := sp_observer sp + 1\<rparr>)"
  using assms tracks_snoc [of "ol_accumulator lane" "sp_changes sp" "Latched HandoffBarrier"]
  by (simp add: register_observer_def begin_handoff_def deliver_pending_def complete_handoff_def fresh_identity_def spec_latch_def
      lane_sim_def lane_ok_def lane_supervisor_def Let_def)

lemma sim_cut:
  assumes "lane_sim (lane, w) sp" and "take_cut lane = (lane', t)"
  shows "lane_sim (lane', w) (sp\<lparr>sp_changes := []\<rparr>) \<and> cut_allowed (sp_changes sp) (oc_kind (the (ol_last_cut lane')))"
proof -
  obtain acc c where a: "acc_cut (ol_accumulator lane) = (acc, c)" by force
  have "acc_tracks (ol_accumulator lane) (sp_changes sp)" using assms(1) by (simp add: lane_sim_def)
  from tracks_cut [OF this a] assms a show ?thesis
    by (auto simp: take_cut_def lane_sim_def lane_ok_def lane_supervisor_def)
qed

lemma lane_do_sim:
  assumes "lane_sim s sp"
  shows "\<exists>s' r sp'. lane_do sid c s = Some (s', r) \<and> spec_allows sid c sp r sp' \<and> lane_sim s' sp'"
proof -
  obtain lane w where s: "s = (lane, w)" by force
  note sim = assms [unfolded s]
  note act = sim_active [OF sim]
  show ?thesis
  proof (cases c)
    case CallRegister
    then show ?thesis using sim_register [OF sim] s by auto
  next
    case (CallAdmit ob rel)
    then show ?thesis using sim_admit [OF sim, of sid rel] sim s act by (auto simp: observe_admission_def)
  next
    case (CallAdmitActive rel)
    then show ?thesis using sim_admit [OF sim, of sid rel] s by (auto simp: observe_admission_active_def)
  next
    case (CallRemove ob rel)
    then show ?thesis using sim_remove [OF sim, of sid rel] sim s act by (auto simp: observe_removal_def)
  next
    case (CallRemoveActive rel)
    then show ?thesis using sim_remove [OF sim, of sid rel] s by auto
  next
    case (CallGap ob)
    then show ?thesis using sim_accumulator [OF sim, of "Latched Gap"] sim s act by (auto simp: report_lane_gap_def spec_latch_def)
  next
    case CallDirty
    then show ?thesis using sim_accumulator [OF sim, of "Latched ScopeDirty"] s by (auto simp: latch_lane_dirty_def spec_latch_def)
  next
    case CallCut
    obtain lane' t where "take_cut lane = (lane', t)" by force
    then show ?thesis using CallCut sim_cut [OF sim] s by auto
  next
    case (Elsewhere w')
    then show ?thesis using sim_world [OF sim] s by auto
  qed
qed

interpretation lane: simulation "lane_do sid" "spec_allows sid" lane_sim
  by unfold_locales (rule lane_do_sim)

section \<open>Properties\<close>

text \<open>
  C6: the observation lane implements its specification. For every sequence of calls on a new lane, in a
  process that does anything in between, no call panics and the responses are exactly those of the
  specification: only the active observer is heard and a stale one is told who is active; every admission
  commits through the candidate pipeline, none is lost to capacity, drift or supersession; the artifacts hold
  the stamp of the latest admission of every source and the supervisors count every admission once; every cut
  names the newest stamp of exactly the sources changed since the previous cut, or asks for a full baseline
  when a change is of unknown extent or more than 4096 sources changed. Afterwards nothing is charged or
  outstanding in the lane's capacity pool and no refund was unknown.
\<close>

theorem lane_refines_spec:
  "\<exists>lane w' rs sp. run_calls (lane_do sid) calls (lane_new seed addr w) = Some ((lane, w'), rs) \<and> spec_calls (spec_allows sid) calls spec_init rs sp \<and>
     (\<forall>src. sp_latest sp src = map_option sa_token (hget (ol_artifacts lane) src)) \<and>
     (\<forall>rel. committed_observations sid rel lane = sp_admitted sp (sid rel)) \<and>
     active_observer lane = sp_observer sp \<and>
     observation_capacity_ledger lane = (0, OBSERVATION_CAPACITY_BYTES, 0, 0)"
proof -
  obtain lane w' rs sp where r: "run_calls (lane_do sid) calls (lane_new seed addr w) = Some ((lane, w'), rs)" "spec_calls (spec_allows sid) calls spec_init rs sp"
      and sim: "lane_sim (lane, w') sp"
    using lane.run_sim [OF sim_new] by (metis prod.collapse)
  have "committed_observations sid rel lane = sp_admitted sp (sid rel)" for rel
    using sim by (simp add: lane_sim_def committed_observations_def lane_supervisor_def supervisor_new_def split: option.split)
  moreover have "observation_capacity_ledger lane = (0, OBSERVATION_CAPACITY_BYTES, 0, 0)"
    using sim by (simp add: lane_sim_def lane_ok_def observation_capacity_ledger_def charged_def outstanding_charges_def new_row_def Let_def)
  moreover have "\<forall>src. sp_latest sp src = map_option sa_token (hget (ol_artifacts lane) src)"
    using sim by (simp add: lane_sim_def)
  ultimately show ?thesis using r sim_active [OF sim] unfolding active_observer_def by blast
qed

end
