(* ===== verification/WriteLane.thy ===== *)
theory WriteLane
  imports ObservationLane Mutation
begin

text \<open>
  The write authority of a project source: \<open>ProjectSourceAuthority\<close> and \<open>WriteAuthority\<close> of
  \<open>src/index_lifecycle/activation.rs\<close>, over the source runtime, the permits, the leases and the observation
  lane.

  Whether an ambient open of the root succeeds is the flag \<open>opens\<close>, what the operating system reports as
  the identity of a directory the parameter \<open>anchor option\<close>. A handle \<open>write_authority\<close> always holds its
  permit: the \<open>Option\<close> of the source is emptied only inside the calls that consume the handle, and
  the drop of an emptied handle does nothing.
\<close>

section \<open>The authority of a source\<close>

record anchor =
  an_dev :: u64
  an_ino :: u64

record authority_inner =
  in_runtime :: source_runtime
  in_lease :: root_lease
  in_outstanding :: nat

record source_authority =
  psa_root :: rel_path
  psa_admission_root :: identity
  psa_anchor :: "anchor option"
  psa_path_absent :: bool
  psa_inner :: authority_inner
  psa_lane :: observation_lane

record write_authority =
  wa_permit :: mutation_permit
  wa_frozen :: identity

definition for_root ::
  "bool \<Rightarrow> anchor option \<Rightarrow> identity \<Rightarrow> rel_path \<Rightarrow> signals \<Rightarrow> world \<Rightarrow> source_authority \<times> signals \<times> world" where
  "for_root opens observed addr root sg w =
     (let (lease, w) = lease_take opens root w;
          lease = parked lease;
          (binding, w) = bind (ls_identity lease) w;
          (seed_token, w) = fresh_identity w;
          (publication, w) = promote binding seed_token w;
          (lane, w) = lane_new seed_token addr w
      in (\<lparr>psa_root = root, psa_admission_root = ls_identity lease, psa_anchor = observed, psa_path_absent = False,
           psa_inner = \<lparr>in_runtime = rt_current publication, in_lease = lease, in_outstanding = length sg\<rparr>,
           psa_lane = lane\<rparr>, sg @ [drain_new], w))"

definition is_current :: "source_authority \<Rightarrow> bool" where
  "is_current a \<longleftrightarrow> live_publication (in_runtime (psa_inner a)) \<noteq> None"

definition current_publication_of :: "source_authority \<Rightarrow> identity option" where
  "current_publication_of a = map_option cp_publication (live_publication (in_runtime (psa_inner a)))"

definition take_matching_anchor ::
  "bool \<Rightarrow> anchor option \<Rightarrow> rel_path \<Rightarrow> anchor option \<Rightarrow> world \<Rightarrow> world \<times> (root_refusal, root_lease) result" where
  "take_matching_anchor opens opened root expected w =
     (let (lease, w) = lease_take opens root w
      in case capability w lease of
           Err e \<Rightarrow> (w, Err e)
         | Ok _ \<Rightarrow> if expected = None \<or> opened \<noteq> expected then (w, Err LeaseRevoked) else (w, Ok lease))"

definition with_anchored_read ::
  "bool \<Rightarrow> anchor option \<Rightarrow> identity option \<Rightarrow> (root_lease \<Rightarrow> (root_refusal, 'r) result) \<Rightarrow> source_authority \<Rightarrow> world \<Rightarrow>
   world \<times> (authority_refusal, 'r) result" where
  "with_anchored_read opens opened expected read a w =
     (let inner = psa_inner a; rt = in_runtime inner; phase = phase_name_of (rt_phase rt)
      in if \<not> lease_is_live w (in_lease inner) then (w, Err PhysicalRootReplaced)
         else if phase = BlockedPhase \<or> phase = StoppingPhase then (w, Err (PhaseNotCurrent phase))
         else case (case expected of
                      None \<Rightarrow> None
                    | Some e \<Rightarrow> (case live_publication rt of
                                  None \<Rightarrow> Some (PhaseNotCurrent phase)
                                | Some p \<Rightarrow> if cp_publication p \<noteq> e then Some (PublicationIdentityMismatch e (cp_publication p)) else None)) of
                Some refusal \<Rightarrow> (w, Err refusal)
              | None \<Rightarrow> (case take_matching_anchor opens opened (psa_root a) (psa_anchor a) w of
                          (w, Err e) \<Rightarrow> (w, Err (refusal_to_authority e))
                        | (w, Ok lease) \<Rightarrow> (w, authority_result (read lease))))"

definition admission_binding :: "source_authority \<Rightarrow> world \<Rightarrow> binding_authority \<times> world" where
  "admission_binding a w = bind (psa_admission_root a) w"

definition revoke_for_replacement :: "source_authority \<Rightarrow> world \<Rightarrow> world" where
  "revoke_for_replacement a w = revoke_lease (in_lease (psa_inner a)) w"

definition mark_path_absent :: "source_authority \<Rightarrow> source_authority" where
  "mark_path_absent a = a\<lparr>psa_path_absent := True\<rparr>"

section \<open>Acquiring\<close>

definition acquire_write_if_publication ::
  "identity option \<Rightarrow> bool \<Rightarrow> source_authority \<Rightarrow> signals \<Rightarrow> world \<Rightarrow>
   source_authority \<times> signals \<times> world \<times> (authority_refusal, write_authority) result" where
  "acquire_write_if_publication expected opens a sg w =
     (let inner = psa_inner a; rt = in_runtime inner
      in case live_publication rt of
           None \<Rightarrow> (a, sg, w, Err (PhaseNotCurrent (phase_name_of (rt_phase rt))))
         | Some publication \<Rightarrow>
             (let presented = cp_publication publication
              in if expected \<noteq> None \<and> expected \<noteq> Some presented
                 then (a, sg, w, Err (PublicationIdentityMismatch (the expected) presented))
                 else (case request_mutation_grant (LiveCurrent presented) rt w of
                         (rt, w, Err e) \<Rightarrow> (a\<lparr>psa_inner := inner\<lparr>in_runtime := rt\<rparr>\<rparr>, sg, w, Err e)
                       | (rt, w, Ok grant) \<Rightarrow>
                           (let drain = length sg;
                                sg = sg @ [drain_new];
                                live_lease = reopened opens (in_lease inner)
                            in case permit_grant grant live_lease drain w sg of
                                 (sg, Err e) \<Rightarrow> (a\<lparr>psa_inner := inner\<lparr>in_runtime := rt\<rparr>\<rparr>, sg, w, Err e)
                               | (sg, Ok permit) \<Rightarrow>
                                   (a\<lparr>psa_inner := \<lparr>in_runtime = rt, in_lease = live_lease, in_outstanding = drain\<rparr>\<rparr>, sg, w,
                                    Ok \<lparr>wa_permit = permit, wa_frozen = np_publication (ga_proof grant)\<rparr>)))))"

definition acquire_write ::
  "bool \<Rightarrow> source_authority \<Rightarrow> signals \<Rightarrow> world \<Rightarrow>
   source_authority \<times> signals \<times> world \<times> (authority_refusal, write_authority) result" where
  "acquire_write = acquire_write_if_publication None"

definition acquire_write_expected ::
  "identity \<Rightarrow> bool \<Rightarrow> source_authority \<Rightarrow> signals \<Rightarrow> world \<Rightarrow>
   source_authority \<times> signals \<times> world \<times> (authority_refusal, write_authority) result" where
  "acquire_write_expected expected = acquire_write_if_publication (Some expected)"

text \<open>
  The retrying acquire: \<open>others n\<close> is what the rest of the process does while this thread sleeps after its
  \<open>n\<close>-th refusal.
\<close>

type_synonym shared = "source_authority \<times> signals \<times> world"

function serialized_from ::
  "(nat \<Rightarrow> shared \<Rightarrow> shared) \<Rightarrow> (nat \<Rightarrow> bool) \<Rightarrow> nat \<Rightarrow> shared \<Rightarrow> shared \<times> (authority_refusal, write_authority) result" where
  "serialized_from others opens attempts (a, sg, w) =
     (case acquire_write (opens attempts) a sg w of
        (a, sg, w, Ok h) \<Rightarrow> ((a, sg, w), Ok h)
      | (a, sg, w, Err (PhaseNotCurrent phase)) \<Rightarrow>
          (let attempts = attempts + 1
           in if attempts \<ge> 80 then ((a, sg, w), Err (PhaseNotCurrent phase))
              else serialized_from others opens attempts (others attempts (a, sg, w)))
      | (a, sg, w, Err refusal) \<Rightarrow> ((a, sg, w), Err refusal))"
  by pat_completeness auto
termination
  by (relation "measure (\<lambda>(others, opens, attempts, s). 80 - attempts)") auto

definition acquire_write_serialized ::
  "(nat \<Rightarrow> shared \<Rightarrow> shared) \<Rightarrow> (nat \<Rightarrow> bool) \<Rightarrow> shared \<Rightarrow> shared \<times> (authority_refusal, write_authority) result" where
  "acquire_write_serialized others opens s = serialized_from others opens 0 s"

section \<open>Returning\<close>

text \<open>The section of the return path that holds the lock of \<open>inner\<close>.\<close>

definition return_install ::
  "identity \<Rightarrow> identity \<Rightarrow> bool \<Rightarrow> source_authority \<Rightarrow> signals \<Rightarrow> world \<Rightarrow> source_authority \<times> world \<times> (authority_refusal, unit) result" where
  "return_install frozen observer_cut opens a sg w =
     (let inner = psa_inner a;
          (rt, _) = retire_permit frozen (in_runtime inner);
          (new_lease, w) = lease_take opens (psa_root a) w;
          new_lease = parked new_lease;
          (incoming, w) = bind (ls_identity new_lease) w
      in case transition_apply Reload (in_lease inner) incoming observer_cut (sg ! in_outstanding inner) rt w of
           (rt, w, Err e) \<Rightarrow> (a\<lparr>psa_inner := inner\<lparr>in_runtime := rt\<rparr>\<rparr>, w, Err e)
         | (rt, w, Ok _) \<Rightarrow> (a\<lparr>psa_inner := inner\<lparr>in_runtime := rt, in_lease := new_lease\<rparr>\<rparr>, w, Ok ()))"

definition return_to_current ::
  "identity \<Rightarrow> bool \<Rightarrow> source_authority \<Rightarrow> signals \<Rightarrow> world \<Rightarrow> source_authority \<times> world \<times> (authority_refusal, unit) result" where
  "return_to_current frozen opens a sg w =
     (case take_cut (psa_lane a) of
        (lane, observer_cut) \<Rightarrow> return_install frozen observer_cut opens (a\<lparr>psa_lane := lane\<rparr>) sg w)"

definition reconcile_returned ::
  "identity \<Rightarrow> refresh_ticket \<Rightarrow> bool \<Rightarrow> source_authority \<Rightarrow> signals \<Rightarrow> world \<Rightarrow>
   source_authority \<times> world \<times> (authority_refusal, refresh_ticket) result" where
  "reconcile_returned frozen ticket opens a sg w =
     (case return_to_current frozen opens a sg w of
        (a, w, Err e) \<Rightarrow> (a, w, Err e)
      | (a, w, Ok _) \<Rightarrow> (a, w, Ok ticket))"

definition recover_stranded ::
  "identity \<Rightarrow> bool \<Rightarrow> source_authority \<Rightarrow> signals \<Rightarrow> world \<Rightarrow> source_authority \<times> world \<times> (authority_refusal, unit) result" where
  "recover_stranded frozen opens a sg w =
     return_to_current frozen opens (a\<lparr>psa_lane := latch_lane_dirty (psa_lane a)\<rparr>) sg w"

section \<open>The handle\<close>

definition wa_matches_optional_beneath ::
  "'d dir_ops \<Rightarrow> world \<Rightarrow> write_authority \<Rightarrow> component list \<Rightarrow> bytes option \<Rightarrow> 'd \<Rightarrow> 'd \<times> (authority_refusal, bool) result" where
  "wa_matches_optional_beneath ops w h relative expected d =
     (case matches_optional_image_beneath ops w (pm_lease (wa_permit h)) relative expected d of (d, r) \<Rightarrow> (d, authority_result r))"

definition wa_begin_delegated :: "world \<Rightarrow> write_authority \<Rightarrow> write_authority \<times> (authority_refusal, unit) result" where
  "wa_begin_delegated w h =
     (case start_side_effect w (wa_permit h) of
        (p, r) \<Rightarrow> (h\<lparr>wa_permit := p\<rparr>, if r = Err SideEffectAlreadyInFlight then Ok () else r))"

definition wa_write ::
  "'d dir_ops \<Rightarrow> nat \<Rightarrow> world \<Rightarrow> world \<Rightarrow> component list \<Rightarrow> bytes \<Rightarrow> nat \<Rightarrow> 'd \<Rightarrow> write_authority \<Rightarrow>
   write_authority \<times> 'd \<times> nat \<times> (authority_refusal, write_receipt) result" where
  "wa_write ops pid w w' relative contents serial d h =
     (case wa_begin_delegated w h of
        (h, Err e) \<Rightarrow> (h, d, serial, Err e)
      | (h, Ok _) \<Rightarrow> (h, permit_replace_beneath ops pid w w' (wa_permit h) relative contents serial d))"

definition wa_write_owner_only ::
  "'d dir_ops \<Rightarrow> nat \<Rightarrow> world \<Rightarrow> world \<Rightarrow> component list \<Rightarrow> bytes \<Rightarrow> nat \<Rightarrow> 'd \<Rightarrow> write_authority \<Rightarrow>
   write_authority \<times> 'd \<times> nat \<times> (authority_refusal, write_receipt) result" where
  "wa_write_owner_only ops pid w w' relative contents serial d h =
     (case wa_begin_delegated w h of
        (h, Err e) \<Rightarrow> (h, d, serial, Err e)
      | (h, Ok _) \<Rightarrow> (h, permit_replace_owner_only_beneath ops pid w w' (wa_permit h) relative contents serial d))"

definition wa_attest_delegated ::
  "'d dir_ops \<Rightarrow> world \<Rightarrow> write_authority \<Rightarrow> component list \<Rightarrow> bytes \<Rightarrow> 'd \<Rightarrow> 'd \<times> (authority_refusal, write_receipt option) result" where
  "wa_attest_delegated ops w h relative expected d = attest_delegated_beneath ops w (wa_permit h) relative expected d"

definition drop_write :: "write_authority \<Rightarrow> bool \<Rightarrow> source_authority \<Rightarrow> signals \<Rightarrow> world \<Rightarrow> source_authority \<times> signals \<times> world" where
  "drop_write h opens a sg w =
     (let sg = drop_mutation_permit (wa_permit h) sg
      in case recover_stranded (wa_frozen h) opens a sg w of (a, w, _) \<Rightarrow> (a, sg, w))"

text \<open>A refused finish returns early and drops the handle with its permit.\<close>

definition finish_committed ::
  "write_receipt \<Rightarrow> write_authority \<Rightarrow> bool \<Rightarrow> source_authority \<Rightarrow> signals \<Rightarrow> world \<Rightarrow>
   source_authority \<times> signals \<times> world \<times> (authority_refusal, refresh_ticket) result" where
  "finish_committed receipt h opens a sg w =
     (case permit_commit receipt (wa_permit h) sg of
        (p, sg, Err e) \<Rightarrow> (case drop_write (h\<lparr>wa_permit := p\<rparr>) opens a sg w of (a, sg, w) \<Rightarrow> (a, sg, w, Err e))
      | (p, sg, Ok ticket) \<Rightarrow>
          (let sg = drop_mutation_permit p sg
           in case reconcile_returned (wa_frozen h) ticket opens a sg w of (a, w, r) \<Rightarrow> (a, sg, w, r)))"

definition finish_no_side_effect ::
  "write_authority \<Rightarrow> bool \<Rightarrow> source_authority \<Rightarrow> signals \<Rightarrow> world \<Rightarrow>
   source_authority \<times> signals \<times> world \<times> (authority_refusal, refresh_ticket) result" where
  "finish_no_side_effect h opens a sg w =
     (case no_side_effect (wa_permit h) sg of
        (p, sg, Err e) \<Rightarrow> (case drop_write (h\<lparr>wa_permit := p\<rparr>) opens a sg w of (a, sg, w) \<Rightarrow> (a, sg, w, Err e))
      | (p, sg, Ok ticket) \<Rightarrow>
          (let sg = drop_mutation_permit p sg
           in case reconcile_returned (wa_frozen h) ticket opens a sg w of (a, w, r) \<Rightarrow> (a, sg, w, r)))"

section \<open>All writers of a source\<close>

text \<open>
  The machine interleaves, at the granularity of the locks, every thread that uses one authority: writers
  acquiring, writing, finishing and dropping, the observation calls, the replacement fence of the authority
  registry, and the rest of the process. A writer whose permit ended still has its lock sections before it:
  \<open>Recovering\<close> has to latch the scope, \<open>Returning\<close> to take the cut, \<open>Installing\<close> to install.
\<close>

datatype writer =
    Holding write_authority
  | Recovering identity
  | Returning identity
  | Installing identity identity

fun writer_frozen :: "writer \<Rightarrow> identity" where
  "writer_frozen (Holding h) = wa_frozen h"
| "writer_frozen (Recovering f) = f"
| "writer_frozen (Returning f) = f"
| "writer_frozen (Installing f t) = f"

record write_system =
  ws_authority :: source_authority
  ws_signals :: signals
  ws_world :: world
  ws_writers :: "writer list"

definition set_writer :: "nat \<Rightarrow> writer \<Rightarrow> write_system \<Rightarrow> write_system" where
  "set_writer i x s = s\<lparr>ws_writers := (ws_writers s)[i := x]\<rparr>"

definition has_writer :: "write_system \<Rightarrow> nat \<Rightarrow> writer \<Rightarrow> bool" where
  "has_writer s i x \<longleftrightarrow> i < length (ws_writers s) \<and> ws_writers s ! i = x"

definition acquired :: "(authority_refusal, write_authority) result \<Rightarrow> writer list" where
  "acquired r = (case r of Ok h \<Rightarrow> [Holding h] | Err _ \<Rightarrow> [])"

definition ended_as :: "identity \<Rightarrow> (authority_refusal, refresh_ticket) result \<Rightarrow> writer" where
  "ended_as frozen r = (case r of Ok _ \<Rightarrow> Returning frozen | Err _ \<Rightarrow> Recovering frozen)"

text \<open>
  What the rest of the process can do to the world: draw identities and revoke bindings and leases, but not
  the binding and the lease of this source, which it cannot name.
\<close>

definition elsewhere :: "write_system \<Rightarrow> world \<Rightarrow> bool" where
  "elsewhere s w' \<longleftrightarrow> (let w = ws_world s in
     w_next w \<le> w_next w' \<and> w_next_root w \<le> w_next_root w' \<and>
     (\<forall>i \<in> set (w_revoked w'). i < w_next w' \<and> (i \<in> set (w_revoked w) \<or>
        (\<forall>b. retained_binding (in_runtime (psa_inner (ws_authority s))) = Some b \<longrightarrow> i \<noteq> b_identity b))) \<and>
     (\<forall>i \<in> set (w_dead w'). i < w_next_root w' \<and> (i \<in> set (w_dead w) \<or> i \<noteq> ls_identity (in_lease (psa_inner (ws_authority s))))) \<and>
     set (w_dead w) \<subseteq> set (w_dead w'))"

inductive write_step :: "'d dir_ops \<Rightarrow> (string \<Rightarrow> source_id) \<Rightarrow> write_system \<Rightarrow> write_system \<Rightarrow> bool" for ops sid where
  wl_acquire: "acquire_write_if_publication expected opens (ws_authority s) (ws_signals s) (ws_world s) = (a, sg, w, r) \<Longrightarrow>
    write_step ops sid s (s\<lparr>ws_authority := a, ws_signals := sg, ws_world := w,
      ws_writers := ws_writers s @ acquired r\<rparr>)"
| wl_write: "has_writer s i (Holding h) \<Longrightarrow> wa_write ops pid (ws_world s) w' relative contents serial d h = (h', x) \<Longrightarrow>
    write_step ops sid s (set_writer i (Holding h') s)"
| wl_write_owner_only: "has_writer s i (Holding h) \<Longrightarrow>
    wa_write_owner_only ops pid (ws_world s) w' relative contents serial d h = (h', x) \<Longrightarrow>
    write_step ops sid s (set_writer i (Holding h') s)"
| wl_begin: "has_writer s i (Holding h) \<Longrightarrow> wa_begin_delegated (ws_world s) h = (h', r) \<Longrightarrow>
    write_step ops sid s (set_writer i (Holding h') s)"
| wl_commit: "has_writer s i (Holding h) \<Longrightarrow> permit_commit receipt (wa_permit h) (ws_signals s) = (p, sg, r) \<Longrightarrow>
    write_step ops sid s (set_writer i (ended_as (wa_frozen h) r)
      (s\<lparr>ws_signals := drop_mutation_permit p sg\<rparr>))"
| wl_absence: "has_writer s i (Holding h) \<Longrightarrow> no_side_effect (wa_permit h) (ws_signals s) = (p, sg, r) \<Longrightarrow>
    write_step ops sid s (set_writer i (ended_as (wa_frozen h) r)
      (s\<lparr>ws_signals := drop_mutation_permit p sg\<rparr>))"
| wl_drop: "has_writer s i (Holding h) \<Longrightarrow>
    write_step ops sid s (set_writer i (Recovering (wa_frozen h)) (s\<lparr>ws_signals := drop_mutation_permit (wa_permit h) (ws_signals s)\<rparr>))"
| wl_latch: "has_writer s i (Recovering f) \<Longrightarrow>
    write_step ops sid s (set_writer i (Returning f)
      (s\<lparr>ws_authority := (ws_authority s)\<lparr>psa_lane := latch_lane_dirty (psa_lane (ws_authority s))\<rparr>\<rparr>))"
| wl_cut: "has_writer s i (Returning f) \<Longrightarrow> take_cut (psa_lane (ws_authority s)) = (lane, t) \<Longrightarrow>
    write_step ops sid s (set_writer i (Installing f t) (s\<lparr>ws_authority := (ws_authority s)\<lparr>psa_lane := lane\<rparr>\<rparr>))"
| wl_install: "has_writer s i (Installing f t) \<Longrightarrow>
    return_install f t opens (ws_authority s) (ws_signals s) (ws_world s) = (a, w, r) \<Longrightarrow>
    write_step ops sid s (s\<lparr>ws_authority := a, ws_world := w, ws_writers := take i (ws_writers s) @ drop (Suc i) (ws_writers s)\<rparr>)"
| wl_observe: "lane_do sid call (psa_lane (ws_authority s), ws_world s) = Some ((lane, w), r) \<Longrightarrow> (\<And>w. call \<noteq> Elsewhere w) \<Longrightarrow>
    call \<notin> {CallDirty, CallCut} \<Longrightarrow>
    write_step ops sid s (s\<lparr>ws_authority := (ws_authority s)\<lparr>psa_lane := lane\<rparr>, ws_world := w\<rparr>)"
| wl_replaced: "write_step ops sid s (s\<lparr>ws_world := revoke_for_replacement (ws_authority s) (ws_world s)\<rparr>)"
| wl_absent: "write_step ops sid s (s\<lparr>ws_authority := (ws_authority s)\<lparr>psa_path_absent := b\<rparr>\<rparr>)"
| wl_elsewhere: "elsewhere s w' \<Longrightarrow> write_step ops sid s (s\<lparr>ws_world := w'\<rparr>)"

definition world_ok :: "world \<Rightarrow> bool" where
  "world_ok w \<longleftrightarrow> (\<forall>i \<in> set (w_revoked w). i < w_next w) \<and> (\<forall>i \<in> set (w_dead w). i < w_next_root w)"

definition write_init :: "write_system \<Rightarrow> bool" where
  "write_init s \<longleftrightarrow> (\<exists>opens observed addr root sg w. world_ok w \<and>
     for_root opens observed addr root sg w = (ws_authority s, ws_signals s, ws_world s) \<and> ws_writers s = [])"

section \<open>One writer at most\<close>

text \<open>What the signal of the source says about its writer.\<close>

fun writer_ok :: "authority_inner \<Rightarrow> signals \<Rightarrow> writer \<Rightarrow> bool" where
  "writer_ok inner sg (Holding h) \<longleftrightarrow> pm_drain (wa_permit h) = in_outstanding inner \<and> \<not> is_terminal (wa_permit h) \<and>
     ls_identity (pm_lease (wa_permit h)) = ls_identity (in_lease inner) \<and>
     np_publication (pm_proof (wa_permit h)) = wa_frozen h \<and>
     dr_armed (sg ! in_outstanding inner) \<and> \<not> dr_ended (sg ! in_outstanding inner) \<and> dr_termination (sg ! in_outstanding inner) = None"
| "writer_ok inner sg _ \<longleftrightarrow> dr_ended (sg ! in_outstanding inner)"

fun phase_ok :: "world \<Rightarrow> authority_inner \<Rightarrow> signals \<Rightarrow> writer list \<Rightarrow> source_phase \<Rightarrow> bool" where
  "phase_ok w inner sg ws (Current p) \<longleftrightarrow> ws = [] \<and> cp_publication p < w_next w"
| "phase_ok w inner sg ws (Refreshing g b p ob ap wk) \<longleftrightarrow> ever_recorded ap \<and> p < w_next w \<and> outstanding ap = [p] \<and>
     (ws = [] \<and> \<not> lease_is_live w (in_lease inner) \<or> (\<exists>x. ws = [x] \<and> writer_frozen x = p \<and> writer_ok inner sg x))"
| "phase_ok w inner sg ws _ \<longleftrightarrow> False"

definition write_ok :: "write_system \<Rightarrow> bool" where
  "write_ok s \<longleftrightarrow> (let w = ws_world s; inner = psa_inner (ws_authority s); rt = in_runtime inner in
     world_ok w \<and> in_outstanding inner < length (ws_signals s) \<and> ls_identity (in_lease inner) < w_next_root w \<and>
     (\<exists>b. retained_binding rt = Some b \<and> b_root b = ls_identity (in_lease inner) \<and> b_identity b < w_next w \<and> binding_is_live w b) \<and>
     phase_ok w inner (ws_signals s) (ws_writers s) (rt_phase rt))"

text \<open>The runtime after a grant.\<close>

definition granted_rt :: "current_publication \<Rightarrow> source_runtime \<Rightarrow> world \<Rightarrow> source_runtime" where
  "granted_rt p rt w = rt\<lparr>rt_epoch := rt_epoch rt + 1,
     rt_phase := Refreshing (cp_generation p) (cp_binding p) (w_next w) (ObsActive (cp_observer_cut p))
       \<lparr>outstanding = [w_next w], ever_recorded = True\<rparr> Dirty,
     rt_grants := rt_grants rt + 1\<rparr>"

lemma live_publication_Some: "live_publication rt = Some p \<longleftrightarrow> rt_phase rt = Current p"
  by (cases "rt_phase rt") (simp_all add: live_publication_def)

lemma live_publication_None: "live_publication rt = None \<longleftrightarrow> (\<forall>p. rt_phase rt \<noteq> Current p)"
  by (cases "rt_phase rt") (simp_all add: live_publication_def)

text \<open>Every way out of an acquire.\<close>

lemma acquire_cases:
  assumes acq: "acquire_write_if_publication expected opens a sg w = (a', sg', w', r)"
  obtains (refused) e where "r = Err e" "a' = a" "sg' = sg" "w' = w"
      "e = PhaseNotCurrent (phase_name_of (rt_phase (in_runtime (psa_inner a)))) \<and> (\<forall>p. rt_phase (in_runtime (psa_inner a)) \<noteq> Current p) \<or>
       (\<exists>p x. e = PublicationIdentityMismatch x (cp_publication p) \<and> expected = Some x \<and> rt_phase (in_runtime (psa_inner a)) = Current p)"
  | (stranded) p e where "rt_phase (in_runtime (psa_inner a)) = Current p" "r = Err e" "sg' = sg @ [drain_new]"
      "a' = a\<lparr>psa_inner := (psa_inner a)\<lparr>in_runtime := granted_rt p (in_runtime (psa_inner a)) w\<rparr>\<rparr>"
      "w' = w\<lparr>w_next := w_next w + 1\<rparr>" "expected = None \<or> expected = Some (cp_publication p)"
      "b_root (cp_binding p) \<noteq> ls_identity (in_lease (psa_inner a)) \<and> e = WholeAuthorityMismatch \<or>
       \<not> binding_is_live w (cp_binding p) \<and> e = BindingRevoked (b_identity (cp_binding p)) \<or>
       \<not> lease_is_live w (in_lease (psa_inner a)) \<and> e = PhysicalRootReplaced"
  | (granted) p h where "rt_phase (in_runtime (psa_inner a)) = Current p" "r = Ok h" "sg' = sg @ [arm drain_new]"
      "a' = a\<lparr>psa_inner := \<lparr>in_runtime = granted_rt p (in_runtime (psa_inner a)) w,
          in_lease = reopened opens (in_lease (psa_inner a)), in_outstanding = length sg\<rparr>\<rparr>"
      "w' = w\<lparr>w_next := w_next w + 1\<rparr>" "expected = None \<or> expected = Some (cp_publication p)"
      "wa_frozen h = w_next w" "pm_state (wa_permit h) = Granted" "pm_drain (wa_permit h) = length sg"
      "np_publication (pm_proof (wa_permit h)) = w_next w" "pm_lease (wa_permit h) = reopened opens (in_lease (psa_inner a))"
      "lease_is_live w (in_lease (psa_inner a))"
proof -
  let ?rt = "in_runtime (psa_inner a)"
  show thesis
  proof (cases "live_publication ?rt")
    case None
    with acq show thesis
      by (intro refused) (auto simp: acquire_write_if_publication_def live_publication_None Let_def)
  next
    case (Some p)
    then have ph: "rt_phase ?rt = Current p" by (simp add: live_publication_Some)
    show thesis
    proof (cases "expected = None \<or> expected = Some (cp_publication p)")
      case False
      with acq Some ph show thesis
        by (intro refused) (auto simp: acquire_write_if_publication_def Let_def)
    next
      case True
      let ?g = "\<lparr>ga_authority = \<lparr>ma_generation = cp_generation p, ma_binding = cp_binding p,
                         ma_epoch = rt_epoch ?rt + 1, ma_publication = cp_publication p\<rparr>,
         ga_proof = \<lparr>np_publication = w_next w, np_epoch = rt_epoch ?rt + 1\<rparr>\<rparr>"
      let ?l = "reopened opens (in_lease (psa_inner a))"
      let ?pg = "permit_grant ?g ?l (length sg) (w\<lparr>w_next := w_next w + 1\<rparr>) (sg @ [drain_new])"
      have e: "(a', sg', w', r) = (case ?pg of
           (sg, Err e) \<Rightarrow> (a\<lparr>psa_inner := (psa_inner a)\<lparr>in_runtime := granted_rt p ?rt w\<rparr>\<rparr>, sg, w\<lparr>w_next := w_next w + 1\<rparr>, Err e)
         | (sg', Ok permit) \<Rightarrow> (a\<lparr>psa_inner := \<lparr>in_runtime = granted_rt p ?rt w, in_lease = ?l, in_outstanding = length sg\<rparr>\<rparr>, sg',
              w\<lparr>w_next := w_next w + 1\<rparr>, Ok \<lparr>wa_permit = permit, wa_frozen = w_next w\<rparr>))"
        unfolding acq [symmetric] using True
        by (elim disjE) (simp_all add: acquire_write_if_publication_def Some request_accepts [OF ph] granted_rt_def Let_def split: prod.split sum.split)
      have l: "ls_identity ?l = ls_identity (in_lease (psa_inner a))" "lease_is_live w' ?l = lease_is_live w' (in_lease (psa_inner a))" for w'
        by (simp_all add: reopened_def lease_is_live_def)
      show thesis
      proof (cases "snd ?pg")
        case (Inl x)
        with e have "r = Err x" "a' = a\<lparr>psa_inner := (psa_inner a)\<lparr>in_runtime := granted_rt p ?rt w\<rparr>\<rparr>" "w' = w\<lparr>w_next := w_next w + 1\<rparr>"
            "sg' = fst ?pg"
          by (auto split: prod.splits)
        with Inl ph True l show thesis
          by (intro stranded) (auto simp: permit_grant_def binding_is_live_def lease_is_live_def Let_def split: if_splits)
      next
        case (Inr m)
        with e have "r = Ok \<lparr>wa_permit = m, wa_frozen = w_next w\<rparr>" "w' = w\<lparr>w_next := w_next w + 1\<rparr>" "sg' = fst ?pg"
            "a' = a\<lparr>psa_inner := \<lparr>in_runtime = granted_rt p ?rt w, in_lease = ?l, in_outstanding = length sg\<rparr>\<rparr>"
          by (auto split: prod.splits)
        with Inr ph True l show thesis
          by (intro granted) (auto simp: permit_grant_def lease_is_live_def on_signal_def Let_def split: if_splits)
      qed
    qed
  qed
qed

lemma return_installs:
  assumes "rt_phase (in_runtime (psa_inner a)) = Refreshing g b p ob ap wk" "set (outstanding ap) \<subseteq> {f}"
    and "has_ended (sg ! in_outstanding (psa_inner a))"
  shows "return_install f t opens a sg w =
    (a\<lparr>psa_inner := (psa_inner a)\<lparr>
        in_runtime := (in_runtime (psa_inner a))\<lparr>rt_epoch := rt_epoch (in_runtime (psa_inner a)) + 1,
          rt_phase := Current \<lparr>cp_publication = w_next w + 2, cp_generation = w_next w + 3,
            cp_binding = \<lparr>b_identity = w_next w, b_root = w_next_root w\<rparr>, cp_observer_cut = t\<rparr>\<rparr>,
        in_lease := \<lparr>ls_identity = w_next_root w, ls_root = psa_root a, ls_open = False\<rparr>\<rparr>\<rparr>,
     (revoke_lease (in_lease (psa_inner a)) w)\<lparr>w_next := w_next w + 4, w_next_root := w_next_root w + 1\<rparr>, Ok ())"
proof -
  let ?rt = "(in_runtime (psa_inner a))\<lparr>rt_phase := Refreshing g b p ob (ap\<lparr>outstanding := []\<rparr>) wk\<rparr>"
  have "filter (\<lambda>e. e \<noteq> f) (outstanding ap) = []" using assms(2) by (auto simp: filter_empty_conv)
  then obtain z where r: "retire_permit f (in_runtime (psa_inner a)) = (?rt, z)"
    by (simp add: retire_permit_def retire_active_def assms(1) Let_def)
  have "has_ended (sg ! in_outstanding (psa_inner a))" "outstanding (rt_active_permits ?rt) = []"
      "phase_name_of (rt_phase ?rt) \<in> {CurrentPhase, RefreshingPhase}"
    using assms(3) by (simp_all add: rt_active_permits_def)
  from transition_applies [OF this, where kind = Reload] r show ?thesis
    by (simp add: return_install_def lease_take_def fresh_root_def parked_def bind_def fresh_identity_def revoke_lease_def Let_def)
qed

lemma lane_do_world:
  assumes "lane_do sid c (lane, w) = Some ((lane', w'), r)" and "\<And>w. c \<noteq> Elsewhere w"
  shows "w' = w\<lparr>w_next := w_next w'\<rparr> \<and> w_next w \<le> w_next w'"
proof -
  have r: "w' = w\<lparr>w_next := w_next w'\<rparr> \<and> w_next w \<le> w_next w'" if "prepare_delta pool owner i src e d w = (pool', w', x)"
      for pool owner i src e d pool' w' x
    using that by (auto simp: prepare_delta_def reserve_permit_def reserve_def fresh_identity_def Let_def
        split: prod.splits sum.splits option.splits if_splits)
  have a: "w' = w\<lparr>w_next := w_next w'\<rparr> \<and> w_next w \<le> w_next w'" if "observe_admission_locked sid rel lane w = Some (l, w')" for rel l w'
    using that by (auto simp: observe_admission_locked_def Let_def dest: r split: prod.splits sum.splits option.splits)
  show ?thesis
  proof (cases c)
    case CallRegister
    with assms(1) show ?thesis
      by (auto simp: register_observer_def fresh_identity_def Let_def split: prod.splits sum.splits)
  next
    case (CallAdmit ob rel)
    with assms(1) show ?thesis by (auto simp: observe_admission_def dest: a split: if_splits)
  qed (use assms in \<open>auto simp: observe_admission_active_def dest: a split: prod.splits\<close>)
qed

section \<open>Every step keeps the invariant\<close>

lemma phase_ok_cases:
  assumes "phase_ok w inner sg ws ph"
  obtains (current) p where "ph = Current p" "ws = []" "cp_publication p < w_next w"
  | (stranded) g b p ob ap wk where "ph = Refreshing g b p ob ap wk" "ever_recorded ap" "p < w_next w" "outstanding ap = [p]"
      "ws = []" "\<not> lease_is_live w (in_lease inner)"
  | (writing) g b p ob ap wk x where "ph = Refreshing g b p ob ap wk" "ever_recorded ap" "p < w_next w" "outstanding ap = [p]"
      "ws = [x]" "writer_frozen x = p" "writer_ok inner sg x"
  using assms by (cases ph) auto

lemma write_ok_world:
  assumes "write_ok s" and "elsewhere s w'"
  shows "write_ok (s\<lparr>ws_world := w'\<rparr>)"
proof -
  let ?inner = "psa_inner (ws_authority s)"
  have ph: "phase_ok (ws_world s) ?inner (ws_signals s) (ws_writers s) (rt_phase (in_runtime ?inner))"
    using assms(1) by (simp add: write_ok_def Let_def)
  have le: "w_next (ws_world s) \<le> w_next w'" "set (w_dead (ws_world s)) \<subseteq> set (w_dead w')"
    using assms(2) by (auto simp: elsewhere_def Let_def)
  from ph have "phase_ok w' ?inner (ws_signals s) (ws_writers s) (rt_phase (in_runtime ?inner))"
    by (cases rule: phase_ok_cases) (use le in \<open>auto simp: lease_is_live_def\<close>)
  then show ?thesis
    using assms unfolding write_ok_def elsewhere_def world_ok_def binding_is_live_def Let_def by fastforce
qed

lemma elsewhere_next:
  "write_ok s \<Longrightarrow> w_next (ws_world s) \<le> n \<Longrightarrow> elsewhere s ((ws_world s)\<lparr>w_next := n\<rparr>)"
  by (auto simp: elsewhere_def write_ok_def world_ok_def Let_def)

text \<open>A writer's own step: nothing but its state and the signal of the source change.\<close>

lemma write_ok_writer:
  assumes ok: "write_ok s" and h: "has_writer s i x" and f: "writer_frozen x' = writer_frozen x"
    and sg: "length sg = length (ws_signals s)" and x': "writer_ok (psa_inner (ws_authority s)) (ws_signals s) x \<Longrightarrow>
      writer_ok (psa_inner (ws_authority s)) sg x'"
    and a: "psa_inner a = psa_inner (ws_authority s)"
  shows "write_ok (set_writer i x' (s\<lparr>ws_signals := sg, ws_authority := a\<rparr>))"
proof -
  let ?inner = "psa_inner (ws_authority s)"
  have ph: "phase_ok (ws_world s) ?inner (ws_signals s) (ws_writers s) (rt_phase (in_runtime ?inner))"
    using ok by (simp add: write_ok_def Let_def)
  from ph have "phase_ok (ws_world s) ?inner sg ((ws_writers s)[i := x']) (rt_phase (in_runtime ?inner))"
  proof (cases rule: phase_ok_cases)
    case (writing g b p ob ap wk y)
    then have "i = 0" "y = x" using h by (auto simp: has_writer_def)
    with writing f x' show ?thesis by simp
  qed (use h in \<open>simp_all add: has_writer_def\<close>)
  then show ?thesis using ok sg by (simp add: write_ok_def set_writer_def a Let_def)
qed

lemma holding_ok: "write_ok s \<Longrightarrow> has_writer s i (Holding h) \<Longrightarrow> writer_ok (psa_inner (ws_authority s)) (ws_signals s) (Holding h)"
  by (auto simp: write_ok_def has_writer_def Let_def elim!: phase_ok_cases)

lemma write_ok_acquire:
  assumes ok: "write_ok s"
    and acq: "acquire_write_if_publication expected opens (ws_authority s) (ws_signals s) (ws_world s) = (a, sg, w, r)"
  shows "write_ok (s\<lparr>ws_authority := a, ws_signals := sg, ws_world := w, ws_writers := ws_writers s @ acquired r\<rparr>)"
  using acq
proof (cases rule: acquire_cases)
  case (refused e)
  then show ?thesis using ok by (simp add: acquired_def write_ok_def)
next
  case (stranded p e)
  then have "\<not> lease_is_live (ws_world s) (in_lease (psa_inner (ws_authority s)))"
    using ok by (auto simp: write_ok_def retained_binding_def Let_def)
  then show ?thesis
    using ok stranded
    by (auto simp: acquired_def write_ok_def granted_rt_def retained_binding_def world_ok_def binding_is_live_def lease_is_live_def Let_def)
next
  case (granted p h)
  then show ?thesis
    using ok
    by (auto simp: acquired_def write_ok_def granted_rt_def retained_binding_def world_ok_def binding_is_live_def reopened_def
        is_terminal_def arm_def drain_new_def nth_append Let_def)
qed

lemma start_frame:
  "start_side_effect w p = (p', r) \<Longrightarrow> pm_drain p' = pm_drain p \<and> pm_lease p' = pm_lease p \<and> pm_proof p' = pm_proof p \<and>
     pm_authority p' = pm_authority p \<and> (is_terminal p' \<longleftrightarrow> is_terminal p)"
  by (auto simp: start_side_effect_def is_terminal_def split: permit_state.splits if_splits)

lemma begin_frame:
  "wa_begin_delegated w h = (h', r) \<Longrightarrow> wa_frozen h' = wa_frozen h \<and> pm_drain (wa_permit h') = pm_drain (wa_permit h) \<and>
     pm_lease (wa_permit h') = pm_lease (wa_permit h) \<and> pm_proof (wa_permit h') = pm_proof (wa_permit h) \<and>
     (is_terminal (wa_permit h') \<longleftrightarrow> is_terminal (wa_permit h))"
  by (auto simp: wa_begin_delegated_def dest!: start_frame split: prod.splits)

lemma write_begins:
  "wa_write ops pid w w' relative contents serial d h = (h', x) \<Longrightarrow> \<exists>r. wa_begin_delegated w h = (h', r)"
  "wa_write_owner_only ops pid w w' relative contents serial d h = (h', x) \<Longrightarrow> \<exists>r. wa_begin_delegated w h = (h', r)"
  by (auto simp: wa_write_def wa_write_owner_only_def split: prod.splits sum.splits)

lemma write_ok_begin:
  assumes ok: "write_ok s" and h: "has_writer s i (Holding h)" and b: "wa_begin_delegated w h = (h', r)"
  shows "write_ok (set_writer i (Holding h') s)"
  using write_ok_writer [OF ok h, of "Holding h'" "ws_signals s" "ws_authority s"] begin_frame [OF b] by simp

text \<open>However a held permit ends, its signal says so.\<close>

lemma commit_ends:
  "permit_commit receipt p0 sg = (p, sg', r) \<Longrightarrow> \<not> is_terminal p0 \<Longrightarrow>
     \<exists>t. drop_mutation_permit p sg' = on_signal (pm_drain p0) (record_end t) sg"
  by (cases "pm_state p0") (auto simp: permit_commit_def finish_def drop_mutation_permit_def is_terminal_def split: if_splits)

lemma absence_ends:
  "no_side_effect p0 sg = (p, sg', r) \<Longrightarrow> \<not> is_terminal p0 \<Longrightarrow>
     \<exists>t. drop_mutation_permit p sg' = on_signal (pm_drain p0) (record_end t) sg"
  by (cases "pm_state p0") (auto simp: no_side_effect_def finish_def drop_mutation_permit_def is_terminal_def)

lemma ends_signal:
  assumes w: "writer_ok inner sg (Holding h)" and l: "in_outstanding inner < length sg"
    and e: "permit_commit receipt (wa_permit h) sg = (p, sg', r) \<or> no_side_effect (wa_permit h) sg = (p, sg', r) \<or> p = wa_permit h \<and> sg' = sg"
  shows "dr_ended (drop_mutation_permit p sg' ! in_outstanding inner) \<and> length (drop_mutation_permit p sg') = length sg"
proof -
  have n: "\<not> is_terminal (wa_permit h)" using w by simp
  then have "\<exists>t. drop_mutation_permit p sg' = on_signal (pm_drain (wa_permit h)) (record_end t) sg"
    using e commit_ends absence_ends by (metis drop_mutation_permit_def)
  with w l show ?thesis by (auto simp: record_end_def)
qed

lemma write_ok_ends:
  assumes ok: "write_ok s" and h: "has_writer s i (Holding h)"
    and e: "permit_commit receipt (wa_permit h) (ws_signals s) = (p, sg, r) \<or> no_side_effect (wa_permit h) (ws_signals s) = (p, sg, r) \<or>
      p = wa_permit h \<and> sg = ws_signals s"
    and x: "x = Returning (wa_frozen h) \<or> x = Recovering (wa_frozen h)"
  shows "write_ok (set_writer i x (s\<lparr>ws_signals := drop_mutation_permit p sg\<rparr>))"
proof -
  have "in_outstanding (psa_inner (ws_authority s)) < length (ws_signals s)" using ok by (simp add: write_ok_def Let_def)
  from ends_signal [OF holding_ok [OF ok h] this e]
  show ?thesis
    using write_ok_writer [OF ok h, of x "drop_mutation_permit p sg" "ws_authority s"] x by auto
qed

lemma ended_as_cases: "ended_as f r = Returning f \<or> ended_as f r = Recovering f"
  by (simp add: ended_as_def split: sum.split)

lemma write_ok_install:
  assumes ok: "write_ok s" and h: "has_writer s i (Installing f t)"
    and ret: "return_install f t opens (ws_authority s) (ws_signals s) (ws_world s) = (a, w, r)"
  shows "write_ok (s\<lparr>ws_authority := a, ws_world := w, ws_writers := take i (ws_writers s) @ drop (Suc i) (ws_writers s)\<rparr>)"
    and "r = Ok () \<and> is_current a \<and> lease_is_live w (in_lease (psa_inner a))"
proof -
  let ?inner = "psa_inner (ws_authority s)"
  have "phase_ok (ws_world s) ?inner (ws_signals s) (ws_writers s) (rt_phase (in_runtime ?inner))"
    using ok by (simp add: write_ok_def Let_def)
  then obtain g b ob ap wk where ph: "rt_phase (in_runtime ?inner) = Refreshing g b f ob ap wk" "outstanding ap = [f]"
      "ws_writers s = [Installing f t]" "i = 0" "dr_ended (ws_signals s ! in_outstanding ?inner)"
    using h by (cases rule: phase_ok_cases) (auto simp: has_writer_def)
  then have "has_ended (ws_signals s ! in_outstanding ?inner)" by (simp add: has_ended_def)
  from return_installs [OF ph(1) _ this, of f t opens "ws_world s"] ph(2) ret
  have e: "a = (ws_authority s)\<lparr>psa_inner := ?inner\<lparr>
        in_runtime := (in_runtime ?inner)\<lparr>rt_epoch := rt_epoch (in_runtime ?inner) + 1,
          rt_phase := Current \<lparr>cp_publication = w_next (ws_world s) + 2, cp_generation = w_next (ws_world s) + 3,
            cp_binding = \<lparr>b_identity = w_next (ws_world s), b_root = w_next_root (ws_world s)\<rparr>, cp_observer_cut = t\<rparr>\<rparr>,
        in_lease := \<lparr>ls_identity = w_next_root (ws_world s), ls_root = psa_root (ws_authority s), ls_open = False\<rparr>\<rparr>\<rparr>"
      "w = (revoke_lease (in_lease ?inner) (ws_world s))\<lparr>w_next := w_next (ws_world s) + 4, w_next_root := w_next_root (ws_world s) + 1\<rparr>"
      "r = Ok ()"
    by simp_all
  have l: "ls_identity (in_lease ?inner) < w_next_root (ws_world s)" "world_ok (ws_world s)" "in_outstanding ?inner < length (ws_signals s)"
    using ok by (simp_all add: write_ok_def Let_def)
  show "r = Ok () \<and> is_current a \<and> lease_is_live w (in_lease (psa_inner a))"
    using l by (auto simp: e is_current_def live_publication_def lease_is_live_def revoke_lease_def world_ok_def)
  show "write_ok (s\<lparr>ws_authority := a, ws_world := w, ws_writers := take i (ws_writers s) @ drop (Suc i) (ws_writers s)\<rparr>)"
    using l ph(3,4) by (auto simp: e write_ok_def retained_binding_def world_ok_def revoke_lease_def binding_is_live_def Let_def)
qed

lemma write_ok_inner: "write_ok s \<Longrightarrow> psa_inner a = psa_inner (ws_authority s) \<Longrightarrow> write_ok (s\<lparr>ws_authority := a\<rparr>)"
  by (simp add: write_ok_def)

lemma write_ok_replaced:
  assumes ok: "write_ok s"
  shows "write_ok (s\<lparr>ws_world := revoke_for_replacement (ws_authority s) (ws_world s)\<rparr>)"
proof -
  let ?inner = "psa_inner (ws_authority s)"
  have "phase_ok (ws_world s) ?inner (ws_signals s) (ws_writers s) (rt_phase (in_runtime ?inner))"
    using ok by (simp add: write_ok_def Let_def)
  then have "phase_ok (revoke_for_replacement (ws_authority s) (ws_world s)) ?inner (ws_signals s) (ws_writers s) (rt_phase (in_runtime ?inner))"
    by (cases rule: phase_ok_cases) (auto simp: revoke_for_replacement_def revoke_lease_def lease_is_live_def)
  then show ?thesis
    using ok by (auto simp: write_ok_def revoke_for_replacement_def revoke_lease_def world_ok_def binding_is_live_def Let_def)
qed

lemma write_step_ok: "write_step ops sid s t \<Longrightarrow> write_ok s \<Longrightarrow> write_ok t"
proof (induction rule: write_step.induct)
  case (wl_acquire expected opens s a sg w r)
  then show ?case using write_ok_acquire by blast
next
  case (wl_write s i h pid w' relative contents serial d h' x)
  then show ?case using write_begins(1) [OF wl_write(2)] write_ok_begin by metis
next
  case (wl_write_owner_only s i h pid w' relative contents serial d h' x)
  then show ?case using write_begins(2) [OF wl_write_owner_only(2)] write_ok_begin by metis
next
  case (wl_begin s i h h' r)
  then show ?case using write_ok_begin by blast
next
  case (wl_commit s i h receipt p sg r)
  then show ?case using ended_as_cases [of "wa_frozen h" r] by (intro write_ok_ends) auto
next
  case (wl_absence s i h p sg r)
  then show ?case using ended_as_cases [of "wa_frozen h" r] by (intro write_ok_ends) auto
next
  case (wl_drop s i h)
  then show ?case by (intro write_ok_ends) auto
next
  case (wl_latch s i f)
  then show ?case using write_ok_writer [OF wl_latch(2,1), of "Returning f" "ws_signals s"] by simp
next
  case (wl_cut s i f lane t)
  then show ?case using write_ok_writer [OF wl_cut(3,1), of "Installing f t" "ws_signals s"] by simp
next
  case (wl_install s i f t opens a w r)
  then show ?case using write_ok_install(1) by blast
next
  case (wl_observe call s lane w r)
  then have "elsewhere s ((ws_world s)\<lparr>w_next := w_next w\<rparr>)" "w = (ws_world s)\<lparr>w_next := w_next w\<rparr>"
    using lane_do_world elsewhere_next by blast+
  then have "write_ok (s\<lparr>ws_world := w\<rparr>)" using write_ok_world wl_observe(4) by metis
  then show ?case
    using write_ok_inner [of "s\<lparr>ws_world := w\<rparr>" "(ws_authority s)\<lparr>psa_lane := lane\<rparr>"] by (cases s) simp
next
  case (wl_replaced s)
  then show ?case by (rule write_ok_replaced)
next
  case (wl_absent s b)
  then show ?case by (simp add: write_ok_inner)
next
  case (wl_elsewhere s w')
  then show ?case by (simp add: write_ok_world)
qed

lemma write_init_ok: "write_init s \<Longrightarrow> write_ok s"
  by (cases s) (auto simp: write_init_def for_root_def lease_take_def fresh_root_def bind_def fresh_identity_def promote_def lane_new_def parked_def
      rt_current_def write_ok_def retained_binding_def world_ok_def binding_is_live_def Let_def
      intro!: less_SucI)

interpretation writers: invariant_system write_init "write_step ops sid" write_ok
proof
  fix s show "write_init s \<Longrightarrow> write_ok s" by (rule write_init_ok)
qed (rule write_step_ok)

section \<open>Returning\<close>

text \<open>
  A source that came back: Current under a publication no one has seen, on a live lease, the outgoing lease
  dead, and the next writer is granted.
\<close>

definition returned :: "write_system \<Rightarrow> source_authority \<Rightarrow> signals \<Rightarrow> world \<Rightarrow> bool" where
  "returned s a sg w \<longleftrightarrow>
     (\<exists>p. current_publication_of a = Some p \<and> w_next (ws_world s) \<le> p) \<and>
     lease_is_live w (in_lease (psa_inner a)) \<and> \<not> lease_is_live w (in_lease (psa_inner (ws_authority s))) \<and>
     (\<forall>opens. \<exists>a' sg' w' h. acquire_write opens a sg w = (a', sg', w', Ok h))"

lemma is_current_publication: "is_current a \<longleftrightarrow> current_publication_of a \<noteq> None"
  by (simp add: is_current_def current_publication_of_def)

lemma acquire_live:
  assumes ph: "rt_phase (in_runtime (psa_inner a)) = Current p" and l: "lease_is_live w (in_lease (psa_inner a))"
    and b: "b_root (cp_binding p) = ls_identity (in_lease (psa_inner a))" "binding_is_live w (cp_binding p)"
  shows "\<exists>a' sg' w' h. acquire_write opens a sg w = (a', sg', w', Ok h)"
proof -
  obtain a' sg' w' r where acq: "acquire_write_if_publication None opens a sg w = (a', sg', w', r)" by (metis prod.collapse)
  then have "\<exists>h. r = Ok h" by (cases rule: acquire_cases) (use ph l b in auto)
  with acq show ?thesis by (auto simp: acquire_write_def)
qed

lemma install_returned:
  assumes ok: "write_ok s" and w: "ws_writers s = [x]"
    and a: "psa_inner a = psa_inner (ws_authority s)"
    and e: "has_ended (sg ! in_outstanding (psa_inner a))"
    and ret: "return_install (writer_frozen x) t opens a sg (ws_world s) = (a', w', r)"
  shows "r = Ok () \<and> returned s a' sg' w' \<and> psa_lane a' = psa_lane a"
proof -
  let ?inner = "psa_inner (ws_authority s)"
  have "phase_ok (ws_world s) ?inner (ws_signals s) (ws_writers s) (rt_phase (in_runtime ?inner))"
    using ok by (simp add: write_ok_def Let_def)
  then obtain g b ob ap wk where ph: "rt_phase (in_runtime (psa_inner a)) = Refreshing g b (writer_frozen x) ob ap wk"
      "outstanding ap = [writer_frozen x]"
    using w a by (cases rule: phase_ok_cases) auto
  note eq = return_installs [OF ph(1) _ e, of "writer_frozen x" t opens "ws_world s", unfolded ret]
  have l: "ls_identity (in_lease ?inner) < w_next_root (ws_world s)" "world_ok (ws_world s)"
    using ok by (simp_all add: write_ok_def Let_def)
  then have f: "w_next_root (ws_world s) \<notin> set (w_dead (ws_world s))" "w_next (ws_world s) \<notin> set (w_revoked (ws_world s))"
    by (auto simp: world_ok_def)
  show ?thesis
    using eq ph(2) l f unfolding returned_def
    by (auto simp: a current_publication_of_def live_publication_def lease_is_live_def revoke_lease_def binding_is_live_def
        intro!: acquire_live)
qed

lemma return_returned:
  assumes ok: "write_ok s" and w: "ws_writers s = [x]" and a: "psa_inner a = psa_inner (ws_authority s)"
    and e: "has_ended (sg ! in_outstanding (psa_inner a))"
    and ret: "return_to_current (writer_frozen x) opens a sg (ws_world s) = (a', w', r)"
  shows "r = Ok () \<and> returned s a' sg' w' \<and> ol_last_cut (psa_lane a') = Some (snd (acc_cut (ol_accumulator (psa_lane a))))"
proof -
  obtain lane t where t: "take_cut (psa_lane a) = (lane, t)" by force
  then have "return_install (writer_frozen x) t opens (a\<lparr>psa_lane := lane\<rparr>) sg (ws_world s) = (a', w', r)"
    using ret by (simp add: return_to_current_def)
  moreover have "ol_last_cut lane = Some (snd (acc_cut (ol_accumulator (psa_lane a))))"
    using t by (auto simp: take_cut_def split: prod.splits)
  ultimately show ?thesis using install_returned [OF ok w, of "a\<lparr>psa_lane := lane\<rparr>" sg t opens a' w' r sg'] a e by simp
qed

lemma drop_returned:
  assumes ok: "write_ok s" and w: "ws_writers s = [Holding h]" and f: "wa_frozen h' = wa_frozen h"
    and e: "has_ended (drop_mutation_permit (wa_permit h') sg ! in_outstanding (psa_inner (ws_authority s)))"
    and d: "drop_write h' opens (ws_authority s) sg (ws_world s) = (a', sg', w')"
  shows "returned s a' sg' w' \<and> (\<exists>c. oc_kind (the (ol_last_cut (psa_lane a'))) = FullBaseline c)"
proof -
  let ?a = "(ws_authority s)\<lparr>psa_lane := latch_lane_dirty (psa_lane (ws_authority s))\<rparr>"
  let ?sg = "drop_mutation_permit (wa_permit h') sg"
  obtain r where r: "return_to_current (writer_frozen (Holding h)) opens ?a ?sg (ws_world s) = (a', w', r)" and sg': "sg' = ?sg"
    using d f by (auto simp: drop_write_def recover_stranded_def Let_def split: prod.splits)
  have "\<exists>c. acc_latch (ol_accumulator (psa_lane ?a)) = Some c"
    using latch_set by (simp add: latch_lane_dirty_def latch_scope_dirty_def)
  then have "\<exists>c. oc_kind (snd (acc_cut (ol_accumulator (psa_lane ?a)))) = FullBaseline c"
    by (auto simp: acc_cut_def)
  with return_returned [OF ok w _ _ r, of sg'] e show ?thesis by auto
qed

lemma writer_single: "write_ok s \<Longrightarrow> has_writer s i x \<Longrightarrow> i = 0 \<and> ws_writers s = [x]"
  by (auto simp: write_ok_def has_writer_def Let_def elim!: phase_ok_cases)

lemma ended_writer:
  assumes "write_ok s" "ws_writers s = [x]" "\<And>h. x \<noteq> Holding h"
  shows "has_ended (ws_signals s ! in_outstanding (psa_inner (ws_authority s)))"
proof -
  have "writer_ok (psa_inner (ws_authority s)) (ws_signals s) x"
    using assms by (auto simp: write_ok_def Let_def elim!: phase_ok_cases)
  then show ?thesis using assms(3) by (cases x) (auto simp: has_ended_def)
qed

lemma ended_after:
  assumes ok: "write_ok s" and w: "ws_writers s = [Holding h]"
    and e: "permit_commit receipt (wa_permit h) (ws_signals s) = (p, sg, r) \<or> no_side_effect (wa_permit h) (ws_signals s) = (p, sg, r) \<or>
      p = wa_permit h \<and> sg = ws_signals s"
  shows "has_ended (drop_mutation_permit p sg ! in_outstanding (psa_inner (ws_authority s)))"
proof -
  have "has_writer s 0 (Holding h)" "in_outstanding (psa_inner (ws_authority s)) < length (ws_signals s)"
    using ok w by (simp_all add: has_writer_def write_ok_def Let_def)
  from ends_signal [OF holding_ok [OF ok this(1)] this(2) e] show ?thesis by (simp add: has_ended_def)
qed

lemma reconcile_outcome:
  "reconcile_returned f tk opens a sg w = (a', w', r) \<Longrightarrow> \<exists>r'. return_to_current f opens a sg w = (a', w', r') \<and> (r' = Ok () \<longrightarrow> r = Ok tk)"
  by (auto simp: reconcile_returned_def split: prod.splits sum.splits)

text \<open>The tail both finishing calls share, once the permit was asked to end.\<close>

lemma finish_returned:
  assumes ok: "write_ok s" and w: "ws_writers s = [Holding h]"
    and e: "has_ended (drop_mutation_permit p sg1 ! in_outstanding (psa_inner (ws_authority s)))"
    and f: "(case r1 of
        Err e \<Rightarrow> (case drop_write (h\<lparr>wa_permit := p\<rparr>) opens (ws_authority s) sg1 (ws_world s) of (a, sg, w) \<Rightarrow> (a, sg, w, Err e))
      | Ok ticket \<Rightarrow>
          (case reconcile_returned (wa_frozen h) ticket opens (ws_authority s) (drop_mutation_permit p sg1) (ws_world s) of
             (a, w, r) \<Rightarrow> (a, drop_mutation_permit p sg1, w, r))) = (a, sg, w', r)"
  shows "returned s a sg w' \<and> r = r1"
proof (cases r1)
  case (Inl x)
  then have d: "drop_write (h\<lparr>wa_permit := p\<rparr>) opens (ws_authority s) sg1 (ws_world s) = (a, sg, w')" "r = Err x"
    using f by (auto split: prod.splits)
  show ?thesis using drop_returned [OF ok w _ _ d(1)] e d(2) Inl by simp
next
  case (Inr tk)
  then have rr: "reconcile_returned (writer_frozen (Holding h)) tk opens (ws_authority s) (drop_mutation_permit p sg1) (ws_world s) = (a, w', r)"
    using f by (auto split: prod.splits)
  show ?thesis using reconcile_outcome [OF rr] return_returned [OF ok w refl e, of opens a w' _ sg] Inr by auto
qed

lemma finish_committed_returned:
  assumes ok: "write_ok s" and w: "ws_writers s = [Holding h]"
    and f: "finish_committed receipt h opens (ws_authority s) (ws_signals s) (ws_world s) = (a, sg, w', r)"
  shows "returned s a sg w' \<and> r = snd (snd (permit_commit receipt (wa_permit h) (ws_signals s)))"
proof -
  obtain p sg1 r1 where c: "permit_commit receipt (wa_permit h) (ws_signals s) = (p, sg1, r1)" by (metis prod.collapse)
  then show ?thesis
    using finish_returned [OF ok w ended_after [OF ok w disjI1 [OF c]] f [unfolded finish_committed_def c prod.case Let_def]] by simp
qed

lemma finish_no_side_effect_returned:
  assumes ok: "write_ok s" and w: "ws_writers s = [Holding h]"
    and f: "finish_no_side_effect h opens (ws_authority s) (ws_signals s) (ws_world s) = (a, sg, w', r)"
  shows "returned s a sg w' \<and> r = snd (snd (no_side_effect (wa_permit h) (ws_signals s)))"
proof -
  obtain p sg1 r1 where c: "no_side_effect (wa_permit h) (ws_signals s) = (p, sg1, r1)" by (metis prod.collapse)
  then show ?thesis
    using finish_returned [OF ok w ended_after [OF ok w disjI2 [OF disjI1 [OF c]]] f [unfolded finish_no_side_effect_def c prod.case Let_def]] by simp
qed

section \<open>A source nobody returns\<close>

definition stranded :: "write_system \<Rightarrow> bool" where
  "stranded s \<longleftrightarrow> write_ok s \<and> \<not> is_current (ws_authority s) \<and> ws_writers s = []"

lemma not_current_refuses:
  assumes "\<not> is_current a"
  shows "acquire_write_if_publication expected opens a sg w =
    (a, sg, w, Err (PhaseNotCurrent (phase_name_of (rt_phase (in_runtime (psa_inner a))))))"
  using assms by (simp add: is_current_def acquire_write_if_publication_def Let_def)

lemma stranded_step: "write_step ops sid s t \<Longrightarrow> stranded s \<Longrightarrow> stranded t"
proof -
  assume st: "write_step ops sid s t" and s: "stranded s"
  have ok: "write_ok t" using write_step_ok [OF st] s by (simp add: stranded_def)
  from st s have "\<not> is_current (ws_authority t) \<and> ws_writers t = []"
  proof (cases rule: write_step.cases)
    case (wl_acquire expected opens a sg w r)
    then show ?thesis using s not_current_refuses [of "ws_authority s"] by (auto simp: stranded_def acquired_def)
  qed (auto simp: stranded_def has_writer_def is_current_def)
  with ok show ?thesis by (simp add: stranded_def)
qed

interpretation strand: invariant_system stranded "write_step ops sid" stranded
  by unfold_locales (auto intro: stranded_step)

lemma stranded_phase: "stranded s \<Longrightarrow> phase_name_of (rt_phase (in_runtime (psa_inner (ws_authority s)))) = RefreshingPhase"
  by (auto simp: stranded_def write_ok_def is_current_def live_publication_def Let_def elim!: phase_ok_cases)

lemma writing_phase:
  assumes "write_ok s" and "x \<in> set (ws_writers s)"
  obtains g b ob ap wk where "rt_phase (in_runtime (psa_inner (ws_authority s))) = Refreshing g b (writer_frozen x) ob ap wk"
    "ever_recorded ap" "outstanding ap = [writer_frozen x]" "ws_writers s = [x]"
    "writer_ok (psa_inner (ws_authority s)) (ws_signals s) x"
proof -
  have "phase_ok (ws_world s) (psa_inner (ws_authority s)) (ws_signals s) (ws_writers s) (rt_phase (in_runtime (psa_inner (ws_authority s))))"
    using assms(1) by (simp add: write_ok_def Let_def)
  then show thesis
  proof (cases rule: phase_ok_cases)
    case (writing g b p ob ap wk y)
    then show thesis using assms(2) by (intro that [of g b ob ap wk]) auto
  qed (use assms(2) in simp_all)
qed

text \<open>The states the retrying acquire sees: \<open>waited others n s\<close> after \<open>n\<close> sleeps.\<close>

primrec waited :: "(nat \<Rightarrow> shared \<Rightarrow> shared) \<Rightarrow> nat \<Rightarrow> shared \<Rightarrow> shared" where
  "waited others 0 s = s"
| "waited others (Suc n) s = others (Suc n) (waited others n s)"

definition acquire_shared :: "bool \<Rightarrow> shared \<Rightarrow> shared \<times> (authority_refusal, write_authority) result" where
  "acquire_shared opens s = (case s of (a, sg, w) \<Rightarrow> case acquire_write opens a sg w of (a, sg, w, r) \<Rightarrow> ((a, sg, w), r))"

definition phase_refused :: "shared \<times> (authority_refusal, write_authority) result \<Rightarrow> bool" where
  "phase_refused x \<longleftrightarrow> (\<exists>phase. snd x = Err (PhaseNotCurrent phase))"

lemma phase_refused_same: "phase_refused (acquire_shared opens s) \<Longrightarrow> fst (acquire_shared opens s) = s"
proof -
  assume p: "phase_refused (acquire_shared opens s)"
  obtain a sg w where s: "s = (a, sg, w)" by (metis prod.collapse)
  obtain a' sg' w' r where acq: "acquire_write_if_publication None opens a sg w = (a', sg', w', r)" by (metis prod.collapse)
  with p s obtain phase where r: "r = Err (PhaseNotCurrent phase)"
    by (auto simp: phase_refused_def acquire_shared_def acquire_write_def)
  from acq have "a' = a \<and> sg' = sg \<and> w' = w" by (cases rule: acquire_cases) (use r in auto)
  with acq s show ?thesis by (simp add: acquire_shared_def acquire_write_def)
qed

lemma serialized_step:
  "serialized_from others opens n s =
    (if phase_refused (acquire_shared (opens n) s) \<and> n + 1 < 80 then serialized_from others opens (n + 1) (others (n + 1) s)
     else acquire_shared (opens n) s)"
proof -
  obtain a sg w where s: "s = (a, sg, w)" by (metis prod.collapse)
  obtain a' sg' w' r where acq: "acquire_write (opens n) a sg w = (a', sg', w', r)" by (metis prod.collapse)
  have same: "(a', sg', w') = s" if "r = Err (PhaseNotCurrent phase)" for phase
    using phase_refused_same [of "opens n" s] acq s that by (simp add: phase_refused_def acquire_shared_def)
  show ?thesis
    using same acq s
    by (auto simp: serialized_from.simps [of others opens n a sg w] phase_refused_def acquire_shared_def Let_def
        split: sum.splits authority_refusal.splits)
qed

lemma serialized_runs:
  assumes "n < 80"
  shows "\<exists>m. n \<le> m \<and> m < 80 \<and> (\<forall>k. n \<le> k \<and> k < m \<longrightarrow> phase_refused (acquire_shared (opens k) (waited others k s))) \<and>
    serialized_from others opens n (waited others n s) = acquire_shared (opens m) (waited others m s) \<and>
    (m = 79 \<or> \<not> phase_refused (acquire_shared (opens m) (waited others m s)))"
  using assms
proof (induction "79 - n" arbitrary: n)
  case 0
  then show ?case by (intro exI [of _ n]) (auto simp: serialized_step [of others opens n])
next
  case (Suc d)
  show ?case
  proof (cases "phase_refused (acquire_shared (opens n) (waited others n s))")
    case False
    then show ?thesis using Suc.prems by (intro exI [of _ n]) (auto simp: serialized_step [of others opens n])
  next
    case True
    have n: "Suc n < 80" "d = 79 - Suc n" using Suc by auto
    then obtain m where m: "Suc n \<le> m" "m < 80" "\<forall>k. Suc n \<le> k \<and> k < m \<longrightarrow> phase_refused (acquire_shared (opens k) (waited others k s))"
        "serialized_from others opens (Suc n) (waited others (Suc n) s) = acquire_shared (opens m) (waited others m s)"
        "m = 79 \<or> \<not> phase_refused (acquire_shared (opens m) (waited others m s))"
      using Suc(1) [of "Suc n"] by blast
    have "serialized_from others opens n (waited others n s) = serialized_from others opens (Suc n) (waited others (Suc n) s)"
      using True n(1) by (subst serialized_step) simp
    moreover have "\<forall>k. n \<le> k \<and> k < m \<longrightarrow> phase_refused (acquire_shared (opens k) (waited others k s))"
      using m(3) True by (metis Suc_leI le_neq_implies_less)
    ultimately show ?thesis using m by (intro exI [of _ m]) simp
  qed
qed

section \<open>Properties\<close>

text \<open>
  C2: one source has at most one writer, and while it has one it is closed. In every reachable interleaving
  there is at most one writer; as long as it holds a permit or is on its way back, the source is not Current,
  serves no generation, has exactly that writer's permit outstanding, and every acquire is refused without a
  trace; while the permit is held, no transition can install over it.
\<close>

theorem one_writer:
  assumes "reach write_init (write_step ops sid) s"
  defines "a \<equiv> ws_authority s" and "rt \<equiv> in_runtime (psa_inner (ws_authority s))"
  shows "length (ws_writers s) \<le> 1 \<and>
    (\<forall>x. x \<in> set (ws_writers s) \<longrightarrow>
       \<not> is_current a \<and> \<not> is_queryable rt \<and> outstanding (rt_active_permits rt) = [writer_frozen x] \<and>
       (\<forall>expected opens. acquire_write_if_publication expected opens a (ws_signals s) (ws_world s) =
          (a, ws_signals s, ws_world s, Err (PhaseNotCurrent RefreshingPhase))) \<and>
       (\<forall>kind incoming observer_cut.
          transition_apply kind (in_lease (psa_inner a)) incoming observer_cut (ws_signals s ! in_outstanding (psa_inner a)) rt (ws_world s) =
            (rt, ws_world s, Err OutstandingPermit)))"
proof -
  have ok: "write_ok s" using writers.reach_inv [OF assms(1)] .
  have "length (ws_writers s) \<le> 1" using ok by (auto simp: write_ok_def Let_def elim!: phase_ok_cases)
  moreover have "\<not> is_current a \<and> \<not> is_queryable rt \<and> outstanding (rt_active_permits rt) = [writer_frozen x] \<and>
       (\<forall>expected opens. acquire_write_if_publication expected opens a (ws_signals s) (ws_world s) =
          (a, ws_signals s, ws_world s, Err (PhaseNotCurrent RefreshingPhase))) \<and>
       (\<forall>kind incoming observer_cut.
          transition_apply kind (in_lease (psa_inner a)) incoming observer_cut (ws_signals s ! in_outstanding (psa_inner a)) rt (ws_world s) =
            (rt, ws_world s, Err OutstandingPermit))" if x: "x \<in> set (ws_writers s)" for x
  proof -
    obtain g b ob ap wk where ph: "rt_phase rt = Refreshing g b (writer_frozen x) ob ap wk" "ever_recorded ap" "outstanding ap = [writer_frozen x]"
      using writing_phase [OF ok x] unfolding rt_def by metis
    then have n: "\<not> is_current a" by (simp add: is_current_def a_def rt_def [symmetric] live_publication_def)
    show ?thesis
      using ph n not_current_refuses [OF n]
      by (simp add: is_queryable_def queryable_generation_def rt_active_permits_def a_def rt_def [symmetric] transition_apply_def is_drained_def)
  qed
  ultimately show ?thesis by blast
qed

text \<open>
  C3: a writer always gets its source back to Current. In every reachable interleaving, whichever way the
  handle ends (commit with any receipt, proof of absence, drop) and wherever an ending writer was
  interrupted, the remaining calls succeed: the source is Current under a publication nobody has seen before,
  on a live lease with the outgoing one dead, and the next acquire is granted. A refused finish still returns
  the source and reports the permit's own refusal; a drop leaves a full-baseline cut behind.
\<close>

theorem writer_always_returns:
  assumes "reach write_init (write_step ops sid) s" and "x \<in> set (ws_writers s)"
  shows "case x of
      Holding h \<Rightarrow>
        (case finish_committed receipt h opens (ws_authority s) (ws_signals s) (ws_world s) of
           (a, sg, w, r) \<Rightarrow> returned s a sg w \<and> r = snd (snd (permit_commit receipt (wa_permit h) (ws_signals s)))) \<and>
        (case finish_no_side_effect h opens (ws_authority s) (ws_signals s) (ws_world s) of
           (a, sg, w, r) \<Rightarrow> returned s a sg w \<and> r = snd (snd (no_side_effect (wa_permit h) (ws_signals s)))) \<and>
        (case drop_write h opens (ws_authority s) (ws_signals s) (ws_world s) of
           (a, sg, w) \<Rightarrow> returned s a sg w \<and> (\<exists>c. oc_kind (the (ol_last_cut (psa_lane a))) = FullBaseline c))
    | Recovering f \<Rightarrow> (case recover_stranded f opens (ws_authority s) (ws_signals s) (ws_world s) of
           (a, w, r) \<Rightarrow> r = Ok () \<and> returned s a (ws_signals s) w)
    | Returning f \<Rightarrow> (case return_to_current f opens (ws_authority s) (ws_signals s) (ws_world s) of
           (a, w, r) \<Rightarrow> r = Ok () \<and> returned s a (ws_signals s) w)
    | Installing f t \<Rightarrow> (case return_install f t opens (ws_authority s) (ws_signals s) (ws_world s) of
           (a, w, r) \<Rightarrow> r = Ok () \<and> returned s a (ws_signals s) w)"
proof -
  have ok: "write_ok s" using writers.reach_inv [OF assms(1)] .
  have w: "ws_writers s = [x]" using writing_phase [OF ok assms(2)] by metis
  show ?thesis
  proof (cases x)
    case (Holding h)
    note w = w [unfolded Holding]
    have "has_ended (drop_mutation_permit (wa_permit h) (ws_signals s) ! in_outstanding (psa_inner (ws_authority s)))"
      by (rule ended_after [OF ok w]) simp
    then show ?thesis
      using Holding finish_committed_returned [OF ok w] finish_no_side_effect_returned [OF ok w] drop_returned [OF ok w refl]
      by (auto split: prod.splits)
  next
    case (Recovering f)
    then show ?thesis
      using return_returned [OF ok w, of "(ws_authority s)\<lparr>psa_lane := latch_lane_dirty (psa_lane (ws_authority s))\<rparr>" "ws_signals s"]
        ended_writer [OF ok w] by (auto simp: recover_stranded_def split: prod.splits)
  next
    case (Returning f)
    then show ?thesis
      using return_returned [OF ok w refl, of "ws_signals s"] ended_writer [OF ok w] by (auto split: prod.splits)
  next
    case (Installing f t)
    then show ?thesis
      using install_returned [OF ok w refl, of "ws_signals s"] ended_writer [OF ok w] by (auto split: prod.splits)
  qed
qed

text \<open>
  C15: a permit refused after its grant strands the source. When the lease of a Current source was revoked by
  the replacement fence, the next acquire is refused with \<open>PhysicalRootReplaced\<close>, but the grant it had already
  taken stays recorded with no permit to retire it: through every later step of every thread the source is
  never Current again and every acquire is refused.
\<close>

theorem refused_permit_strands_source:
  assumes "reach write_init (write_step ops sid) s" and "is_current (ws_authority s)"
    and "\<not> lease_is_live (ws_world s) (in_lease (psa_inner (ws_authority s)))"
    and "acquire_write opens (ws_authority s) (ws_signals s) (ws_world s) = (a, sg, w, r)"
    and "(write_step ops sid)\<^sup>*\<^sup>* (s\<lparr>ws_authority := a, ws_signals := sg, ws_world := w\<rparr>) t"
  shows "r = Err PhysicalRootReplaced \<and> ws_writers t = [] \<and> \<not> is_current (ws_authority t) \<and>
    (\<forall>expected opens. acquire_write_if_publication expected opens (ws_authority t) (ws_signals t) (ws_world t) =
       (ws_authority t, ws_signals t, ws_world t, Err (PhaseNotCurrent RefreshingPhase)))"
proof -
  have ok: "write_ok s" using writers.reach_inv [OF assms(1)] .
  obtain p where ph: "rt_phase (in_runtime (psa_inner (ws_authority s))) = Current p"
    using assms(2) by (auto simp: is_current_def live_publication_Some)
  then have b: "b_root (cp_binding p) = ls_identity (in_lease (psa_inner (ws_authority s)))" "binding_is_live (ws_world s) (cp_binding p)"
      "ws_writers s = []"
    using ok by (auto simp: write_ok_def retained_binding_def Let_def)
  have acq: "acquire_write_if_publication None opens (ws_authority s) (ws_signals s) (ws_world s) = (a, sg, w, r)"
    using assms(4) by (simp add: acquire_write_def)
  from acq have "r = Err PhysicalRootReplaced \<and> \<not> is_current a"
    by (cases rule: acquire_cases) (use ph b assms(3) in \<open>auto simp: is_current_def live_publication_def granted_rt_def\<close>)
  moreover from this have "s\<lparr>ws_authority := a, ws_signals := sg, ws_world := w\<rparr> =
      s\<lparr>ws_authority := a, ws_signals := sg, ws_world := w, ws_writers := ws_writers s @ acquired r\<rparr>"
    by (simp add: acquired_def)
  ultimately have st: "stranded (s\<lparr>ws_authority := a, ws_signals := sg, ws_world := w\<rparr>)" and r: "r = Err PhysicalRootReplaced"
    using write_ok_acquire [OF ok acq] b(3) by (simp_all add: stranded_def)
  have t: "stranded t" using strand.inv_steps [OF assms(5) st] .
  then show ?thesis using r not_current_refuses stranded_phase [OF t] by (simp add: stranded_def)
qed

text \<open>
  Waiting for a sibling writer ends. Whatever the rest of the process does while the caller sleeps, the
  retrying acquire makes at most 80 attempts; all but the last were refused because the source was not
  Current and changed nothing, and the result is exactly the outcome of the last attempt, which is a success or
  another refusal unless the patience of 80 attempts is used up.
\<close>

lemma acquire_write_serialized_bounded:
  "\<exists>n. n < 80 \<and> acquire_write_serialized others opens s = acquire_shared (opens n) (waited others n s) \<and>
     (\<forall>k. k < n \<longrightarrow> phase_refused (acquire_shared (opens k) (waited others k s)) \<and>
        fst (acquire_shared (opens k) (waited others k s)) = waited others k s) \<and>
     (n = 79 \<or> \<not> phase_refused (acquire_shared (opens n) (waited others n s)))"
proof -
  obtain n where "n < 80" "\<forall>k. 0 \<le> k \<and> k < n \<longrightarrow> phase_refused (acquire_shared (opens k) (waited others k s))"
      "serialized_from others opens 0 (waited others 0 s) = acquire_shared (opens n) (waited others n s)"
      "n = 79 \<or> \<not> phase_refused (acquire_shared (opens n) (waited others n s))"
    using serialized_runs [of 0 opens others s] by auto
  then show ?thesis
    using phase_refused_same by (intro exI [of _ n]) (simp add: acquire_write_serialized_def)
qed

section \<open>Witnesses\<close>

definition wit_source :: shared where
  "wit_source = for_root True None 7 [''r''] [] wit_world"

definition wit_ws :: write_system where
  "wit_ws = \<lparr>ws_authority = fst wit_source, ws_signals = fst (snd wit_source), ws_world = snd (snd wit_source), ws_writers = []\<rparr>"

definition wit_step where
  "wit_step = write_step mem_dir (\<lambda>_. 0)"

definition wit_acq where
  "wit_acq = acquire_write_if_publication None True (ws_authority wit_ws) (ws_signals wit_ws) (ws_world wit_ws)"

definition wit_held :: write_system where
  "wit_held = wit_ws\<lparr>ws_authority := fst wit_acq, ws_signals := fst (snd wit_acq), ws_world := fst (snd (snd wit_acq)),
     ws_writers := ws_writers wit_ws @ acquired (snd (snd (snd wit_acq)))\<rparr>"

definition wit_fenced :: write_system where
  "wit_fenced = wit_ws\<lparr>ws_world := revoke_for_replacement (ws_authority wit_ws) (ws_world wit_ws)\<rparr>"

lemma wit_ws_reach: "reach write_init wit_step wit_ws"
proof (rule reach_init)
  show "write_init wit_ws"
    unfolding write_init_def
    by (intro exI [of _ True] exI [of _ None] exI [of _ 7] exI [of _ "[''r'']"] exI [of _ "[]"] exI [of _ wit_world])
      (simp add: wit_ws_def wit_source_def world_ok_def wit_world_def)
qed

lemma wit_held_reach: "reach write_init wit_step wit_held"
  using wit_ws_reach unfolding wit_step_def
  by (rule reach_step) (unfold wit_held_def, rule wl_acquire [where expected = None and opens = True], simp add: wit_acq_def [symmetric])

lemma wit_fenced_reach: "reach write_init wit_step wit_fenced"
  using wit_ws_reach unfolding wit_step_def
  by (rule reach_step) (unfold wit_fenced_def, rule wl_replaced)

lemmas wit_source_defs = wit_ws_def wit_source_def for_root_def lease_take_def fresh_root_def parked_def bind_def fresh_identity_def
  promote_def lane_new_def rt_current_def wit_world_def

lemma wit_ws_phase:
  "rt_phase (in_runtime (psa_inner (ws_authority wit_ws))) =
     Current \<lparr>cp_publication = 12, cp_generation = 13, cp_binding = \<lparr>b_identity = 10, b_root = 2\<rparr>, cp_observer_cut = 11\<rparr>"
  "in_lease (psa_inner (ws_authority wit_ws)) = \<lparr>ls_identity = 2, ls_root = [''r''], ls_open = False\<rparr>"
  "w_dead (ws_world wit_ws) = []" "w_revoked (ws_world wit_ws) = []"
  by (simp_all add: wit_source_defs Let_def)

lemma wit_current: "is_current (ws_authority wit_ws)"
  by (simp add: is_current_def live_publication_def wit_ws_phase)

lemma wit_held_writers: "\<exists>h. ws_writers wit_held = [Holding h]"
proof -
  have "\<exists>a' sg' w' h. acquire_write True (ws_authority wit_ws) (ws_signals wit_ws) (ws_world wit_ws) = (a', sg', w', Ok h)"
    by (rule acquire_live [OF wit_ws_phase(1)]) (simp_all add: wit_ws_phase lease_is_live_def binding_is_live_def)
  then obtain h where "snd (snd (snd wit_acq)) = Ok h" by (auto simp: wit_acq_def acquire_write_def)
  then show ?thesis by (simp add: wit_held_def acquired_def) (simp add: wit_ws_def)
qed

lemma wit_fenced_dead: "\<not> lease_is_live (ws_world wit_fenced) (in_lease (psa_inner (ws_authority wit_fenced)))"
  by (simp add: wit_fenced_def revoke_for_replacement_def revoke_lease_def lease_is_live_def)

theorem one_writer_witness:
  "\<exists>h. ws_writers wit_held = [Holding h] \<and> \<not> is_current (ws_authority wit_held)"
proof -
  obtain h where h: "ws_writers wit_held = [Holding h]" using wit_held_writers by blast
  then show ?thesis using one_writer [OF wit_held_reach [unfolded wit_step_def]] by (intro exI [of _ h]) simp
qed

theorem writer_always_returns_witness:
  "\<exists>h. ws_writers wit_held = [Holding h] \<and>
     (case drop_write h False (ws_authority wit_held) (ws_signals wit_held) (ws_world wit_held) of (a, sg, w) \<Rightarrow> returned wit_held a sg w)"
proof -
  obtain h where h: "ws_writers wit_held = [Holding h]" using wit_held_writers by blast
  then have "Holding h \<in> set (ws_writers wit_held)" by simp
  from writer_always_returns [OF wit_held_reach [unfolded wit_step_def] this, of undefined False]
  have "case drop_write h False (ws_authority wit_held) (ws_signals wit_held) (ws_world wit_held) of (a, sg, w) \<Rightarrow> returned wit_held a sg w"
    unfolding writer.case by (simp split: prod.splits)
  with h show ?thesis by (intro exI [of _ h] conjI)
qed

theorem refused_permit_strands_source_witness:
  "\<exists>a sg w. acquire_write True (ws_authority wit_fenced) (ws_signals wit_fenced) (ws_world wit_fenced) = (a, sg, w, Err PhysicalRootReplaced) \<and>
     \<not> is_current a"
proof -
  obtain a sg w r where acq: "acquire_write True (ws_authority wit_fenced) (ws_signals wit_fenced) (ws_world wit_fenced) = (a, sg, w, r)"
    by (metis prod.collapse)
  have "is_current (ws_authority wit_fenced)" using wit_current by (simp add: wit_fenced_def)
  from refused_permit_strands_source [OF wit_fenced_reach [unfolded wit_step_def] this wit_fenced_dead acq rtranclp.rtrancl_refl] acq
  show ?thesis by (intro exI [of _ a] exI [of _ sg] exI [of _ w]) simp
qed

theorem acquire_write_serialized_bounded_witness:
  "\<exists>n. n < 80 \<and> acquire_write_serialized (\<lambda>_ s. s) (\<lambda>_. True) wit_source = acquire_shared True (waited (\<lambda>_ s. s) n wit_source)"
proof -
  obtain n where "n < 80" "acquire_write_serialized (\<lambda>_ s. s) (\<lambda>_. True) wit_source = acquire_shared True (waited (\<lambda>_ s. s) n wit_source)"
    using acquire_write_serialized_bounded [of "\<lambda>_ s. s" "\<lambda>_. True" wit_source] by (elim exE conjE)
  then show ?thesis by (intro exI [of _ n] conjI)
qed

end
