(* ===== verification/Activation.thy ===== *)
theory Activation
  imports Capacity
begin

text \<open>
  The activation mode machine (\<open>ActivationCut\<close> of \<open>src/index_lifecycle/activation.rs\<close>), the shared process
  runtime (\<open>src/index_lifecycle/process_runtime.rs\<close>) and the start-up ceremony that joins the two.

  The sets of lanes are \<open>BTreeSet\<close>s: what is iterated comes in declaration order, which is the order of
  \<open>ALL_LANES\<close>. A machine's identity is unique in the process. A panic of an \<open>expect\<close> is \<open>None\<close>.
\<close>

section \<open>The mode machine\<close>

datatype activation_mode = LegacyOpen | LegacyClosing | PreventiveV1Open

datatype registered_lane =
  ToolQuery | ResourceQuery | PromptQuery | Cache | Ccr | Retrieval | Sidecar | Hook | Finalization

definition ALL_LANES :: "registered_lane list" where
  "ALL_LANES = [ToolQuery, ResourceQuery, PromptQuery, Cache, Ccr, Retrieval, Sidecar, Hook, Finalization]"

datatype activation_refusal =
    LaneAlreadyRegistered registered_lane
  | LanesUnregistered "registered_lane list"
  | LanesUndrained "registered_lane list"
  | WrongMode activation_mode activation_mode
  | ForeignRegistration

record lane_registration =
  lr_machine :: nat
  lr_lane :: registered_lane

record activation_cut =
  ac_identity :: nat
  ac_mode :: u8
  ac_registered :: "registered_lane set"
  ac_drained :: "registered_lane set"

definition mode_of :: "u8 \<Rightarrow> activation_mode" where
  "mode_of raw = (if raw = 0 then LegacyOpen else if raw = 1 then LegacyClosing else PreventiveV1Open)"

definition cut_new :: "nat \<Rightarrow> activation_cut" where
  "cut_new i = \<lparr>ac_identity = i, ac_mode = 0, ac_registered = {}, ac_drained = {}\<rparr>"

definition cut_mode :: "activation_cut \<Rightarrow> activation_mode" where
  "cut_mode m = mode_of (ac_mode m)"

definition register_lane ::
  "registered_lane \<Rightarrow> activation_cut \<Rightarrow> activation_cut \<times> (activation_refusal, lane_registration) result" where
  "register_lane lane m =
     (if cut_mode m \<noteq> LegacyOpen then (m, Err (WrongMode LegacyOpen (cut_mode m)))
      else if lane \<in> ac_registered m then (m, Err (LaneAlreadyRegistered lane))
      else (m\<lparr>ac_registered := insert lane (ac_registered m)\<rparr>, Ok \<lparr>lr_machine = ac_identity m, lr_lane = lane\<rparr>))"

definition begin_closing :: "activation_cut \<Rightarrow> activation_cut \<times> (activation_refusal, unit) result" where
  "begin_closing m =
     (if cut_mode m \<noteq> LegacyOpen then (m, Err (WrongMode LegacyOpen (cut_mode m)))
      else let missing = filter (\<lambda>lane. lane \<notin> ac_registered m) ALL_LANES
           in if missing \<noteq> [] then (m, Err (LanesUnregistered missing)) else (m\<lparr>ac_mode := 1\<rparr>, Ok ()))"

definition confirm_drained :: "lane_registration \<Rightarrow> activation_cut \<Rightarrow> activation_cut \<times> (activation_refusal, unit) result" where
  "confirm_drained registration m =
     (if lr_machine registration \<noteq> ac_identity m then (m, Err ForeignRegistration)
      else if cut_mode m \<noteq> LegacyClosing then (m, Err (WrongMode LegacyClosing (cut_mode m)))
      else (m\<lparr>ac_drained := insert (lr_lane registration) (ac_drained m)\<rparr>, Ok ()))"

definition open_preventive :: "activation_cut \<Rightarrow> activation_cut \<times> (activation_refusal, unit) result" where
  "open_preventive m =
     (if cut_mode m \<noteq> LegacyClosing then (m, Err (WrongMode LegacyClosing (cut_mode m)))
      else let undrained = filter (\<lambda>lane. lane \<in> ac_registered m \<and> lane \<notin> ac_drained m) ALL_LANES
           in if undrained \<noteq> [] then (m, Err (LanesUndrained undrained)) else (m\<lparr>ac_mode := 2\<rparr>, Ok ()))"

section \<open>The process runtime\<close>

datatype surface_kind = Daemon | Stdio | Serve | Embed

definition ALL_SURFACES :: "surface_kind list" where
  "ALL_SURFACES = [Daemon, Stdio, Serve, Embed]"

datatype runtime_refusal =
    CapacityBlocked capacity_refusal
  | SurfaceAlreadyRegistered surface_kind
  | SurfaceNotRegistered surface_kind

record process_runtime =
  pt_ledger :: capacity_pool
  pt_root :: identity
  pt_surfaces :: "(surface_kind, identity) hmap"

definition incarnate :: "identity \<Rightarrow> nat \<Rightarrow> world \<Rightarrow> process_runtime \<times> world" where
  "incarnate addr process_bytes w =
     (let (root, w) = fresh_identity w
      in (\<lparr>pt_ledger = pool_root root process_bytes (pool_new addr), pt_root = root, pt_surfaces = []\<rparr>, w))"

definition attach ::
  "surface_kind \<Rightarrow> nat \<Rightarrow> process_runtime \<Rightarrow> world \<Rightarrow> process_runtime \<times> world \<times> (runtime_refusal, identity) result" where
  "attach surface bytes rt w =
     (if hget (pt_surfaces rt) surface \<noteq> None then (rt, w, Err (SurfaceAlreadyRegistered surface))
      else let (fresh, w) = fresh_identity w
           in case pool_child fresh (pt_root rt) bytes (pt_ledger rt) of
                (ledger, Err e) \<Rightarrow> (rt\<lparr>pt_ledger := ledger\<rparr>, w, Err (CapacityBlocked e))
              | (ledger, Ok owner) \<Rightarrow>
                  (rt\<lparr>pt_ledger := ledger, pt_surfaces := hinsert surface owner (pt_surfaces rt)\<rparr>, w, Ok owner))"

definition detach :: "surface_kind \<Rightarrow> process_runtime \<Rightarrow> process_runtime \<times> (runtime_refusal, nat) result" where
  "detach surface rt =
     (case hget (pt_surfaces rt) surface of
        None \<Rightarrow> (rt, Err (SurfaceNotRegistered surface))
      | Some owner \<Rightarrow>
          (case release_owner owner (pt_ledger rt) of
             (ledger, Err e) \<Rightarrow> (rt\<lparr>pt_ledger := ledger\<rparr>, Err (CapacityBlocked e))
           | (ledger, Ok returned) \<Rightarrow>
               (rt\<lparr>pt_ledger := ledger, pt_surfaces := hremove surface (pt_surfaces rt)\<rparr>, Ok returned)))"

definition owner_for :: "surface_kind \<Rightarrow> process_runtime \<Rightarrow> identity option" where
  "owner_for surface rt = hget (pt_surfaces rt) surface"

definition attached :: "process_runtime \<Rightarrow> surface_kind list" where
  "attached rt = filter (\<lambda>surface. hget (pt_surfaces rt) surface \<noteq> None) ALL_SURFACES"

definition runtime_available :: "process_runtime \<Rightarrow> nat" where
  "runtime_available rt = available (pt_ledger rt) (pt_root rt)"

section \<open>The ceremony\<close>

definition SURFACE_CAPACITY_BYTES :: nat where
  "SURFACE_CAPACITY_BYTES = 2 ^ 30"

definition PROCESS_CAPACITY_BYTES :: nat where
  "PROCESS_CAPACITY_BYTES = length ALL_SURFACES * SURFACE_CAPACITY_BYTES"

fun register_all :: "registered_lane list \<Rightarrow> activation_cut \<Rightarrow> (activation_cut \<times> lane_registration list) option" where
  "register_all [] m = Some (m, [])"
| "register_all (lane # lanes) m =
     (case register_lane lane m of
        (_, Err _) \<Rightarrow> None
      | (m, Ok r) \<Rightarrow> map_option (\<lambda>(m, rs). (m, r # rs)) (register_all lanes m))"

fun confirm_all :: "lane_registration list \<Rightarrow> activation_cut \<Rightarrow> activation_cut option" where
  "confirm_all [] m = Some m"
| "confirm_all (r # rs) m = (case confirm_drained r m of (_, Err _) \<Rightarrow> None | (m, Ok _) \<Rightarrow> confirm_all rs m)"

definition ceremony :: "activation_cut \<Rightarrow> activation_cut option" where
  "ceremony m =
     (if cut_mode m \<noteq> LegacyOpen then Some m
      else case register_all ALL_LANES m of
             None \<Rightarrow> None
           | Some (m, registrations) \<Rightarrow>
               (case begin_closing m of
                  (_, Err _) \<Rightarrow> None
                | (m, Ok _) \<Rightarrow>
                    (case confirm_all registrations m of
                       None \<Rightarrow> None
                     | Some m \<Rightarrow> (case open_preventive m of (_, Err _) \<Rightarrow> None | (m, Ok _) \<Rightarrow> Some m))))"

definition activate_surface ::
  "surface_kind \<Rightarrow> activation_cut \<Rightarrow> process_runtime \<Rightarrow> world \<Rightarrow> (activation_cut \<times> process_runtime \<times> world) option" where
  "activate_surface surface m rt w =
     (case ceremony m of
        None \<Rightarrow> None
      | Some m \<Rightarrow>
          (if owner_for surface rt \<noteq> None then Some (m, rt, w)
           else case attach surface SURFACE_CAPACITY_BYTES rt w of
                  (_, _, Err _) \<Rightarrow> None
                | (rt, w, Ok _) \<Rightarrow> Some (m, rt, w)))"

section \<open>Tokens and modes\<close>

text \<open>
  The machine together with the registration tokens its owners hold. A token is consumed by its
  confirmation, refused or not; tokens of other machines may be presented too.
\<close>

record cut_system =
  cs_cut :: activation_cut
  cs_tokens :: "lane_registration list"

inductive cut_step :: "cut_system \<Rightarrow> cut_system \<Rightarrow> bool" where
  ct_register: "register_lane lane (cs_cut s) = (m, r) \<Longrightarrow>
    cut_step s (s\<lparr>cs_cut := m, cs_tokens := cs_tokens s @ (case r of Inr t \<Rightarrow> [t] | Inl _ \<Rightarrow> [])\<rparr>)"
| ct_close: "begin_closing (cs_cut s) = (m, r) \<Longrightarrow> cut_step s (s\<lparr>cs_cut := m\<rparr>)"
| ct_confirm: "t \<in> set (cs_tokens s) \<Longrightarrow> confirm_drained t (cs_cut s) = (m, r) \<Longrightarrow>
    cut_step s (s\<lparr>cs_cut := m, cs_tokens := remove1 t (cs_tokens s)\<rparr>)"
| ct_foreign: "lr_machine t \<noteq> ac_identity (cs_cut s) \<Longrightarrow> confirm_drained t (cs_cut s) = (m, r) \<Longrightarrow> cut_step s (s\<lparr>cs_cut := m\<rparr>)"
| ct_open: "open_preventive (cs_cut s) = (m, r) \<Longrightarrow> cut_step s (s\<lparr>cs_cut := m\<rparr>)"

definition cut_init :: "cut_system \<Rightarrow> bool" where
  "cut_init s \<longleftrightarrow> (\<exists>i. cs_cut s = cut_new i) \<and> cs_tokens s = []"

definition cut_ok :: "cut_system \<Rightarrow> bool" where
  "cut_ok s \<longleftrightarrow> (let m = cs_cut s; lanes = map lr_lane (cs_tokens s) in
     distinct lanes \<and> set lanes \<subseteq> ac_registered m \<and> (\<forall>t \<in> set (cs_tokens s). lr_machine t = ac_identity m) \<and>
     ac_drained m \<subseteq> ac_registered m \<and> set lanes \<inter> ac_drained m = {} \<and>
     (cut_mode m = LegacyOpen \<longrightarrow> ac_drained m = {}) \<and>
     (cut_mode m \<noteq> LegacyOpen \<longrightarrow> ac_registered m = UNIV) \<and>
     (cut_mode m = PreventiveV1Open \<longrightarrow> ac_drained m = UNIV))"

lemma ALL_LANES_UNIV: "set ALL_LANES = UNIV"
proof -
  have "lane \<in> set ALL_LANES" for lane by (cases lane) (simp_all add: ALL_LANES_def)
  then show ?thesis by blast
qed

lemma distinct_ALL_LANES: "distinct ALL_LANES"
  by (simp add: ALL_LANES_def)

lemma begin_closing_Ok: "begin_closing m = (m', Ok u) \<longleftrightarrow> cut_mode m = LegacyOpen \<and> ac_registered m = UNIV \<and> m' = m\<lparr>ac_mode := 1\<rparr>"
  using ALL_LANES_UNIV by (auto simp: begin_closing_def filter_empty_conv Let_def)

lemma open_preventive_Ok:
  "open_preventive m = (m', Ok u) \<longleftrightarrow> cut_mode m = LegacyClosing \<and> ac_registered m \<subseteq> ac_drained m \<and> m' = m\<lparr>ac_mode := 2\<rparr>"
  using ALL_LANES_UNIV by (auto simp: open_preventive_def filter_empty_conv Let_def)

lemma cut_Err_unchanged:
  "register_lane lane m = (m', Err e1) \<Longrightarrow> m' = m"
  "begin_closing m = (m', Err e2) \<Longrightarrow> m' = m"
  "confirm_drained t m = (m', Err e3) \<Longrightarrow> m' = m"
  "open_preventive m = (m', Err e4) \<Longrightarrow> m' = m"
  by (auto simp: register_lane_def begin_closing_def confirm_drained_def open_preventive_def Let_def split: if_splits)

lemma mode_values [simp]: "mode_of 0 = LegacyOpen" "mode_of 1 = LegacyClosing" "mode_of 2 = PreventiveV1Open"
  by (simp_all add: mode_of_def)

lemma cut_step_ok: "cut_step s t \<Longrightarrow> cut_ok s \<Longrightarrow> cut_ok t"
proof (induction rule: cut_step.induct)
  case (ct_register lane s m r)
  show ?case
  proof (cases r)
    case (Inl e)
    then have "m = cs_cut s" using ct_register(1) cut_Err_unchanged(1) by metis
    then show ?thesis using ct_register(2) Inl by (simp add: cut_ok_def)
  next
    case (Inr tk)
    then show ?thesis using ct_register by (auto simp: cut_ok_def register_lane_def cut_mode_def Let_def split: if_splits)
  qed
next
  case (ct_close s m r)
  show ?case
  proof (cases r)
    case (Inl e)
    then have "m = cs_cut s" using ct_close(1) cut_Err_unchanged(2) by metis
    then show ?thesis using ct_close(2) Inl by (simp add: cut_ok_def)
  next
    case (Inr u)
    then show ?thesis using ct_close by (auto simp: cut_ok_def begin_closing_Ok cut_mode_def Let_def)
  qed
next
  case (ct_confirm t s m r)
  then have d: "distinct (map lr_lane (cs_tokens s))" by (simp add: cut_ok_def Let_def)
  have l: "set (map lr_lane (remove1 t (cs_tokens s))) = set (map lr_lane (cs_tokens s)) - {lr_lane t}"
      "distinct (map lr_lane (remove1 t (cs_tokens s)))"
    using map_remove1_key [of id lr_lane "cs_tokens s" t] d ct_confirm(1) by (auto simp: distinct_removeAll simp del: set_map)
  show ?case
  proof (cases r)
    case (Inl e)
    then have "m = cs_cut s" using ct_confirm cut_Err_unchanged(3) by metis
    then show ?thesis using ct_confirm(3) l set_remove1_subset [of t "cs_tokens s"] by (auto simp: cut_ok_def Let_def)
  next
    case (Inr u)
    then have "m = (cs_cut s)\<lparr>ac_drained := insert (lr_lane t) (ac_drained (cs_cut s))\<rparr>" "cut_mode (cs_cut s) = LegacyClosing"
      using ct_confirm by (auto simp: confirm_drained_def split: if_splits)
    then show ?thesis using ct_confirm(1,3) l set_remove1_subset [of t "cs_tokens s"] by (auto simp: cut_ok_def cut_mode_def Let_def)
  qed
next
  case (ct_foreign t s m r)
  then show ?case by (auto simp: confirm_drained_def)
next
  case (ct_open s m r)
  show ?case
  proof (cases r)
    case (Inl e)
    then have "m = cs_cut s" using ct_open(1) cut_Err_unchanged(4) by metis
    then show ?thesis using ct_open(2) Inl by (simp add: cut_ok_def)
  next
    case (Inr u)
    then show ?thesis using ct_open by (auto simp: cut_ok_def open_preventive_Ok cut_mode_def Let_def)
  qed
qed

interpretation cut: invariant_system cut_init cut_step cut_ok
proof
  fix s show "cut_init s \<Longrightarrow> cut_ok s" by (auto simp: cut_init_def cut_ok_def cut_new_def cut_mode_def)
qed (rule cut_step_ok)

section \<open>A lost token\<close>

text \<open>A lane whose token is gone without a confirmed drain: nothing can drain it any more.\<close>

definition lost :: "registered_lane \<Rightarrow> cut_system \<Rightarrow> bool" where
  "lost lane s \<longleftrightarrow> cut_ok s \<and> lane \<in> ac_registered (cs_cut s) \<and> lane \<notin> ac_drained (cs_cut s) \<and> lane \<notin> lr_lane ` set (cs_tokens s)"

lemma lost_step: "cut_step s t \<Longrightarrow> lost lane s \<Longrightarrow> lost lane t"
proof -
  assume st: "cut_step s t" and l: "lost lane s"
  have ok: "cut_ok t" using cut_step_ok [OF st] l by (simp add: lost_def)
  from st l have "lane \<in> ac_registered (cs_cut t) \<and> lane \<notin> ac_drained (cs_cut t) \<and> lane \<notin> lr_lane ` set (cs_tokens t)"
  proof (cases rule: cut_step.cases)
    case (ct_confirm tk m r)
    then show ?thesis using l set_remove1_subset [of tk "cs_tokens s"] by (auto simp: lost_def confirm_drained_def split: if_splits)
  qed (auto simp: lost_def register_lane_def begin_closing_def confirm_drained_def open_preventive_def Let_def split: if_splits sum.splits)
  with ok show ?thesis by (simp add: lost_def)
qed

interpretation lost: invariant_system "lost lane" cut_step "lost lane"
  by unfold_locales (auto intro: lost_step)

lemma lost_not_open: "lost lane s \<Longrightarrow> cut_mode (cs_cut s) \<noteq> PreventiveV1Open"
  by (auto simp: lost_def cut_ok_def Let_def)

text \<open>The modes in their order.\<close>

fun mode_rank :: "activation_mode \<Rightarrow> nat" where
  "mode_rank LegacyOpen = 0"
| "mode_rank LegacyClosing = 1"
| "mode_rank PreventiveV1Open = 2"

lemma cut_step_mode: "cut_step s t \<Longrightarrow> mode_rank (cut_mode (cs_cut s)) \<le> mode_rank (cut_mode (cs_cut t))"
  by (erule cut_step.cases)
    (auto simp: register_lane_def begin_closing_def confirm_drained_def open_preventive_def cut_mode_def Let_def split: if_splits)

section \<open>Start-up\<close>

text \<open>Surfaces starting one after the other, \<open>n\<close> identities drawn elsewhere before each.\<close>

primrec activate_all ::
  "(surface_kind \<times> nat) list \<Rightarrow> activation_cut \<Rightarrow> process_runtime \<Rightarrow> world \<Rightarrow> (activation_cut \<times> process_runtime \<times> world) option" where
  "activate_all [] m rt w = Some (m, rt, w)"
| "activate_all (c # cs) m rt w =
     (case activate_surface (fst c) m rt (w\<lparr>w_next := w_next w + snd c\<rparr>) of
        None \<Rightarrow> None
      | Some (m, rt, w) \<Rightarrow> activate_all cs m rt w)"

definition runtime_ok :: "process_runtime \<Rightarrow> world \<Rightarrow> bool" where
  "runtime_ok rt w \<longleftrightarrow> pt_root rt < w_next w \<and> hok (pt_surfaces rt) \<and>
     (\<exists>row. hget (pool_rows (pt_ledger rt)) (pt_root rt) = Some row \<and> row_limit row = PROCESS_CAPACITY_BYTES \<and>
        row_charged row = length (pt_surfaces rt) * SURFACE_CAPACITY_BYTES)"

lemma surfaces_UNIV: "(UNIV :: surface_kind set) = set ALL_SURFACES"
proof -
  have "x \<in> set ALL_SURFACES" for x by (cases x) (simp_all add: ALL_SURFACES_def)
  then show ?thesis by blast
qed

lemma surfaces_fit:
  fixes m :: "(surface_kind, 'a) hmap"
  assumes "hok m" "hget m surface = None"
  shows "length m < length ALL_SURFACES"
proof -
  have "length m = card (set (hkeys m))" using assms(1) distinct_card [of "hkeys m"] by (simp add: hok_def)
  also have "\<dots> < card (UNIV :: surface_kind set)"
  proof (rule psubset_card_mono)
    show "finite (UNIV :: surface_kind set)" by (simp add: surfaces_UNIV)
    show "set (hkeys m) \<subset> UNIV" using assms(2) by (auto simp: hget_None_iff)
  qed
  also have "\<dots> \<le> length ALL_SURFACES" unfolding surfaces_UNIV by (rule card_length)
  finally show ?thesis .
qed

lemma ceremony_new: "\<exists>m. ceremony (cut_new i) = Some m \<and> cut_mode m = PreventiveV1Open"
  by (simp add: ceremony_def cut_new_def ALL_LANES_def register_lane_def begin_closing_def confirm_drained_def open_preventive_def
      cut_mode_def Let_def)

lemma attach_fits:
  assumes ok: "runtime_ok rt w" and n: "owner_for surface rt = None"
  shows "\<exists>rt' w' o'. attach surface SURFACE_CAPACITY_BYTES rt w = (rt', w', Ok o') \<and> runtime_ok rt' w' \<and> pt_root rt' = pt_root rt \<and>
    hget (pt_surfaces rt') = (hget (pt_surfaces rt))(surface \<mapsto> o') \<and> length (pt_surfaces rt') = Suc (length (pt_surfaces rt))"
proof -
  obtain row where row: "hget (pool_rows (pt_ledger rt)) (pt_root rt) = Some row" "row_limit row = PROCESS_CAPACITY_BYTES"
      "row_charged row = length (pt_surfaces rt) * SURFACE_CAPACITY_BYTES" and h: "hok (pt_surfaces rt)" "pt_root rt < w_next w"
    using ok by (auto simp: runtime_ok_def)
  have none: "hget (pt_surfaces rt) surface = None" using n by (simp add: owner_for_def)
  have "length (pt_surfaces rt) < length ALL_SURFACES" using surfaces_fit [OF h(1) none] .
  then have "Suc (length (pt_surfaces rt)) * SURFACE_CAPACITY_BYTES \<le> PROCESS_CAPACITY_BYTES"
    unfolding PROCESS_CAPACITY_BYTES_def by (intro mult_right_mono) auto
  then have fit: "\<not> SURFACE_CAPACITY_BYTES > row_limit row - row_charged row" using row by simp
  have ins: "hinsert surface (w_next w) (pt_surfaces rt) = pt_surfaces rt @ [(surface, w_next w)]"
    by (rule hinsert_fresh) (use none in \<open>simp add: hget_None_iff\<close>)
  show ?thesis
    using row h none fit
    by (simp add: attach_def fresh_identity_def pool_child_def ins [symmetric] runtime_ok_def hget_hinsert Let_def)
      (simp add: ins update_conv' [symmetric])
qed

lemma activate_runs:
  assumes "runtime_ok rt w" and "cut_mode m = PreventiveV1Open \<or> (\<exists>i. m = cut_new i)"
  shows "\<exists>m' rt' w'. activate_surface surface m rt w = Some (m', rt', w') \<and> runtime_ok rt' w' \<and> cut_mode m' = PreventiveV1Open \<and>
    dom (hget (pt_surfaces rt')) = insert surface (dom (hget (pt_surfaces rt)))"
proof -
  obtain m' where m': "ceremony m = Some m'" "cut_mode m' = PreventiveV1Open"
    using assms(2) ceremony_new by (cases "cut_mode m = PreventiveV1Open") (auto simp: ceremony_def)
  show ?thesis
  proof (cases "owner_for surface rt")
    case None
    with attach_fits [OF assms(1) None] m' show ?thesis by (auto simp: activate_surface_def)
  next
    case (Some o')
    then show ?thesis using m' assms(1) by (auto simp: activate_surface_def owner_for_def)
  qed
qed

lemma runtime_ok_later: "runtime_ok rt w \<Longrightarrow> runtime_ok rt (w\<lparr>w_next := w_next w + n\<rparr>)"
  by (simp add: runtime_ok_def)

lemma activate_all_runs:
  assumes "runtime_ok rt w" and "cut_mode m = PreventiveV1Open \<or> (\<exists>i. m = cut_new i)"
  shows "\<exists>m' rt' w'. activate_all cs m rt w = Some (m', rt', w') \<and> runtime_ok rt' w' \<and> (cs \<noteq> [] \<longrightarrow> cut_mode m' = PreventiveV1Open) \<and>
    dom (hget (pt_surfaces rt')) = fst ` set cs \<union> dom (hget (pt_surfaces rt))"
  using assms
proof (induction cs arbitrary: m rt w)
  case Nil
  then show ?case by simp
next
  case (Cons c cs)
  obtain m1 rt1 w1 where 1: "activate_surface (fst c) m rt (w\<lparr>w_next := w_next w + snd c\<rparr>) = Some (m1, rt1, w1)" "runtime_ok rt1 w1"
      "cut_mode m1 = PreventiveV1Open" "dom (hget (pt_surfaces rt1)) = insert (fst c) (dom (hget (pt_surfaces rt)))"
    using activate_runs [OF runtime_ok_later [OF Cons.prems(1)] Cons.prems(2)] by metis
  obtain m2 rt2 w2 where 2: "activate_all cs m1 rt1 w1 = Some (m2, rt2, w2)" "runtime_ok rt2 w2" "cs \<noteq> [] \<longrightarrow> cut_mode m2 = PreventiveV1Open"
      "dom (hget (pt_surfaces rt2)) = fst ` set cs \<union> dom (hget (pt_surfaces rt1))"
    using Cons.IH [OF 1(2)] 1(3) by blast
  have "cut_mode m2 = PreventiveV1Open" using 1(3) 2(1,3) by (cases cs) auto
  with 1 2 show ?case by simp
qed

section \<open>Properties\<close>

text \<open>
  C40: the machine opens only when every lane drained, and never goes back. In every reachable state the mode
  PreventiveV1Open implies that all nine lanes registered and confirmed their drain; from any state on the
  mode only advances; and a confirmation outside the drain window, which consumes its token and is refused,
  keeps the machine from ever opening.
\<close>

theorem preventive_mode_earned:
  assumes "reach cut_init cut_step s"
  shows "(cut_mode (cs_cut s) = PreventiveV1Open \<longrightarrow> ac_registered (cs_cut s) = UNIV \<and> ac_drained (cs_cut s) = UNIV) \<and>
    (\<forall>t. cut_step\<^sup>*\<^sup>* s t \<longrightarrow> mode_rank (cut_mode (cs_cut s)) \<le> mode_rank (cut_mode (cs_cut t))) \<and>
    (\<forall>r m e t. r \<in> set (cs_tokens s) \<and> confirm_drained r (cs_cut s) = (m, Err e) \<and>
       cut_step\<^sup>*\<^sup>* (s\<lparr>cs_cut := m, cs_tokens := remove1 r (cs_tokens s)\<rparr>) t \<longrightarrow> cut_mode (cs_cut t) \<noteq> PreventiveV1Open)"
proof -
  have ok: "cut_ok s" using cut.reach_inv [OF assms] .
  have mono: "mode_rank (cut_mode (cs_cut s)) \<le> mode_rank (cut_mode (cs_cut t))" if "cut_step\<^sup>*\<^sup>* s t" for t
    using steps_mono [OF that, where rel = "\<lambda>s t. mode_rank (cut_mode (cs_cut s)) \<le> mode_rank (cut_mode (cs_cut t))"] cut_step_mode le_trans by blast
  have never: "cut_mode (cs_cut t) \<noteq> PreventiveV1Open"
    if r: "r \<in> set (cs_tokens s)" and c: "confirm_drained r (cs_cut s) = (m, Err e)"
      and t: "cut_step\<^sup>*\<^sup>* (s\<lparr>cs_cut := m, cs_tokens := remove1 r (cs_tokens s)\<rparr>) t" for r m e t
  proof -
    let ?s = "s\<lparr>cs_cut := m, cs_tokens := remove1 r (cs_tokens s)\<rparr>"
    have m: "m = cs_cut s" using c cut_Err_unchanged(3) by metis
    have d: "distinct (map lr_lane (cs_tokens s))" "lr_lane ` set (cs_tokens s) \<subseteq> ac_registered (cs_cut s)"
        "lr_lane ` set (cs_tokens s) \<inter> ac_drained (cs_cut s) = {}"
      using ok by (simp_all add: cut_ok_def Let_def)
    have "lr_lane r \<notin> lr_lane ` set (remove1 r (cs_tokens s))"
      using map_remove1_key [of id lr_lane "cs_tokens s" r] d r unfolding set_map [symmetric] by simp
    moreover have "cut_ok ?s" using cut_step_ok [OF ct_confirm [OF r c] ok] .
    moreover have "lr_lane r \<in> ac_registered (cs_cut s)" "lr_lane r \<notin> ac_drained (cs_cut s)" using d(2,3) r by blast+
    ultimately have "lost (lr_lane r) ?s" using m by (simp add: lost_def)
    then show ?thesis using lost_not_open [OF lost.inv_steps [OF t]] by blast
  qed
  have "cut_mode (cs_cut s) = PreventiveV1Open \<longrightarrow> ac_registered (cs_cut s) = UNIV \<and> ac_drained (cs_cut s) = UNIV"
    using ok by (simp add: cut_ok_def Let_def)
  then show ?thesis using mono by (intro conjI) (blast, blast, use never in blast)
qed

text \<open>
  Start-up never panics. Whatever surfaces start in whatever order and however often, every \<open>expect\<close> of
  the ceremony and of the attachment holds: the machine is open after the first start, exactly the started
  surfaces have a capacity owner, and the process root can still promise one surface's share for every
  surface that has not started.
\<close>

lemma activate_surface_total:
  "case incarnate addr PROCESS_CAPACITY_BYTES w of (rt0, w0) \<Rightarrow>
     (\<exists>m rt w'. activate_all starts (cut_new i) rt0 w0 = Some (m, rt, w') \<and>
        (if starts = [] then cut_mode m = LegacyOpen else cut_mode m = PreventiveV1Open) \<and>
        {surface. owner_for surface rt \<noteq> None} = fst ` set starts \<and>
        runtime_available rt = (length ALL_SURFACES - card (fst ` set starts)) * SURFACE_CAPACITY_BYTES)"
proof -
  obtain rt0 w0 where i: "incarnate addr PROCESS_CAPACITY_BYTES w = (rt0, w0)" by force
  then have ok: "runtime_ok rt0 w0" and e: "pt_surfaces rt0 = []"
    by (auto simp: incarnate_def fresh_identity_def runtime_ok_def pool_root_def pool_new_def new_row_def)
  obtain m rt w' where r: "activate_all starts (cut_new i) rt0 w0 = Some (m, rt, w')" "runtime_ok rt w'"
      "starts \<noteq> [] \<longrightarrow> cut_mode m = PreventiveV1Open" "dom (hget (pt_surfaces rt)) = fst ` set starts \<union> dom (hget (pt_surfaces rt0))"
    using activate_all_runs [OF ok, of "cut_new i" starts] by blast
  have "length (pt_surfaces rt) = card (fst ` set starts)"
    using r(2,4) e distinct_card [of "hkeys (pt_surfaces rt)"] by (simp add: runtime_ok_def hok_def dom_map_of_conv_image_fst)
  then have "runtime_available rt = (length ALL_SURFACES - card (fst ` set starts)) * SURFACE_CAPACITY_BYTES"
    using r(2) by (auto simp: runtime_ok_def runtime_available_def available_def PROCESS_CAPACITY_BYTES_def diff_mult_distrib)
  moreover have "{surface. owner_for surface rt \<noteq> None} = fst ` set starts"
    using r(4) e by (auto simp: owner_for_def dom_def)
  moreover have "cut_mode m = LegacyOpen" if "starts = []"
    using r(1) that by (auto simp: cut_mode_def cut_new_def)
  ultimately show ?thesis using i r(1,3) by auto
qed

section \<open>Witnesses\<close>

definition wit_tokens :: cut_system where
  "wit_tokens = \<lparr>cs_cut = (cut_new 1)\<lparr>ac_registered := {Cache}\<rparr>, cs_tokens = [\<lparr>lr_machine = 1, lr_lane = Cache\<rparr>]\<rparr>"

lemma wit_tokens_reach: "reach cut_init cut_step wit_tokens"
proof -
  let ?s = "\<lparr>cs_cut = cut_new 1, cs_tokens = []\<rparr>"
  have "reach cut_init cut_step ?s" by (rule reach_init) (auto simp: cut_init_def)
  moreover have "cut_step ?s wit_tokens"
    using ct_register [of Cache ?s "(cut_new 1)\<lparr>ac_registered := {Cache}\<rparr>" "Inr \<lparr>lr_machine = 1, lr_lane = Cache\<rparr>"]
    by (simp add: wit_tokens_def register_lane_def cut_new_def cut_mode_def)
  ultimately show ?thesis by (rule reach_step)
qed

theorem preventive_mode_earned_witness:
  "confirm_drained \<lparr>lr_machine = 1, lr_lane = Cache\<rparr> (cs_cut wit_tokens) = (cs_cut wit_tokens, Err (WrongMode LegacyClosing LegacyOpen)) \<and>
   cut_mode (cs_cut (wit_tokens\<lparr>cs_tokens := []\<rparr>)) \<noteq> PreventiveV1Open"
proof
  show c: "confirm_drained \<lparr>lr_machine = 1, lr_lane = Cache\<rparr> (cs_cut wit_tokens) = (cs_cut wit_tokens, Err (WrongMode LegacyClosing LegacyOpen))"
    by (simp add: confirm_drained_def wit_tokens_def cut_new_def cut_mode_def)
  have r: "\<lparr>lr_machine = 1, lr_lane = Cache\<rparr> \<in> set (cs_tokens wit_tokens)" by (simp add: wit_tokens_def)
  have "wit_tokens\<lparr>cs_cut := cs_cut wit_tokens, cs_tokens := remove1 \<lparr>lr_machine = 1, lr_lane = Cache\<rparr> (cs_tokens wit_tokens)\<rparr> =
      wit_tokens\<lparr>cs_tokens := []\<rparr>" by (simp add: wit_tokens_def)
  then show "cut_mode (cs_cut (wit_tokens\<lparr>cs_tokens := []\<rparr>)) \<noteq> PreventiveV1Open"
    using preventive_mode_earned [OF wit_tokens_reach, THEN conjunct2, THEN conjunct2, rule_format,
        OF conjI [OF r conjI [OF c rtranclp.rtrancl_refl]]] by simp
qed

end
