(* ===== verification/Registry.thy ===== *)
theory Registry
  imports Activation Mutation
begin

text \<open>
  Project admission: the registry with its slots and tombstones (\<open>src/index_lifecycle/registry.rs\<close>), the
  admission plan (\<open>src/index_lifecycle/adapters.rs\<close>) and the retrying admission of
  \<open>src/index_lifecycle/activation.rs\<close>.

  The registry mutex makes each operation one step. A live slot is shared behind an \<open>Arc\<close>: the value is
  immutable but for its revocation flag, which is looked up by slot identity in \<open>rg_revoked\<close>; the flag of
  its binding is \<open>w_revoked\<close> of the world. \<open>rg_next_slot\<close> is the process-wide slot counter.
\<close>

section \<open>Slots\<close>

datatype state_placement = ProjectLocal | UserLocal | MemoryOnly

datatype root_protection = NormalRoot | ProtectedRoot

datatype registry_refusal =
    Tombstoned nat
  | NotAdmitted
  | ProtectedWithoutAuthorization
  | StillPending
  | RootMismatch identity identity
  | PlacementMismatch state_placement state_placement

record pending_admission =
  pa_slot :: nat
  pa_key :: string
  pa_binding :: binding_authority
  pa_placement :: state_placement
  pa_joiners :: nat

datatype admission_join = CreatedPending | JoinedPending | JoinedLive

record admission_attempt =
  at_slot :: nat
  at_join :: admission_join

definition cleanup_candidate :: "admission_attempt \<Rightarrow> bool" where
  "cleanup_candidate a \<longleftrightarrow> at_join a = CreatedPending \<or> at_join a = JoinedPending"

record live_slot =
  lv_slot :: nat
  lv_key :: string
  lv_binding :: binding_authority
  lv_placement :: state_placement
  lv_owner :: "identity option"

datatype occupancy = PendingOcc pending_admission | LiveOcc live_slot

record registry =
  rg_keys :: "(string, occupancy) hmap"
  rg_tombstones :: "(nat, string) hmap"
  rg_revoked :: "nat list"
  rg_next_slot :: nat

definition registry_new :: registry where
  "registry_new = \<lparr>rg_keys = [], rg_tombstones = [], rg_revoked = [], rg_next_slot = 1\<rparr>"

definition slot_is_live :: "registry \<Rightarrow> live_slot \<Rightarrow> bool" where
  "slot_is_live rg h \<longleftrightarrow> lv_slot h \<notin> set (rg_revoked rg)"

definition slot_binding :: "registry \<Rightarrow> live_slot \<Rightarrow> (registry_refusal, binding_authority) result" where
  "slot_binding rg h = (if slot_is_live rg h then Ok (lv_binding h) else Err (Tombstoned (lv_slot h)))"

definition capacity_owner :: "registry \<Rightarrow> live_slot \<Rightarrow> (registry_refusal, identity option) result" where
  "capacity_owner rg h = (if slot_is_live rg h then Ok (lv_owner h) else Err (Tombstoned (lv_slot h)))"

definition revoke_slot :: "live_slot \<Rightarrow> registry \<Rightarrow> world \<Rightarrow> registry \<times> world" where
  "revoke_slot h rg w = (rg\<lparr>rg_revoked := List.insert (lv_slot h) (rg_revoked rg)\<rparr>, revoke_binding (lv_binding h) w)"

section \<open>The registry\<close>

definition admit_with_outcome ::
  "string \<Rightarrow> binding_authority \<Rightarrow> root_protection \<Rightarrow> bool \<Rightarrow> state_placement \<Rightarrow> registry \<Rightarrow>
   registry \<times> (registry_refusal, admission_attempt) result" where
  "admit_with_outcome key binding protection authorized placement rg =
     (if protection = ProtectedRoot \<and> (\<not> authorized \<or> placement = ProjectLocal) then (rg, Err ProtectedWithoutAuthorization)
      else case hget (rg_keys rg) key of
        Some (PendingOcc pending) \<Rightarrow>
          (if b_root (pa_binding pending) \<noteq> b_root binding
           then (rg, Err (RootMismatch (b_root (pa_binding pending)) (b_root binding)))
           else if pa_placement pending \<noteq> placement then (rg, Err (PlacementMismatch (pa_placement pending) placement))
           else (rg\<lparr>rg_keys := hinsert key (PendingOcc (pending\<lparr>pa_joiners := pa_joiners pending + 1\<rparr>)) (rg_keys rg)\<rparr>,
                 Ok \<lparr>at_slot = pa_slot pending, at_join = JoinedPending\<rparr>))
      | Some (LiveOcc live) \<Rightarrow>
          (if b_root (lv_binding live) \<noteq> b_root binding
           then (rg, Err (RootMismatch (b_root (lv_binding live)) (b_root binding)))
           else if lv_placement live \<noteq> placement then (rg, Err (PlacementMismatch (lv_placement live) placement))
           else (rg, Ok \<lparr>at_slot = lv_slot live, at_join = JoinedLive\<rparr>))
      | None \<Rightarrow>
          (let slot = rg_next_slot rg
           in (rg\<lparr>rg_next_slot := slot + 1,
                 rg_keys := hinsert key (PendingOcc \<lparr>pa_slot = slot, pa_key = key, pa_binding = binding, pa_placement = placement,
                                                     pa_joiners = 1\<rparr>) (rg_keys rg)\<rparr>,
               Ok \<lparr>at_slot = slot, at_join = CreatedPending\<rparr>)))"

definition admit ::
  "string \<Rightarrow> binding_authority \<Rightarrow> root_protection \<Rightarrow> bool \<Rightarrow> state_placement \<Rightarrow> registry \<Rightarrow> registry \<times> (registry_refusal, nat) result" where
  "admit key binding protection authorized placement rg =
     (case admit_with_outcome key binding protection authorized placement rg of
        (rg, Err e) \<Rightarrow> (rg, Err e)
      | (rg, Ok a) \<Rightarrow> (rg, Ok (at_slot a)))"

definition pending_joiners :: "string \<Rightarrow> registry \<Rightarrow> nat option" where
  "pending_joiners key rg = (case hget (rg_keys rg) key of Some (PendingOcc p) \<Rightarrow> Some (pa_joiners p) | _ \<Rightarrow> None)"

text \<open>The removal of the map entry and its re-insertion on a refusal are kept.\<close>

definition install_slot :: "string \<Rightarrow> identity option \<Rightarrow> registry \<Rightarrow> registry \<times> (registry_refusal, live_slot) result" where
  "install_slot key owner rg =
     (let keys = hremove key (rg_keys rg)
      in case hget (rg_keys rg) key of
           Some (PendingOcc pending) \<Rightarrow>
             (let live = \<lparr>lv_slot = pa_slot pending, lv_key = pa_key pending, lv_binding = pa_binding pending,
                          lv_placement = pa_placement pending, lv_owner = owner\<rparr>
              in (rg\<lparr>rg_keys := hinsert (pa_key pending) (LiveOcc live) keys\<rparr>, Ok live))
         | Some other \<Rightarrow> (rg\<lparr>rg_keys := hinsert key other keys\<rparr>, Err NotAdmitted)
         | None \<Rightarrow> (rg\<lparr>rg_keys := keys\<rparr>, Err NotAdmitted))"

definition cancel_admission :: "string \<Rightarrow> registry \<Rightarrow> registry \<times> (registry_refusal, nat) result" where
  "cancel_admission key rg =
     (let keys = hremove key (rg_keys rg)
      in case hget (rg_keys rg) key of
           Some (PendingOcc pending) \<Rightarrow>
             (rg\<lparr>rg_keys := keys, rg_tombstones := hinsert (pa_slot pending) (pa_key pending) (rg_tombstones rg)\<rparr>, Ok (pa_slot pending))
         | Some other \<Rightarrow> (rg\<lparr>rg_keys := hinsert key other keys\<rparr>, Err NotAdmitted)
         | None \<Rightarrow> (rg\<lparr>rg_keys := keys\<rparr>, Err NotAdmitted))"

definition retire_live :: "string \<Rightarrow> live_slot \<Rightarrow> registry \<Rightarrow> world \<Rightarrow> registry \<times> world" where
  "retire_live key live rg w =
     (let (rg, w) = revoke_slot live (rg\<lparr>rg_keys := hremove key (rg_keys rg)\<rparr>) w
      in (rg\<lparr>rg_tombstones := hinsert (lv_slot live) (lv_key live) (rg_tombstones rg)\<rparr>, w))"

definition stop :: "string \<Rightarrow> registry \<Rightarrow> world \<Rightarrow> registry \<times> world \<times> (registry_refusal, nat) result" where
  "stop key rg w =
     (let keys = hremove key (rg_keys rg)
      in case hget (rg_keys rg) key of
           Some (LiveOcc live) \<Rightarrow> (let (rg, w) = retire_live key live rg w in (rg, w, Ok (lv_slot live)))
         | Some other \<Rightarrow> (rg\<lparr>rg_keys := hinsert key other keys\<rparr>, w, Err NotAdmitted)
         | None \<Rightarrow> (rg\<lparr>rg_keys := keys\<rparr>, w, Err NotAdmitted))"

text \<open>\<open>held slot\<close> is the number of \<open>Arc\<close>s of that slot outside the registry.\<close>

definition stop_if_unheld ::
  "(nat \<Rightarrow> nat) \<Rightarrow> string \<Rightarrow> nat \<Rightarrow> registry \<Rightarrow> world \<Rightarrow> registry \<times> world \<times> (registry_refusal, nat) result" where
  "stop_if_unheld held key slot rg w =
     (case hget (rg_keys rg) key of
        Some (LiveOcc live) \<Rightarrow>
          (if lv_slot live = slot
           then if held slot + 1 > 1 then (rg, w, Err StillPending)
                else (let (rg, w) = retire_live key live rg w in (rg, w, Ok (lv_slot live)))
           else (rg, w, Err NotAdmitted))
      | Some (PendingOcc _) \<Rightarrow> (rg, w, Err StillPending)
      | None \<Rightarrow> (rg, w, Err NotAdmitted))"

definition registry_is_current :: "string \<Rightarrow> nat \<Rightarrow> registry \<Rightarrow> bool" where
  "registry_is_current key slot rg \<longleftrightarrow>
     hget (rg_tombstones rg) slot = None \<and> (case hget (rg_keys rg) key of Some (LiveOcc live) \<Rightarrow> lv_slot live = slot | _ \<Rightarrow> False)"

definition is_tombstoned :: "nat \<Rightarrow> registry \<Rightarrow> bool" where
  "is_tombstoned slot rg \<longleftrightarrow> hget (rg_tombstones rg) slot \<noteq> None"

definition registry_live :: "string \<Rightarrow> registry \<Rightarrow> (registry_refusal, live_slot) result" where
  "registry_live key rg =
     (case hget (rg_keys rg) key of
        Some (LiveOcc live) \<Rightarrow> Ok live
      | Some (PendingOcc _) \<Rightarrow> Err StillPending
      | None \<Rightarrow> Err NotAdmitted)"

definition tombstone_count :: "registry \<Rightarrow> nat" where
  "tombstone_count rg = length (rg_tombstones rg)"

section \<open>Admission plans\<close>

record admission_plan =
  pl_surface :: surface_kind
  pl_key :: string
  pl_placement :: state_placement
  pl_owner :: identity
  pl_protection :: root_protection
  pl_authorized :: bool
  pl_touches_source_root :: bool

datatype adapter_refusal = SurfaceNotAttached surface_kind | RegistryRefused registry_refusal

definition plan_admission ::
  "process_runtime \<Rightarrow> surface_kind \<Rightarrow> string \<Rightarrow> root_protection \<Rightarrow> bool \<Rightarrow> state_placement \<Rightarrow> (adapter_refusal, admission_plan) result" where
  "plan_admission rt surface key protection authorized requested =
     (case owner_for surface rt of
        None \<Rightarrow> Err (SurfaceNotAttached surface)
      | Some owner \<Rightarrow>
          (if protection = ProtectedRoot \<and> \<not> authorized then Err (RegistryRefused ProtectedWithoutAuthorization)
           else if protection = ProtectedRoot \<and> requested = ProjectLocal then Err (RegistryRefused ProtectedWithoutAuthorization)
           else Ok \<lparr>pl_surface = surface, pl_key = key, pl_placement = requested, pl_owner = owner, pl_protection = protection,
                    pl_authorized = authorized, pl_touches_source_root = (requested = ProjectLocal)\<rparr>))"

definition execute_plan_with_outcome ::
  "admission_plan \<Rightarrow> binding_authority \<Rightarrow> registry \<Rightarrow> registry \<times> (adapter_refusal, admission_attempt \<times> identity) result" where
  "execute_plan_with_outcome plan binding rg =
     (case admit_with_outcome (pl_key plan) binding (pl_protection plan) (pl_authorized plan) (pl_placement plan) rg of
        (rg, Err e) \<Rightarrow> (rg, Err (RegistryRefused e))
      | (rg, Ok attempt) \<Rightarrow> (rg, Ok (attempt, pl_owner plan)))"

definition execute_plan ::
  "admission_plan \<Rightarrow> binding_authority \<Rightarrow> registry \<Rightarrow> registry \<times> (adapter_refusal, nat \<times> identity) result" where
  "execute_plan plan binding rg =
     (case execute_plan_with_outcome plan binding rg of
        (rg, Err e) \<Rightarrow> (rg, Err e)
      | (rg, Ok (attempt, owner)) \<Rightarrow> (rg, Ok (at_slot attempt, owner)))"

section \<open>Every user of the registry\<close>

text \<open>
  The registry with every handle it gave out and every write scope open on one. A write scope holds the
  slot's gate for reading, so revoking waits until no scope of that slot is open; a scope is entered only
  through a handle whose binding is not refused. Admissions present a binding made for them.
\<close>

record registry_system =
  sy_registry :: registry
  sy_world :: world
  sy_handles :: "live_slot list"
  sy_scopes :: "nat list"

definition held_by :: "live_slot list \<Rightarrow> nat \<Rightarrow> nat" where
  "held_by hs slot = length (filter (\<lambda>h. lv_slot h = slot) hs)"

definition gate_free :: "string \<Rightarrow> registry_system \<Rightarrow> bool" where
  "gate_free key s \<longleftrightarrow> (case hget (rg_keys (sy_registry s)) key of Some (LiveOcc live) \<Rightarrow> lv_slot live \<notin> set (sy_scopes s) | _ \<Rightarrow> True)"

definition handed :: "(registry_refusal, live_slot) result \<Rightarrow> live_slot list" where
  "handed r = (case r of Ok h \<Rightarrow> [h] | Err _ \<Rightarrow> [])"

inductive registry_step :: "registry_system \<Rightarrow> registry_system \<Rightarrow> bool" where
  rs_admit: "bind root (sy_world s) = (b, w) \<Longrightarrow> admit_with_outcome key b protection authorized placement (sy_registry s) = (rg, r) \<Longrightarrow>
    registry_step s (s\<lparr>sy_registry := rg, sy_world := w\<rparr>)"
| rs_install: "install_slot key owner (sy_registry s) = (rg, r) \<Longrightarrow>
    registry_step s (s\<lparr>sy_registry := rg, sy_handles := handed r @ sy_handles s\<rparr>)"
| rs_cancel: "cancel_admission key (sy_registry s) = (rg, r) \<Longrightarrow> registry_step s (s\<lparr>sy_registry := rg\<rparr>)"
| rs_stop: "gate_free key s \<Longrightarrow> stop key (sy_registry s) (sy_world s) = (rg, w, r) \<Longrightarrow>
    registry_step s (s\<lparr>sy_registry := rg, sy_world := w\<rparr>)"
| rs_stop_unheld: "gate_free key s \<Longrightarrow> stop_if_unheld (held_by (sy_handles s)) key slot (sy_registry s) (sy_world s) = (rg, w, r) \<Longrightarrow>
    registry_step s (s\<lparr>sy_registry := rg, sy_world := w\<rparr>)"
| rs_live: "registry_live key (sy_registry s) = r \<Longrightarrow> registry_step s (s\<lparr>sy_handles := handed r @ sy_handles s\<rparr>)"
| rs_clone: "h \<in> set (sy_handles s) \<Longrightarrow> registry_step s (s\<lparr>sy_handles := h # sy_handles s\<rparr>)"
| rs_drop: "h \<in> set (sy_handles s) \<Longrightarrow> lv_slot h \<notin> set (sy_scopes s) \<or> h \<in> set (remove1 h (sy_handles s)) \<Longrightarrow>
    registry_step s (s\<lparr>sy_handles := remove1 h (sy_handles s)\<rparr>)"
| rs_enter: "h \<in> set (sy_handles s) \<Longrightarrow> slot_binding (sy_registry s) h = Inr b \<Longrightarrow>
    registry_step s (s\<lparr>sy_scopes := lv_slot h # sy_scopes s\<rparr>)"
| rs_leave: "slot \<in> set (sy_scopes s) \<Longrightarrow> registry_step s (s\<lparr>sy_scopes := remove1 slot (sy_scopes s)\<rparr>)"
| rs_elsewhere: "registry_step s (s\<lparr>sy_world := (sy_world s)\<lparr>w_next := w_next (sy_world s) + n\<rparr>\<rparr>)"

definition registry_init :: "registry_system \<Rightarrow> bool" where
  "registry_init s \<longleftrightarrow> sy_registry s = registry_new \<and> sy_handles s = [] \<and> sy_scopes s = [] \<and>
     (\<forall>i \<in> set (w_revoked (sy_world s)). i < w_next (sy_world s))"

fun occ_slot :: "occupancy \<Rightarrow> nat" where
  "occ_slot (PendingOcc p) = pa_slot p"
| "occ_slot (LiveOcc l) = lv_slot l"

fun occ_key :: "occupancy \<Rightarrow> string" where
  "occ_key (PendingOcc p) = pa_key p"
| "occ_key (LiveOcc l) = lv_key l"

fun occ_binding :: "occupancy \<Rightarrow> binding_authority" where
  "occ_binding (PendingOcc p) = pa_binding p"
| "occ_binding (LiveOcc l) = lv_binding l"

definition registry_ok :: "registry_system \<Rightarrow> bool" where
  "registry_ok s \<longleftrightarrow> (let rg = sy_registry s; w = sy_world s in
     (\<forall>k oc. hget (rg_keys rg) k = Some oc \<longrightarrow> occ_key oc = k \<and> occ_slot oc < rg_next_slot rg \<and>
        hget (rg_tombstones rg) (occ_slot oc) = None \<and> occ_slot oc \<notin> set (rg_revoked rg) \<and>
        b_identity (occ_binding oc) < w_next w \<and> binding_is_live w (occ_binding oc)) \<and>
     (\<forall>k oc k' oc'. hget (rg_keys rg) k = Some oc \<longrightarrow> hget (rg_keys rg) k' = Some oc' \<longrightarrow>
        occ_slot oc = occ_slot oc' \<or> b_identity (occ_binding oc) = b_identity (occ_binding oc') \<longrightarrow> k = k') \<and>
     (\<forall>i k. hget (rg_tombstones rg) i = Some k \<longrightarrow> i < rg_next_slot rg) \<and>
     (\<forall>i \<in> set (rg_revoked rg). hget (rg_tombstones rg) i \<noteq> None) \<and>
     (\<forall>h \<in> set (sy_handles s). hget (rg_keys rg) (lv_key h) = Some (LiveOcc h) \<or>
        hget (rg_tombstones rg) (lv_slot h) = Some (lv_key h) \<and> lv_slot h \<in> set (rg_revoked rg) \<and> \<not> binding_is_live w (lv_binding h)) \<and>
     (\<forall>slot \<in> set (sy_scopes s). \<exists>h \<in> set (sy_handles s). lv_slot h = slot \<and> hget (rg_keys rg) (lv_key h) = Some (LiveOcc h)) \<and>
     (\<forall>i \<in> set (w_revoked w). i < w_next w))"

section \<open>The invariant\<close>

text \<open>The parts of the invariant: occupancies, their uniqueness, retired identities, handles, scopes.\<close>

lemma registry_okD:
  assumes "registry_ok s"
  shows "hget (rg_keys (sy_registry s)) k = Some oc \<Longrightarrow> occ_key oc = k \<and> occ_slot oc < rg_next_slot (sy_registry s) \<and>
        hget (rg_tombstones (sy_registry s)) (occ_slot oc) = None \<and> occ_slot oc \<notin> set (rg_revoked (sy_registry s)) \<and>
        b_identity (occ_binding oc) < w_next (sy_world s) \<and> binding_is_live (sy_world s) (occ_binding oc)"
    and "hget (rg_keys (sy_registry s)) k = Some oc \<Longrightarrow> hget (rg_keys (sy_registry s)) k' = Some oc' \<Longrightarrow>
        occ_slot oc = occ_slot oc' \<or> b_identity (occ_binding oc) = b_identity (occ_binding oc') \<Longrightarrow> k = k'"
    and "hget (rg_tombstones (sy_registry s)) i = Some k \<Longrightarrow> i < rg_next_slot (sy_registry s)"
    and "i \<in> set (rg_revoked (sy_registry s)) \<Longrightarrow> hget (rg_tombstones (sy_registry s)) i \<noteq> None"
    and "h \<in> set (sy_handles s) \<Longrightarrow> hget (rg_keys (sy_registry s)) (lv_key h) = Some (LiveOcc h) \<or>
        hget (rg_tombstones (sy_registry s)) (lv_slot h) = Some (lv_key h) \<and> lv_slot h \<in> set (rg_revoked (sy_registry s)) \<and>
        \<not> binding_is_live (sy_world s) (lv_binding h)"
    and "slot \<in> set (sy_scopes s) \<Longrightarrow> \<exists>h \<in> set (sy_handles s). lv_slot h = slot \<and> hget (rg_keys (sy_registry s)) (lv_key h) = Some (LiveOcc h)"
    and "i \<in> set (w_revoked (sy_world s)) \<Longrightarrow> i < w_next (sy_world s)"
  using assms unfolding registry_ok_def Let_def by blast+

text \<open>A pending entry replaced by one of the same slot, key and binding: a join, or the installation.\<close>

lemma registry_ok_swap:
  assumes ok: "registry_ok s" and p: "hget (rg_keys (sy_registry s)) k = Some (PendingOcc p)"
    and same: "occ_slot oc = pa_slot p" "occ_key oc = pa_key p" "occ_binding oc = pa_binding p"
    and m: "hget m = (hget (rg_keys (sy_registry s)))(k \<mapsto> oc)"
    and hs: "set hs \<subseteq> set (sy_handles s) \<union> {h. oc = LiveOcc h}" "set (sy_handles s) \<subseteq> set hs"
  shows "registry_ok (s\<lparr>sy_registry := (sy_registry s)\<lparr>rg_keys := m\<rparr>, sy_handles := hs\<rparr>)"
proof -
  note D = registry_okD [OF ok]
  have key: "pa_key p = k" using D(1) [OF p] by simp
  have live: "hget (rg_keys (sy_registry s)) k' = Some (LiveOcc h) \<Longrightarrow> k' \<noteq> k" for k' h using p by auto
  have 1: "\<forall>k' oc'. hget m k' = Some oc' \<longrightarrow> occ_key oc' = k' \<and> occ_slot oc' < rg_next_slot (sy_registry s) \<and>
        hget (rg_tombstones (sy_registry s)) (occ_slot oc') = None \<and> occ_slot oc' \<notin> set (rg_revoked (sy_registry s)) \<and>
        b_identity (occ_binding oc') < w_next (sy_world s) \<and> binding_is_live (sy_world s) (occ_binding oc')"
    using D(1) D(1) [OF p] same key by (auto simp: m)
  have 2: "\<forall>k1 o1 k2 o2. hget m k1 = Some o1 \<longrightarrow> hget m k2 = Some o2 \<longrightarrow>
        occ_slot o1 = occ_slot o2 \<or> b_identity (occ_binding o1) = b_identity (occ_binding o2) \<longrightarrow> k1 = k2"
  proof (intro allI impI)
    fix k1 o1 k2 o2 assume a: "hget m k1 = Some o1" "hget m k2 = Some o2"
      and e: "occ_slot o1 = occ_slot o2 \<or> b_identity (occ_binding o1) = b_identity (occ_binding o2)"
    define f where "f k' o' = (if k' = k then PendingOcc p else o')" for k' o'
    have "hget (rg_keys (sy_registry s)) k1 = Some (f k1 o1)" "hget (rg_keys (sy_registry s)) k2 = Some (f k2 o2)"
      using a p by (auto simp: m f_def split: if_splits)
    moreover have "occ_slot (f k1 o1) = occ_slot o1" "occ_slot (f k2 o2) = occ_slot o2"
        "occ_binding (f k1 o1) = occ_binding o1" "occ_binding (f k2 o2) = occ_binding o2"
      using a same by (auto simp: m f_def split: if_splits)
    ultimately show "k1 = k2" using D(2) e by metis
  qed
  have 5: "\<forall>h \<in> set hs. hget m (lv_key h) = Some (LiveOcc h) \<or> hget (rg_tombstones (sy_registry s)) (lv_slot h) = Some (lv_key h) \<and>
        lv_slot h \<in> set (rg_revoked (sy_registry s)) \<and> \<not> binding_is_live (sy_world s) (lv_binding h)"
    using D(5) hs(1) same(2) key live by (fastforce simp: m)
  have 6: "\<forall>slot \<in> set (sy_scopes s). \<exists>h \<in> set hs. lv_slot h = slot \<and> hget m (lv_key h) = Some (LiveOcc h)"
    using D(6) hs(2) live by (fastforce simp: m)
  show ?thesis
    unfolding registry_ok_def Let_def using 1 2 5 6 D(3,4,7) by simp
qed

text \<open>A new pending entry under a new slot and a binding made for it.\<close>

lemma registry_ok_new:
  assumes ok: "registry_ok s" and n: "hget (rg_keys (sy_registry s)) k = None"
    and b: "b_identity b = w_next (sy_world s)"
    and m: "hget m = (hget (rg_keys (sy_registry s)))(k \<mapsto> PendingOcc \<lparr>pa_slot = rg_next_slot (sy_registry s), pa_key = k, pa_binding = b,
      pa_placement = pl, pa_joiners = j\<rparr>)"
  shows "registry_ok (s\<lparr>sy_registry := (sy_registry s)\<lparr>rg_next_slot := rg_next_slot (sy_registry s) + 1, rg_keys := m\<rparr>,
    sy_world := (sy_world s)\<lparr>w_next := w_next (sy_world s) + 1\<rparr>\<rparr>)"
proof -
  note D = registry_okD [OF ok]
  have fresh: "hget (rg_tombstones (sy_registry s)) (rg_next_slot (sy_registry s)) = None"
      "rg_next_slot (sy_registry s) \<notin> set (rg_revoked (sy_registry s))" "w_next (sy_world s) \<notin> set (w_revoked (sy_world s))"
    using D(3,4,7) by (metis less_irrefl not_None_eq)+
  have 1: "\<forall>k' oc'. hget m k' = Some oc' \<longrightarrow> occ_key oc' = k' \<and> occ_slot oc' < rg_next_slot (sy_registry s) + 1 \<and>
        hget (rg_tombstones (sy_registry s)) (occ_slot oc') = None \<and> occ_slot oc' \<notin> set (rg_revoked (sy_registry s)) \<and>
        b_identity (occ_binding oc') < w_next (sy_world s) + 1 \<and> b_identity (occ_binding oc') \<notin> set (w_revoked (sy_world s))"
    using D(1) fresh b by (auto simp: m binding_is_live_def less_Suc_eq)
  have 2: "\<forall>k1 o1 k2 o2. hget m k1 = Some o1 \<longrightarrow> hget m k2 = Some o2 \<longrightarrow>
        occ_slot o1 = occ_slot o2 \<or> b_identity (occ_binding o1) = b_identity (occ_binding o2) \<longrightarrow> k1 = k2"
  proof (intro allI impI)
    fix k1 o1 k2 o2 assume a: "hget m k1 = Some o1" "hget m k2 = Some o2"
      and e: "occ_slot o1 = occ_slot o2 \<or> b_identity (occ_binding o1) = b_identity (occ_binding o2)"
    have old: "occ_slot oc < rg_next_slot (sy_registry s) \<and> b_identity (occ_binding oc) < w_next (sy_world s)"
      if "hget (rg_keys (sy_registry s)) k' = Some oc" for k' oc using D(1) [OF that] by simp
    show "k1 = k2"
      using a e b old [of k1 o1] old [of k2 o2] D(2) [of k1 o1 k2 o2] by (auto simp: m split: if_splits)
  qed
  have live: "hget (rg_keys (sy_registry s)) k' = Some (LiveOcc h) \<Longrightarrow> k' \<noteq> k" for k' h using n by auto
  have 5: "\<forall>h \<in> set (sy_handles s). hget m (lv_key h) = Some (LiveOcc h) \<or> hget (rg_tombstones (sy_registry s)) (lv_slot h) = Some (lv_key h) \<and>
        lv_slot h \<in> set (rg_revoked (sy_registry s)) \<and> b_identity (lv_binding h) \<in> set (w_revoked (sy_world s))"
    using D(5) live by (fastforce simp: m binding_is_live_def)
  have 6: "\<forall>slot \<in> set (sy_scopes s). \<exists>h \<in> set (sy_handles s). lv_slot h = slot \<and> hget m (lv_key h) = Some (LiveOcc h)"
    using D(6) live by (fastforce simp: m)
  show ?thesis
    unfolding registry_ok_def Let_def using 1 2 5 6 D(3,4,7) by (auto simp: binding_is_live_def less_Suc_eq)
qed

text \<open>A pending entry cancelled.\<close>

lemma registry_ok_cancel:
  assumes ok: "registry_ok s" and p: "hget (rg_keys (sy_registry s)) k = Some (PendingOcc p)"
  shows "registry_ok (s\<lparr>sy_registry := (sy_registry s)\<lparr>rg_keys := hremove k (rg_keys (sy_registry s)),
    rg_tombstones := hinsert (pa_slot p) (pa_key p) (rg_tombstones (sy_registry s))\<rparr>\<rparr>)"
proof -
  note D = registry_okD [OF ok]
  have u: "occ_slot oc \<noteq> pa_slot p" if "hget (rg_keys (sy_registry s)) k' = Some oc" "k' \<noteq> k" for k' oc
    using D(2) [OF that(1) p] that(2) by auto
  have live: "hget (rg_keys (sy_registry s)) k' = Some (LiveOcc h) \<Longrightarrow> k' \<noteq> k" for k' h using p by auto
  have np: "pa_slot p \<noteq> lv_slot h \<or> pa_key p = lv_key h" if "hget (rg_tombstones (sy_registry s)) (lv_slot h) = Some (lv_key h)" for h
    using that D(1) [OF p] by auto
  show ?thesis
    unfolding registry_ok_def Let_def
    apply (intro conjI)
    subgoal using D(1) u by (auto simp: hget_hremove hget_hinsert split: if_splits)
    subgoal using D(2) by (auto simp: hget_hremove split: if_splits)
    subgoal using D(3) D(1) [OF p] by (auto simp: hget_hinsert split: if_splits)
    subgoal using D(4) by (auto simp: hget_hinsert)
    subgoal using D(5) live np by (fastforce simp: hget_hremove hget_hinsert)
    subgoal using D(6) live by (fastforce simp: hget_hremove)
    subgoal using D(7) by simp
    done
qed

text \<open>A live entry retired: handle and binding die with it.\<close>

lemma registry_ok_retire:
  assumes ok: "registry_ok s" and l: "hget (rg_keys (sy_registry s)) k = Some (LiveOcc live)"
    and free: "lv_slot live \<notin> set (sy_scopes s)"
    and r: "retire_live k live (sy_registry s) (sy_world s) = (rg, w)"
  shows "registry_ok (s\<lparr>sy_registry := rg, sy_world := w\<rparr>)"
proof -
  note D = registry_okD [OF ok]
  have key: "lv_key live = k" and slot: "lv_slot live < rg_next_slot (sy_registry s)" "b_identity (lv_binding live) < w_next (sy_world s)"
    using D(1) [OF l] by auto
  have e: "rg = (sy_registry s)\<lparr>rg_keys := hremove k (rg_keys (sy_registry s)), rg_revoked := List.insert (lv_slot live) (rg_revoked (sy_registry s)),
      rg_tombstones := hinsert (lv_slot live) k (rg_tombstones (sy_registry s))\<rparr>"
      "w = (sy_world s)\<lparr>w_revoked := List.insert (b_identity (lv_binding live)) (w_revoked (sy_world s))\<rparr>"
    using r key by (auto simp: retire_live_def revoke_slot_def revoke_binding_def)
  have u: "occ_slot oc \<noteq> lv_slot live \<and> b_identity (occ_binding oc) \<noteq> b_identity (lv_binding live)"
    if "hget (rg_keys (sy_registry s)) k' = Some oc" "k' \<noteq> k" for k' oc
    using D(2) [OF that(1) l] that(2) by auto
  have same: "h = live" if "hget (rg_keys (sy_registry s)) (lv_key h) = Some (LiveOcc h)" "lv_key h = k" for h
    using that l by simp
  have dead: "lv_slot live \<noteq> lv_slot h" if "hget (rg_tombstones (sy_registry s)) (lv_slot h) = Some (lv_key h)" for h
    using that D(1) [OF l] by auto
  show ?thesis
    unfolding registry_ok_def Let_def e
    apply (intro conjI)
    subgoal using D(1) u by (auto simp: hget_hremove hget_hinsert binding_is_live_def split: if_splits)
    subgoal using D(2) by (auto simp: hget_hremove split: if_splits)
    subgoal using D(3) slot by (auto simp: hget_hinsert split: if_splits)
    subgoal using D(4) by (auto simp: hget_hinsert)
    subgoal using D(5) same dead key by (fastforce simp: hget_hremove hget_hinsert binding_is_live_def)
    subgoal using D(6) same free by (fastforce simp: hget_hremove)
    subgoal using D(7) slot by auto
    done
qed

lemma registry_eta: "s\<lparr>sy_registry := sy_registry s\<rparr> = s" "s\<lparr>sy_handles := sy_handles s\<rparr> = s"
    "s\<lparr>sy_registry := rg, sy_handles := sy_handles s\<rparr> = s\<lparr>sy_registry := rg\<rparr>"
    "s\<lparr>sy_registry := sy_registry s, sy_world := w\<rparr> = s\<lparr>sy_world := w\<rparr>"
  by (cases s; simp)+

lemma registry_ok_later: "registry_ok s \<Longrightarrow> registry_ok (s\<lparr>sy_world := (sy_world s)\<lparr>w_next := w_next (sy_world s) + n\<rparr>\<rparr>)"
  unfolding registry_ok_def Let_def binding_is_live_def by (simp add: trans_less_add1)

lemma admit_effect:
  assumes ok: "registry_ok s" and b: "bind root (sy_world s) = (b, w)"
    and a: "admit_with_outcome key b protection authorized placement (sy_registry s) = (rg, r)"
  shows "registry_ok (s\<lparr>sy_registry := rg, sy_world := w\<rparr>)"
proof -
  have w: "b_identity b = w_next (sy_world s)" "w = (sy_world s)\<lparr>w_next := w_next (sy_world s) + 1\<rparr>"
    using b by (auto simp: bind_def fresh_identity_def)
  show ?thesis
  proof (cases "rg = sy_registry s")
    case True
    then show ?thesis using registry_ok_later [OF ok, of 1] w(2) by (simp add: registry_eta)
  next
    case False
    show ?thesis
    proof (cases "hget (rg_keys (sy_registry s)) key")
      case None
      then have rg: "rg = (sy_registry s)\<lparr>rg_next_slot := rg_next_slot (sy_registry s) + 1, rg_keys := hinsert key
          (PendingOcc \<lparr>pa_slot = rg_next_slot (sy_registry s), pa_key = key, pa_binding = b, pa_placement = placement, pa_joiners = 1\<rparr>)
          (rg_keys (sy_registry s))\<rparr>"
        using a False by (auto simp: admit_with_outcome_def Let_def split: if_splits)
      show ?thesis unfolding w(2) rg by (rule registry_ok_new [OF ok None w(1)]) (rule ext, simp add: hget_hinsert)
    next
      case (Some oc)
      then obtain p where p: "oc = PendingOcc p"
          "rg = (sy_registry s)\<lparr>rg_keys := hinsert key (PendingOcc (p\<lparr>pa_joiners := pa_joiners p + 1\<rparr>)) (rg_keys (sy_registry s))\<rparr>"
        using a False by (cases oc) (auto simp: admit_with_outcome_def Let_def split: if_splits)
      have "registry_ok (s\<lparr>sy_registry := rg, sy_handles := sy_handles s\<rparr>)"
        unfolding p(2) by (rule registry_ok_swap [OF ok Some [unfolded p(1)]]) (auto simp: hget_hinsert)
      from registry_ok_later [OF this, of 1] show ?thesis unfolding w(2) by (simp add: registry_eta)
    qed
  qed
qed

lemma hinsert_same: "hget m k = Some v \<Longrightarrow> hget (hinsert k v (hremove k m)) = hget m"
  by (auto simp: hget_hinsert hget_hremove)

lemma hremove_absent: "hget m k = None \<Longrightarrow> hget (hremove k m) = hget m"
  by (auto simp: hget_hremove)

text \<open>The invariant reads the table only through its lookups.\<close>

lemma registry_ok_cong:
  assumes "registry_ok s" "hget m = hget (rg_keys (sy_registry s))"
  shows "registry_ok (s\<lparr>sy_registry := (sy_registry s)\<lparr>rg_keys := m\<rparr>\<rparr>)"
  using assms unfolding registry_ok_def Let_def by simp

lemma install_effect:
  assumes ok: "registry_ok s" and i: "install_slot key owner (sy_registry s) = (rg, r)"
  shows "registry_ok (s\<lparr>sy_registry := rg, sy_handles := handed r @ sy_handles s\<rparr>)"
proof (cases "hget (rg_keys (sy_registry s)) key")
  case None
  then have "rg = (sy_registry s)\<lparr>rg_keys := hremove key (rg_keys (sy_registry s))\<rparr>" "handed r = []"
    using i by (auto simp: install_slot_def handed_def)
  then show ?thesis using registry_ok_cong [OF ok hremove_absent [OF None]] by (simp add: registry_eta)
next
  case (Some oc)
  show ?thesis
  proof (cases oc)
    case (PendingOcc p)
    define live where "live = \<lparr>lv_slot = pa_slot p, lv_key = pa_key p, lv_binding = pa_binding p, lv_placement = pa_placement p, lv_owner = owner\<rparr>"
    have p: "hget (rg_keys (sy_registry s)) key = Some (PendingOcc p)" using Some PendingOcc by simp
    have k: "pa_key p = key" using registry_okD(1) [OF ok p] by simp
    have e: "rg = (sy_registry s)\<lparr>rg_keys := hinsert key (LiveOcc live) (hremove key (rg_keys (sy_registry s)))\<rparr>" "handed r @ sy_handles s = live # sy_handles s"
      using i p k by (auto simp: install_slot_def handed_def live_def Let_def)
    show ?thesis unfolding e
    proof (rule registry_ok_swap [OF ok p])
      show "hget (hinsert key (LiveOcc live) (hremove key (rg_keys (sy_registry s)))) = (hget (rg_keys (sy_registry s)))(key \<mapsto> LiveOcc live)"
        by (rule ext) (simp add: hget_hinsert hget_hremove)
    qed (auto simp: live_def)
  next
    case (LiveOcc l)
    then have "rg = (sy_registry s)\<lparr>rg_keys := hinsert key oc (hremove key (rg_keys (sy_registry s)))\<rparr>" "handed r = []"
      using i Some by (auto simp: install_slot_def handed_def Let_def)
    then show ?thesis using registry_ok_cong [OF ok hinsert_same [OF Some]] by (simp add: registry_eta)
  qed
qed

lemma cancel_effect:
  assumes ok: "registry_ok s" and c: "cancel_admission key (sy_registry s) = (rg, r)"
  shows "registry_ok (s\<lparr>sy_registry := rg\<rparr>)"
proof (cases "hget (rg_keys (sy_registry s)) key")
  case None
  then show ?thesis using c registry_ok_cong [OF ok hremove_absent [OF None]] by (auto simp: cancel_admission_def Let_def)
next
  case (Some oc)
  show ?thesis
  proof (cases oc)
    case (PendingOcc p)
    then show ?thesis using c Some registry_ok_cancel [OF ok, of key p] by (auto simp: cancel_admission_def Let_def)
  next
    case (LiveOcc l)
    then show ?thesis using c Some registry_ok_cong [OF ok hinsert_same [OF Some]] by (auto simp: cancel_admission_def Let_def)
  qed
qed

lemma stop_effect:
  assumes ok: "registry_ok s" and g: "gate_free key s"
  shows "stop key (sy_registry s) (sy_world s) = (rg, w, r) \<Longrightarrow> registry_ok (s\<lparr>sy_registry := rg, sy_world := w\<rparr>)"
    and "stop_if_unheld held key slot (sy_registry s) (sy_world s) = (rg, w, r) \<Longrightarrow> registry_ok (s\<lparr>sy_registry := rg, sy_world := w\<rparr>)"
proof -
  have same: "registry_ok (s\<lparr>sy_registry := sy_registry s, sy_world := sy_world s\<rparr>)" using ok by (cases s) simp
  have keep: "registry_ok (s\<lparr>sy_registry := (sy_registry s)\<lparr>rg_keys := m\<rparr>, sy_world := sy_world s\<rparr>)"
    if "hget m = hget (rg_keys (sy_registry s))" for m
    using registry_ok_cong [OF ok that] by (cases s) simp
  have retire: "registry_ok (s\<lparr>sy_registry := rg', sy_world := w'\<rparr>)"
    if "hget (rg_keys (sy_registry s)) key = Some (LiveOcc live)" "retire_live key live (sy_registry s) (sy_world s) = (rg', w')" for live rg' w'
    using registry_ok_retire [OF ok that(1) _ that(2)] g that(1) by (simp add: gate_free_def)
  show "registry_ok (s\<lparr>sy_registry := rg, sy_world := w\<rparr>)" if "stop key (sy_registry s) (sy_world s) = (rg, w, r)"
    using that retire keep [OF hremove_absent] keep [OF hinsert_same]
    by (auto simp: stop_def Let_def split: option.splits occupancy.splits prod.splits)
  show "registry_ok (s\<lparr>sy_registry := rg, sy_world := w\<rparr>)" if "stop_if_unheld held key slot (sy_registry s) (sy_world s) = (rg, w, r)"
    using that retire same by (auto simp: stop_if_unheld_def Let_def split: option.splits occupancy.splits prod.splits if_splits)
qed

text \<open>Handles and scopes change under a table that stays.\<close>

lemma registry_ok_handles:
  assumes ok: "registry_ok s" and hs: "set hs \<subseteq> set (sy_handles s) \<union> {h. \<exists>k. hget (rg_keys (sy_registry s)) k = Some (LiveOcc h)}"
    and sc: "\<forall>slot \<in> set sc. \<exists>h \<in> set hs. lv_slot h = slot \<and> hget (rg_keys (sy_registry s)) (lv_key h) = Some (LiveOcc h)"
  shows "registry_ok (s\<lparr>sy_handles := hs, sy_scopes := sc\<rparr>)"
proof -
  have "hget (rg_keys (sy_registry s)) (lv_key h) = Some (LiveOcc h)" if "hget (rg_keys (sy_registry s)) k = Some (LiveOcc h)" for k h
    using registry_okD(1) [OF ok that] that by simp
  then have "\<forall>h \<in> set hs. hget (rg_keys (sy_registry s)) (lv_key h) = Some (LiveOcc h) \<or>
      hget (rg_tombstones (sy_registry s)) (lv_slot h) = Some (lv_key h) \<and> lv_slot h \<in> set (rg_revoked (sy_registry s)) \<and>
      \<not> binding_is_live (sy_world s) (lv_binding h)"
    using hs registry_okD(5) [OF ok] by blast
  then show ?thesis using ok sc unfolding registry_ok_def Let_def by simp
qed

lemma live_handle:
  assumes "registry_ok s" "h \<in> set (sy_handles s)"
  shows "slot_is_live (sy_registry s) h \<longleftrightarrow> hget (rg_keys (sy_registry s)) (lv_key h) = Some (LiveOcc h)"
  using registry_okD(1) [OF assms(1)] registry_okD(5) [OF assms] by (fastforce simp: slot_is_live_def)

lemma registry_step_ok: "registry_step s t \<Longrightarrow> registry_ok s \<Longrightarrow> registry_ok t"
proof (induction rule: registry_step.induct)
  case (rs_live key s r)
  have "registry_ok (s\<lparr>sy_handles := handed r @ sy_handles s, sy_scopes := sy_scopes s\<rparr>)"
    by (rule registry_ok_handles [OF rs_live(2)])
      (use rs_live(1) registry_okD(6) [OF rs_live(2)] in \<open>auto simp: handed_def registry_live_def split: option.splits occupancy.splits\<close>)
  then show ?case by (cases s) simp
next
  case (rs_clone h s)
  have "registry_ok (s\<lparr>sy_handles := h # sy_handles s, sy_scopes := sy_scopes s\<rparr>)"
    by (rule registry_ok_handles [OF rs_clone(2)]) (use rs_clone(1) registry_okD(6) [OF rs_clone(2)] in auto)
  then show ?case by (cases s) simp
next
  case (rs_drop h s)
  have keep: "h' \<in> set (remove1 h (sy_handles s))"
    if "h' \<in> set (sy_handles s)" "lv_slot h' \<in> set (sy_scopes s)" for h'
    using that rs_drop(2) by (cases "h' = h") auto
  have "registry_ok (s\<lparr>sy_handles := remove1 h (sy_handles s), sy_scopes := sy_scopes s\<rparr>)"
  proof (rule registry_ok_handles [OF rs_drop(3)])
    show "set (remove1 h (sy_handles s)) \<subseteq> set (sy_handles s) \<union> {h. \<exists>k. hget (rg_keys (sy_registry s)) k = Some (LiveOcc h)}"
      using set_remove1_subset [of h "sy_handles s"] by blast
    show "\<forall>slot \<in> set (sy_scopes s). \<exists>h' \<in> set (remove1 h (sy_handles s)). lv_slot h' = slot \<and> hget (rg_keys (sy_registry s)) (lv_key h') = Some (LiveOcc h')"
      using registry_okD(6) [OF rs_drop(3)] keep by metis
  qed
  then show ?case by (cases s) simp
next
  case (rs_enter h s b)
  then have "hget (rg_keys (sy_registry s)) (lv_key h) = Some (LiveOcc h)"
    using live_handle [OF rs_enter(3,1)] by (auto simp: slot_binding_def split: if_splits)
  then have "registry_ok (s\<lparr>sy_handles := sy_handles s, sy_scopes := lv_slot h # sy_scopes s\<rparr>)"
    using rs_enter(1) registry_okD(6) [OF rs_enter(3)] by (intro registry_ok_handles [OF rs_enter(3)]) auto
  then show ?case by (cases s) simp
next
  case (rs_leave slot s)
  have "registry_ok (s\<lparr>sy_handles := sy_handles s, sy_scopes := remove1 slot (sy_scopes s)\<rparr>)"
    using registry_okD(6) [OF rs_leave(2)] set_remove1_subset [of slot "sy_scopes s"] by (intro registry_ok_handles [OF rs_leave(2)]) blast+
  then show ?case by (cases s) simp
qed (auto intro: admit_effect install_effect cancel_effect stop_effect registry_ok_later)

interpretation registry: invariant_system registry_init registry_step registry_ok
proof
  fix s show "registry_init s \<Longrightarrow> registry_ok s" by (auto simp: registry_init_def registry_ok_def registry_new_def)
qed (rule registry_step_ok)

section \<open>Admission of a project\<close>

text \<open>
  \<open>admit_project_with_outcome\<close>: the registry is released between its calls, so whatever the rest of the
  process does in the three windows of a pass is \<open>others n\<close>, numbered through all passes. \<open>root\<close> is the
  admission root of the root's authority, \<open>rt\<close> the process runtime, whose surfaces are never detached.
\<close>

datatype source_access_mode = NormalProject | ExplicitProtected

definition protection_of :: "source_access_mode \<Rightarrow> root_protection" where
  "protection_of mode = (case mode of NormalProject \<Rightarrow> NormalRoot | ExplicitProtected \<Rightarrow> ProtectedRoot)"

record project_admission =
  ad_slot :: live_slot
  ad_cleanup_candidate :: bool

definition TORN_DOWN_ADMIT_ATTEMPTS :: nat where
  "TORN_DOWN_ADMIT_ATTEMPTS = 4"

definition granted :: "live_slot \<Rightarrow> bool \<Rightarrow> registry \<Rightarrow> registry_system \<Rightarrow> registry_system \<times> (adapter_refusal, project_admission) result" where
  "granted live cleanup rg s =
     (s\<lparr>sy_registry := rg, sy_handles := live # sy_handles s\<rparr>, Ok \<lparr>ad_slot = live, ad_cleanup_candidate = cleanup\<rparr>)"

function admit_loop ::
  "(nat \<Rightarrow> registry_system \<Rightarrow> registry_system) \<Rightarrow> process_runtime \<Rightarrow> surface_kind \<Rightarrow> string \<Rightarrow> identity \<Rightarrow> source_access_mode \<Rightarrow>
   state_placement \<Rightarrow> nat \<Rightarrow> registry_system \<Rightarrow> registry_system \<times> (adapter_refusal, project_admission) result" where
  "admit_loop others rt surface key root mode requested retries s =
     (case plan_admission rt surface key (protection_of mode) (mode = ExplicitProtected) requested of
        Inl e \<Rightarrow> (s, Err e)
      | Inr plan \<Rightarrow>
          (let (binding, w) = bind root (sy_world s)
           in case execute_plan_with_outcome plan binding (sy_registry s) of
                (rg, Inl e) \<Rightarrow> (s\<lparr>sy_registry := rg, sy_world := w\<rparr>, Err e)
              | (rg, Inr (attempt, owner)) \<Rightarrow>
                  (let cleanup = cleanup_candidate attempt;
                       s = others (3 * retries) (s\<lparr>sy_registry := rg, sy_world := w\<rparr>)
                   in case install_slot key (Some owner) (sy_registry s) of
                        (rg, Inr live) \<Rightarrow> granted live cleanup rg s
                      | (rg, Inl e) \<Rightarrow>
                          (let s = s\<lparr>sy_registry := rg\<rparr>
                           in if e = NotAdmitted
                              then (let s = others (3 * retries + 1) s
                                    in case registry_live key (sy_registry s) of
                                         Inr live \<Rightarrow> granted live cleanup (sy_registry s) s
                                       | Inl e \<Rightarrow>
                                           if (e = NotAdmitted \<or> e = StillPending) \<and> retries + 1 < TORN_DOWN_ADMIT_ATTEMPTS
                                           then admit_loop others rt surface key root mode requested (retries + 1) (others (3 * retries + 2) s)
                                           else (s, Err (RegistryRefused e)))
                              else (s, Err (RegistryRefused e))))))"
  by pat_completeness auto
termination
  by (relation "measure (\<lambda>(_, _, _, _, _, _, _, retries, _). TORN_DOWN_ADMIT_ATTEMPTS - retries)") auto

declare admit_loop.simps [simp del]

definition admit_project_with_outcome ::
  "(nat \<Rightarrow> registry_system \<Rightarrow> registry_system) \<Rightarrow> surface_kind \<Rightarrow> string \<Rightarrow> identity \<Rightarrow> source_access_mode \<Rightarrow> state_placement \<Rightarrow>
   activation_cut \<Rightarrow> process_runtime \<Rightarrow> registry_system \<Rightarrow>
   (activation_cut \<times> process_runtime \<times> registry_system \<times> (adapter_refusal, project_admission) result) option" where
  "admit_project_with_outcome others surface key root mode requested m rt s =
     (case activate_surface surface m rt (sy_world s) of
        None \<Rightarrow> None
      | Some (m, rt, w) \<Rightarrow>
          (case admit_loop others rt surface key root mode requested 0 (s\<lparr>sy_world := w\<rparr>) of (s, r) \<Rightarrow> Some (m, rt, s, r)))"

definition admit_project ::
  "(nat \<Rightarrow> registry_system \<Rightarrow> registry_system) \<Rightarrow> surface_kind \<Rightarrow> string \<Rightarrow> identity \<Rightarrow> source_access_mode \<Rightarrow> state_placement \<Rightarrow>
   activation_cut \<Rightarrow> process_runtime \<Rightarrow> registry_system \<Rightarrow>
   (activation_cut \<times> process_runtime \<times> registry_system \<times> (adapter_refusal, live_slot) result) option" where
  "admit_project others surface key root mode requested m rt s =
     (case admit_project_with_outcome others surface key root mode requested m rt s of
        None \<Rightarrow> None
      | Some (m, rt, s, r) \<Rightarrow> Some (m, rt, s, (case r of Ok a \<Rightarrow> Ok (ad_slot a) | Err e \<Rightarrow> Err e)))"

section \<open>The runtime handle\<close>

text \<open>A project's runtime handle hands its index out while the admission it carries is live.\<close>

record 'i runtime_handle =
  rh_data_plane :: 'i
  rh_admission :: "live_slot option"

definition bind_handle :: "'i \<Rightarrow> 'i runtime_handle" where
  "bind_handle index = \<lparr>rh_data_plane = index, rh_admission = None\<rparr>"

definition bind_admitted :: "'i \<Rightarrow> live_slot \<Rightarrow> 'i runtime_handle" where
  "bind_admitted index admission = \<lparr>rh_data_plane = index, rh_admission = Some admission\<rparr>"

definition acquire :: "registry \<Rightarrow> 'i runtime_handle \<Rightarrow> (registry_refusal, 'i) result" where
  "acquire rg h =
     (case rh_admission h of
        Some slot \<Rightarrow> (if \<not> slot_is_live rg slot then Err (Tombstoned (lv_slot slot)) else Ok (rh_data_plane h))
      | None \<Rightarrow> Ok (rh_data_plane h))"

section \<open>Retirement\<close>

lemma registry_step_tombstones: "registry_step s t \<Longrightarrow> is_tombstoned i (sy_registry s) \<Longrightarrow> is_tombstoned i (sy_registry t)"
  by (erule registry_step.cases)
    (auto simp: is_tombstoned_def admit_with_outcome_def install_slot_def cancel_admission_def stop_def stop_if_unheld_def retire_live_def
      revoke_slot_def hget_hinsert Let_def split: if_splits option.splits occupancy.splits)

lemma tombstones_stay: "registry_step\<^sup>*\<^sup>* s t \<Longrightarrow> is_tombstoned i (sy_registry s) \<Longrightarrow> is_tombstoned i (sy_registry t)"
  by (induction rule: rtranclp_induct) (auto intro: registry_step_tombstones)

lemma current_iff_occupied:
  "registry_ok s \<Longrightarrow> registry_is_current k slot (sy_registry s) \<longleftrightarrow> (\<exists>h. hget (rg_keys (sy_registry s)) k = Some (LiveOcc h) \<and> lv_slot h = slot)"
  using registry_okD(1) [of s k] by (force simp: registry_is_current_def split: option.splits occupancy.splits)

lemma tombstoned_not_live:
  assumes "registry_ok s" "is_tombstoned i (sy_registry s)"
  shows "hget (rg_keys (sy_registry s)) k = Some oc \<Longrightarrow> occ_slot oc \<noteq> i"
    and "h \<in> set (sy_handles s) \<Longrightarrow> lv_slot h = i \<Longrightarrow> \<not> slot_is_live (sy_registry s) h \<and> \<not> binding_is_live (sy_world s) (lv_binding h)"
  using registry_okD(1) [OF assms(1)] registry_okD(5) [OF assms(1)] assms(2) by (fastforce simp: is_tombstoned_def slot_is_live_def)+

section \<open>What an admission returns\<close>

lemma granted_current:
  assumes ok: "registry_ok (s\<lparr>sy_registry := rg, sy_handles := live # sy_handles s\<rparr>)" and l: "slot_is_live rg live"
    and g: "granted live cleanup rg s = (t, r)"
  shows "\<exists>ad. r = Ok ad \<and> ad_slot ad = live \<and> live \<in> set (sy_handles t) \<and> registry_is_current (lv_key live) (lv_slot live) (sy_registry t) \<and>
    slot_binding (sy_registry t) live = Ok (lv_binding live)"
  using g live_handle [OF ok, of live] current_iff_occupied [OF ok] l by (auto simp: granted_def slot_binding_def)















text \<open>An answer is the live occupancy of its key.\<close>

definition serves :: "string \<Rightarrow> live_slot \<Rightarrow> registry_system \<Rightarrow> bool" where
  "serves key h s \<longleftrightarrow> h \<in> set (sy_handles s) \<and> lv_key h = key \<and> registry_is_current key (lv_slot h) (sy_registry s) \<and>
     slot_binding (sy_registry s) h = Ok (lv_binding h) \<and> binding_is_live (sy_world s) (lv_binding h)"

lemma servesI:
  assumes "registry_ok s" "h \<in> set (sy_handles s)" "hget (rg_keys (sy_registry s)) key = Some (LiveOcc h)"
  shows "serves key h s"
  using assms registry_okD(1) [OF assms(1,3)] current_iff_occupied [OF assms(1)] by (auto simp: serves_def slot_binding_def slot_is_live_def)





text \<open>Others that, before the first installation, close the project and open it again with another placement.\<close>

definition reopened_elsewhere :: "string \<Rightarrow> identity \<Rightarrow> state_placement \<Rightarrow> nat \<Rightarrow> registry_system \<Rightarrow> registry_system" where
  "reopened_elsewhere key root placement n s =
     (if n = 0 \<and> gate_free key s
      then let (rg, w, _) = stop key (sy_registry s) (sy_world s);
               (b, w) = bind root w;
               (rg, _) = admit_with_outcome key b NormalRoot False placement rg
           in s\<lparr>sy_registry := rg, sy_world := w\<rparr>
      else s)"

lemma reopened_elsewhere_steps: "registry_step\<^sup>*\<^sup>* s (reopened_elsewhere key root placement n s)"
proof (cases "n = 0 \<and> gate_free key s")
  case True
  obtain rg w r where 1: "stop key (sy_registry s) (sy_world s) = (rg, w, r)" by (metis prod_cases3)
  obtain b w2 where 2: "bind root w = (b, w2)" by force
  obtain rg2 r2 where 3: "admit_with_outcome key b NormalRoot False placement rg = (rg2, r2)" by force
  let ?s1 = "s\<lparr>sy_registry := rg, sy_world := w\<rparr>"
  have "registry_step s ?s1" using rs_stop [OF _ 1] True by blast
  moreover have "registry_step ?s1 (?s1\<lparr>sy_registry := rg2, sy_world := w2\<rparr>)" by (rule rs_admit) (use 2 3 in simp_all)
  moreover have "?s1\<lparr>sy_registry := rg2, sy_world := w2\<rparr> = reopened_elsewhere key root placement n s"
    using True 1 2 3 by (simp add: reopened_elsewhere_def)
  ultimately show ?thesis by (metis converse_rtranclp_into_rtranclp rtranclp.rtrancl_refl)
next
  case False
  then have "reopened_elsewhere key root placement n s = s" unfolding reopened_elsewhere_def by (rule if_not_P)
  then show ?thesis by simp
qed

section \<open>Properties\<close>

text \<open>
  C11: a handle confers authority exactly while its slot is the occupancy of its key. In every reachable state,
  with any number of handles cloned and kept, a handle answers with its binding iff the registry holds that
  very slot as current; two live handles of one key are the same occupancy; a retired handle's index is
  refused and its binding, even one copied out earlier, obtains no mutation permit; and every open write
  scope is inside the life of its slot.
\<close>

theorem handle_live_iff_current:
  assumes "reach registry_init registry_step s"
  shows "(\<forall>h \<in> set (sy_handles s).
      (if registry_is_current (lv_key h) (lv_slot h) (sy_registry s)
       then slot_binding (sy_registry s) h = Ok (lv_binding h) \<and> acquire (sy_registry s) (bind_admitted x h) = Ok x \<and> binding_is_live (sy_world s) (lv_binding h)
       else slot_binding (sy_registry s) h = Err (Tombstoned (lv_slot h)) \<and> acquire (sy_registry s) (bind_admitted x h) = Err (Tombstoned (lv_slot h)) \<and>
         (\<forall>g l d sg sg' r. ma_binding (ga_authority g) = lv_binding h \<longrightarrow> permit_grant g l d (sy_world s) sg = (sg', r) \<longrightarrow>
            sg' = sg \<and> (r = Err WholeAuthorityMismatch \<or> r = Err (BindingRevoked (b_identity (lv_binding h))))))) \<and>
    (\<forall>h \<in> set (sy_handles s). \<forall>h' \<in> set (sy_handles s).
       slot_is_live (sy_registry s) h \<and> slot_is_live (sy_registry s) h' \<and> lv_key h = lv_key h' \<longrightarrow> h = h') \<and>
    (\<forall>slot \<in> set (sy_scopes s). \<exists>h \<in> set (sy_handles s). lv_slot h = slot \<and> serves (lv_key h) h s)"
proof -
  have ok: "registry_ok s" using registry.reach_inv [OF assms] .
  have cur: "registry_is_current (lv_key h) (lv_slot h) (sy_registry s) \<longleftrightarrow> slot_is_live (sy_registry s) h" if "h \<in> set (sy_handles s)" for h
    using current_iff_occupied [OF ok, of "lv_key h" "lv_slot h"] live_handle [OF ok that] registry_okD(5) [OF ok that] registry_okD(1) [OF ok]
    by (fastforce simp: slot_is_live_def)
  have dead: "\<not> binding_is_live (sy_world s) (lv_binding h)" if "h \<in> set (sy_handles s)" "\<not> slot_is_live (sy_registry s) h" for h
    using registry_okD(5) [OF ok that(1)] live_handle [OF ok that(1)] that(2) by blast
  have bl: "binding_is_live (sy_world s) (lv_binding h)" if "h \<in> set (sy_handles s)" "slot_is_live (sy_registry s) h" for h
    using registry_okD(1) [OF ok] live_handle [OF ok that(1)] that(2) by force
  show ?thesis
  proof (intro conjI)
    show "\<forall>h \<in> set (sy_handles s).
      (if registry_is_current (lv_key h) (lv_slot h) (sy_registry s)
       then slot_binding (sy_registry s) h = Ok (lv_binding h) \<and> acquire (sy_registry s) (bind_admitted x h) = Ok x \<and> binding_is_live (sy_world s) (lv_binding h)
       else slot_binding (sy_registry s) h = Err (Tombstoned (lv_slot h)) \<and> acquire (sy_registry s) (bind_admitted x h) = Err (Tombstoned (lv_slot h)) \<and>
         (\<forall>g l d sg sg' r. ma_binding (ga_authority g) = lv_binding h \<longrightarrow> permit_grant g l d (sy_world s) sg = (sg', r) \<longrightarrow>
            sg' = sg \<and> (r = Err WholeAuthorityMismatch \<or> r = Err (BindingRevoked (b_identity (lv_binding h))))))"
      using cur dead bl by (auto simp: slot_binding_def acquire_def bind_admitted_def permit_grant_def Let_def split: if_splits)
    show "\<forall>h \<in> set (sy_handles s). \<forall>h' \<in> set (sy_handles s).
       slot_is_live (sy_registry s) h \<and> slot_is_live (sy_registry s) h' \<and> lv_key h = lv_key h' \<longrightarrow> h = h'"
      using live_handle [OF ok] by force
    show "\<forall>slot \<in> set (sy_scopes s). \<exists>h \<in> set (sy_handles s). lv_slot h = slot \<and> serves (lv_key h) h s"
      using registry_okD(6) [OF ok] servesI [OF ok] by blast
  qed
qed

text \<open>
  A retired slot never comes back. Once a slot is tombstoned, then after any further activity it is still
  tombstoned, no key has it as its current slot, no admission is given it and every handle of it refuses.
\<close>

lemma retired_slot_final:
  assumes "reach registry_init registry_step s" and "is_tombstoned slot (sy_registry s)" and "registry_step\<^sup>*\<^sup>* s t"
  shows "is_tombstoned slot (sy_registry t) \<and> (\<forall>k. \<not> registry_is_current k slot (sy_registry t)) \<and>
    (\<forall>key b p a pl rg at. admit_with_outcome key b p a pl (sy_registry t) = (rg, Ok at) \<longrightarrow> at_slot at \<noteq> slot) \<and>
    (\<forall>h \<in> set (sy_handles t). lv_slot h = slot \<longrightarrow> slot_binding (sy_registry t) h = Err (Tombstoned slot))"
proof -
  have ok: "registry_ok t" using registry.inv_steps [OF assms(3) registry.reach_inv [OF assms(1)]] .
  have d: "is_tombstoned slot (sy_registry t)" using tombstones_stay [OF assms(3,2)] .
  note nl = tombstoned_not_live [OF ok d]
  have "at_slot at \<noteq> slot" if "admit_with_outcome key b p a pl (sy_registry t) = (rg, Ok at)" for key b p a pl rg at
    using that nl(1) registry_okD(3) [OF ok, of slot] d
    by (fastforce simp: admit_with_outcome_def is_tombstoned_def Let_def split: if_splits option.splits occupancy.splits)
  moreover have "\<not> registry_is_current k slot (sy_registry t)" for k
    using current_iff_occupied [OF ok] nl(1) by fastforce
  moreover have "slot_binding (sy_registry t) h = Err (Tombstoned slot)" if "h \<in> set (sy_handles t)" "lv_slot h = slot" for h
    using nl(2) [OF that] that by (simp add: slot_binding_def)
  ultimately show ?thesis using d by blast
qed


text \<open>
  C33: an opener that loses the race is handed a slot nobody checked for it. The root and the placement of a
  request are compared when it is admitted, not when it installs. If the live occupancy it joined is stopped
  and another opener has admitted the key with another placement before this one installs, this one installs
  the other's pending slot: the call succeeds with a placement that the registry refuses when asked
  directly, and reports that its own installation must not be cleaned up.
\<close>

theorem admit_installs_foreign_pending:
  assumes "owner_for surface rt = Some owner" and "hget (rg_keys (sy_registry s)) key = Some (LiveOcc live)"
    and "b_root (lv_binding live) = root" and "lv_placement live = requested" and "gate_free key s" and "other \<noteq> requested"
  shows "(\<forall>n u. registry_step\<^sup>*\<^sup>* u (reopened_elsewhere key root other n u)) \<and>
    (\<exists>t ad rg. admit_loop (reopened_elsewhere key root other) rt surface key root NormalProject requested 0 s = (t, Ok ad) \<and>
      lv_placement (ad_slot ad) = other \<and> lv_owner (ad_slot ad) = Some owner \<and> \<not> ad_cleanup_candidate ad \<and>
      admit_with_outcome key (lv_binding live) NormalRoot False requested (sy_registry t) = (rg, Err (PlacementMismatch other requested)))"
proof (intro conjI allI reopened_elsewhere_steps)
  let ?others = "reopened_elsewhere key root other"
  let ?plan = "\<lparr>pl_surface = surface, pl_key = key, pl_placement = requested, pl_owner = owner, pl_protection = NormalRoot, pl_authorized = False,
      pl_touches_source_root = (requested = ProjectLocal)\<rparr>"
  obtain b w where b: "bind root (sy_world s) = (b, w)" "b_root b = root" by (auto simp: bind_def fresh_identity_def)
  have plan: "plan_admission rt surface key (protection_of NormalProject) (NormalProject = ExplicitProtected) requested = Ok ?plan"
    using assms(1) by (simp add: plan_admission_def protection_of_def)
  have exec: "execute_plan_with_outcome ?plan b (sy_registry s) = (sy_registry s, Ok (\<lparr>at_slot = lv_slot live, at_join = JoinedLive\<rparr>, owner))"
    using assms b(2) by (simp add: execute_plan_with_outcome_def admit_with_outcome_def)
  define s2 where "s2 = ?others 0 (s\<lparr>sy_world := w\<rparr>)"
  have "\<exists>p. hget (rg_keys (sy_registry s2)) key = Some (PendingOcc p) \<and> pa_key p = key \<and> pa_placement p = other \<and> b_root (pa_binding p) = root"
    using assms(2,5)
    by (simp add: s2_def reopened_elsewhere_def gate_free_def stop_def retire_live_def revoke_slot_def admit_with_outcome_def bind_def
        fresh_identity_def hget_hinsert hget_hremove Let_def)
  then obtain p where p: "hget (rg_keys (sy_registry s2)) key = Some (PendingOcc p)" "pa_key p = key" "pa_placement p = other" "b_root (pa_binding p) = root"
    by blast
  define l where "l = \<lparr>lv_slot = pa_slot p, lv_key = pa_key p, lv_binding = pa_binding p, lv_placement = pa_placement p, lv_owner = Some owner\<rparr>"
  define rg2 where "rg2 = (sy_registry s2)\<lparr>rg_keys := hinsert key (LiveOcc l) (hremove key (rg_keys (sy_registry s2)))\<rparr>"
  have inst: "install_slot key (Some owner) (sy_registry s2) = (rg2, Ok l)"
    using p by (simp add: install_slot_def rg2_def l_def Let_def)
  have run: "admit_loop ?others rt surface key root NormalProject requested 0 s = granted l False rg2 s2"
    using plan b(1) exec inst by (simp add: admit_loop.simps [of _ _ _ _ _ _ _ 0 s] s2_def cleanup_candidate_def Let_def)
  have "admit_with_outcome key (lv_binding live) NormalRoot False requested rg2 = (rg2, Err (PlacementMismatch other requested))"
    using assms(3,6) p by (simp add: admit_with_outcome_def rg2_def hget_hinsert l_def)
  then show "\<exists>t ad rg. admit_loop ?others rt surface key root NormalProject requested 0 s = (t, Ok ad) \<and>
      lv_placement (ad_slot ad) = other \<and> lv_owner (ad_slot ad) = Some owner \<and> \<not> ad_cleanup_candidate ad \<and>
      admit_with_outcome key (lv_binding live) NormalRoot False requested (sy_registry t) = (rg, Err (PlacementMismatch other requested))"
    unfolding run granted_def using p by (simp add: l_def)
qed

section \<open>Witnesses\<close>

definition wit_empty :: registry_system where
  "wit_empty = \<lparr>sy_registry = registry_new, sy_world = \<lparr>w_next = 20, w_next_root = 20, w_revoked = [], w_dead = []\<rparr>, sy_handles = [], sy_scopes = []\<rparr>"

definition wit_binding20 :: binding_authority where
  "wit_binding20 = fst (bind 7 (sy_world wit_empty))"

definition wit_live :: live_slot where
  "wit_live = \<lparr>lv_slot = 1, lv_key = ''p'', lv_binding = wit_binding20, lv_placement = ProjectLocal, lv_owner = Some 9\<rparr>"

definition wit_opened :: registry_system where
  "wit_opened = \<lparr>sy_registry = \<lparr>rg_keys = [(''p'', LiveOcc wit_live)], rg_tombstones = [], rg_revoked = [], rg_next_slot = 2\<rparr>,
     sy_world = snd (bind 7 (sy_world wit_empty)), sy_handles = [wit_live], sy_scopes = []\<rparr>"

definition wit_closed :: registry_system where
  "wit_closed = \<lparr>sy_registry = \<lparr>rg_keys = [], rg_tombstones = [(1, ''p'')], rg_revoked = [1], rg_next_slot = 2\<rparr>,
     sy_world = revoke_binding wit_binding20 (sy_world wit_opened), sy_handles = [wit_live], sy_scopes = []\<rparr>"

lemmas wit_registry_defs = wit_empty_def wit_binding20_def wit_live_def wit_opened_def wit_closed_def

lemma wit_opened_reach: "reach registry_init registry_step wit_opened"
proof -
  let ?p = "\<lparr>pa_slot = 1, pa_key = ''p'', pa_binding = wit_binding20, pa_placement = ProjectLocal, pa_joiners = 1\<rparr>"
  let ?rg = "\<lparr>rg_keys = [(''p'', PendingOcc ?p)], rg_tombstones = [], rg_revoked = [], rg_next_slot = 2\<rparr>"
  let ?s = "wit_empty\<lparr>sy_registry := ?rg, sy_world := snd (bind 7 (sy_world wit_empty))\<rparr>"
  have "reach registry_init registry_step wit_empty" by (rule reach_init) (simp add: registry_init_def wit_empty_def)
  moreover have "registry_step wit_empty ?s"
    by (rule rs_admit [where key = "''p''" and protection = NormalRoot and placement = ProjectLocal and root = 7 and b = wit_binding20
          and authorized = False and r = "Inr \<lparr>at_slot = 1, at_join = CreatedPending\<rparr>"])
      (simp_all add: wit_registry_defs admit_with_outcome_def registry_new_def bind_def fresh_identity_def)
  ultimately have "reach registry_init registry_step ?s" by (rule reach_step)
  moreover have "registry_step ?s wit_opened"
    using rs_install [of "''p''" "Some 9" ?s "sy_registry wit_opened" "Inr wit_live"]
    by (simp add: wit_registry_defs install_slot_def handed_def Let_def)
  ultimately show ?thesis by (rule reach_step)
qed

lemma wit_closed_step: "registry_step wit_opened wit_closed"
proof -
  have "registry_step wit_opened (wit_opened\<lparr>sy_registry := sy_registry wit_closed, sy_world := sy_world wit_closed\<rparr>)"
    by (rule rs_stop [where key = "''p''" and r = "Inr 1"])
      (simp_all add: wit_registry_defs gate_free_def stop_def retire_live_def revoke_slot_def revoke_binding_def
        List.insert_def Let_def)
  then show ?thesis by (simp add: wit_closed_def wit_opened_def)
qed

lemma wit_closed_reach: "reach registry_init registry_step wit_closed"
  using wit_opened_reach wit_closed_step by (rule reach_step)

theorem handle_live_iff_current_witness:
  "slot_binding (sy_registry wit_opened) wit_live = Ok wit_binding20 \<and> slot_binding (sy_registry wit_closed) wit_live = Err (Tombstoned 1) \<and>
   acquire (sy_registry wit_closed) (bind_admitted (0 :: nat) wit_live) = Err (Tombstoned 1)"
proof -
  have o: "wit_live \<in> set (sy_handles wit_opened)" "registry_is_current (lv_key wit_live) (lv_slot wit_live) (sy_registry wit_opened)"
    and c: "wit_live \<in> set (sy_handles wit_closed)" "\<not> registry_is_current (lv_key wit_live) (lv_slot wit_live) (sy_registry wit_closed)"
    by (simp_all add: wit_registry_defs registry_is_current_def)
  show ?thesis
    using handle_live_iff_current [OF wit_opened_reach, of "0 :: nat", THEN conjunct1, rule_format, OF o(1)] o(2)
      handle_live_iff_current [OF wit_closed_reach, of "0 :: nat", THEN conjunct1, rule_format, OF c(1)] c(2)
    by (simp add: wit_live_def)
qed

theorem retired_slot_final_witness:
  "is_tombstoned 1 (sy_registry wit_closed) \<and> \<not> registry_is_current ''p'' 1 (sy_registry wit_closed)"
  using retired_slot_final [OF wit_closed_reach, of 1 wit_closed] by (simp add: wit_registry_defs is_tombstoned_def)


theorem admit_installs_foreign_pending_witness:
  "\<exists>t ad. admit_loop (reopened_elsewhere ''p'' 7 UserLocal)
      \<lparr>pt_ledger = pool_new 3, pt_root = 4, pt_surfaces = [(Daemon, 9)]\<rparr> Daemon ''p'' 7 NormalProject ProjectLocal 0 wit_opened = (t, Ok ad) \<and>
      lv_placement (ad_slot ad) = UserLocal"
  using admit_installs_foreign_pending [of Daemon "\<lparr>pt_ledger = pool_new 3, pt_root = 4, pt_surfaces = [(Daemon, 9)]\<rparr>" 9 wit_opened "''p''"
      wit_live 7 ProjectLocal UserLocal]
  by (auto simp: owner_for_def wit_registry_defs gate_free_def bind_def fresh_identity_def)

end
