(* ===== verification/Idempotency.thy ===== *)
theory Idempotency
  imports TextEdit PhysicalRoot "HOL-Library.List_Lexorder" "HOL-Library.Char_ord" "HOL-Library.Multiset" "HOL-Library.Countable"
begin

text \<open>
  Durable replay of mutating tool calls (\<open>src/idempotency.rs\<close>, \<open>src/hash.rs\<close>): request hashing, the record
  store on disk, the reservation of a key and the updates of its record, and the verified replay.

  The store is shared by processes that may crash, so \<open>check_or_reserve\<close> and the record updates are written as
  programs whose steps are single file-system operations: \<open>replay_next\<close> performs the operation at a program
  point. A \<open>fault\<close> makes the operation fail. The file system is the state: a key's directory, which is
  created by the rename that publishes it and never removed, with its record file unless that was
  quarantined; the claim markers; the supersede markers with their modification times; the quarantined
  files. A staged reservation lives in a private temporary directory until it is renamed.

  Parameters: \<open>sha\<close> is SHA-256, \<open>codec\<close> serde's JSON of a record, \<open>to_vec\<close> serde's JSON of a value, \<open>clean\<close> the
  secret scan of a response, \<open>now\<close> the wall clock.
\<close>

section \<open>Hashes\<close>

definition hex_digit :: "nat \<Rightarrow> char" where
  "hex_digit n = ''0123456789abcdef'' ! n"

definition hex_byte :: "u8 \<Rightarrow> string" where
  "hex_byte b = [hex_digit (unat b div 16), hex_digit (unat b mod 16)]"

definition digest_hex :: "(bytes \<Rightarrow> bytes) \<Rightarrow> bytes \<Rightarrow> string" where
  "digest_hex sha b = concat (map hex_byte (sha b))"

datatype json = JNull | JBool bool | JNumber string | JString string | JArray "json list" | JObject "(string \<times> json) list"

datatype replay_status = Reserved | Started | Uncertain | Completed | Failed

record post_image_target =
  pit_path :: "name list"
  pit_digest :: "string option"

record source_binding =
  sb_project_id :: string
  sb_root_key :: bytes

record linked_source =
  ln_root :: "name list"
  ln_binding :: source_binding

record post_image =
  pi_targets :: "post_image_target list"
  pi_source :: "source_binding option"
  pi_linked :: "linked_source list"

record replay_record =
  rr_schema :: nat
  rr_key_hash :: string
  rr_request :: string
  rr_status :: replay_status
  rr_created :: nat
  rr_updated :: nat
  rr_response :: "string option"
  rr_post_image :: "post_image option"

datatype idempotency_error =
    EmptyKey
  | EmptyToolName
  | ResponseTooLarge
  | UnsafeResponse
  | ReceiptRequired
  | InvalidTransition
  | RequestConflict string string string
  | IncompleteReservation string
  | Publishing string
  | CorruptRecordQuarantined string string
  | CorruptRecord string
  | ReplayIo
  | ReplayJson

definition KEY_HASH_FRAME_PREFIX :: bytes where
  "KEY_HASH_FRAME_PREFIX = ascii ''symforge-idempotency-key-v1'' @ [0]"

definition REQUEST_HASH_FRAME_PREFIX :: bytes where
  "REQUEST_HASH_FRAME_PREFIX = ascii ''symforge-idempotency-request-v1'' @ [0]"

definition key_new :: "string \<Rightarrow> (idempotency_error, string) result" where
  "key_new raw = (if raw = [] then Err EmptyKey else Ok raw)"

definition key_hash :: "(bytes \<Rightarrow> bytes) \<Rightarrow> string \<Rightarrow> string" where
  "key_hash sha key = digest_hex sha (KEY_HASH_FRAME_PREFIX @ ascii key)"

text \<open>A JSON object has distinct keys; going through them in order and looking each up is sorting its members.\<close>

fun canonicalize_value :: "json \<Rightarrow> json" where
  "canonicalize_value (JArray items) = JArray (map canonicalize_value items)"
| "canonicalize_value (JObject m) = JObject (sort_key fst (map (\<lambda>(k, v). (k, canonicalize_value v)) m))"
| "canonicalize_value other = other"

definition request_frame :: "(json \<Rightarrow> bytes) \<Rightarrow> string \<Rightarrow> json \<Rightarrow> bytes" where
  "request_frame to_vec tool request = REQUEST_HASH_FRAME_PREFIX @ ascii tool @ [0] @ to_vec (canonicalize_value request)"

definition for_tool_request :: "(bytes \<Rightarrow> bytes) \<Rightarrow> (json \<Rightarrow> bytes) \<Rightarrow> string \<Rightarrow> json \<Rightarrow> (idempotency_error, string) result" where
  "for_tool_request sha to_vec tool request =
     (if tool = [] then Err EmptyToolName else Ok (digest_hex sha (request_frame to_vec tool request)))"

definition index_folder_request_hash ::
  "(bytes \<Rightarrow> bytes) \<Rightarrow> (json \<Rightarrow> bytes) \<Rightarrow> string \<Rightarrow> bool \<Rightarrow> bool \<Rightarrow> bool \<Rightarrow> (idempotency_error, string) result" where
  "index_folder_request_hash sha to_vec project_id reset allow_protected activate =
     for_tool_request sha to_vec ''index_folder''
       (JObject [(''project_id'', JString project_id), (''reset'', JBool reset),
                 (''allow_protected_root'', JBool allow_protected), (''activate'', JBool activate)])"

section \<open>Records\<close>

record codec =
  c_enc :: "replay_record \<Rightarrow> bytes"
  c_dec :: "bytes \<Rightarrow> replay_record option"

definition REPLAY_RECORD_SCHEMA_VERSION :: nat where
  "REPLAY_RECORD_SCHEMA_VERSION = 1"

definition MAX_REPLAY_RESPONSE_BYTES :: nat where
  "MAX_REPLAY_RESPONSE_BYTES = 1024 * 1024"

definition reserved_record :: "nat \<Rightarrow> string \<Rightarrow> string \<Rightarrow> replay_record" where
  "reserved_record now k request =
     \<lparr>rr_schema = REPLAY_RECORD_SCHEMA_VERSION, rr_key_hash = k, rr_request = request, rr_status = Reserved,
      rr_created = now, rr_updated = now, rr_response = None, rr_post_image = None\<rparr>"

definition with_status_and_response :: "nat \<Rightarrow> replay_status \<Rightarrow> string option \<Rightarrow> replay_record \<Rightarrow> replay_record" where
  "with_status_and_response now status response r = r\<lparr>rr_status := status, rr_updated := now, rr_response := response\<rparr>"

definition validate_replay_response :: "(string \<Rightarrow> bool) \<Rightarrow> string \<Rightarrow> (idempotency_error, unit) result" where
  "validate_replay_response clean response =
     (if length response > MAX_REPLAY_RESPONSE_BYTES then Err ResponseTooLarge
      else if \<not> clean response then Err UnsafeResponse
      else Ok ())"

fun valid_transition :: "replay_status \<Rightarrow> replay_status \<Rightarrow> bool" where
  "valid_transition Reserved Started = True"
| "valid_transition Reserved Completed = True"
| "valid_transition Reserved Failed = True"
| "valid_transition Started Completed = True"
| "valid_transition Started Uncertain = True"
| "valid_transition _ _ = False"

definition ensure_same_hash :: "replay_record \<Rightarrow> string \<Rightarrow> (idempotency_error, unit) result" where
  "ensure_same_hash r incoming =
     (if rr_request r = incoming then Ok () else Err (RequestConflict (rr_key_hash r) (rr_request r) incoming))"

definition replay_response :: "(string \<Rightarrow> bool) \<Rightarrow> replay_record \<Rightarrow> string" where
  "replay_response clean r =
     (let unavailable = ''Error: Idempotency replay unavailable: ''
      in case (rr_status r, rr_response r) of
           (Reserved, _) \<Rightarrow> unavailable @ ''request for key hash '' @ rr_key_hash r @ '' is still reserved.''
         | (Started, _) \<Rightarrow> unavailable @ ''request for key hash '' @ rr_key_hash r @ '' requires reconciliation.''
         | (Uncertain, _) \<Rightarrow> unavailable @ ''request for key hash '' @ rr_key_hash r @ '' requires reconciliation.''
         | (status, Some response) \<Rightarrow>
             (case validate_replay_response clean response of
                Ok _ \<Rightarrow> response
              | Err _ \<Rightarrow> unavailable @ ''persisted response requires reconciliation.'')
         | (status, None) \<Rightarrow>
             unavailable @ ''record for key hash '' @ rr_key_hash r @ '' has status ''
               @ (if status = Completed then ''Completed'' else ''Failed'') @ '' but no stored response.'')"

definition RECONCILE :: string where
  "RECONCILE = ''Error: Idempotency replay unavailable: stored operation requires reconciliation.''"

section \<open>The store\<close>

record replay_disk =
  rd_dirs :: "(string, bytes option) hmap"
  rd_claims :: "string list"
  rd_superseding :: "(string, nat) hmap"
  rd_quarantine :: "(string, bytes) hmap"

datatype fault = Fine | Refused | RefusedAfter

definition disk_new :: replay_disk where
  "disk_new = \<lparr>rd_dirs = [], rd_claims = [], rd_superseding = [], rd_quarantine = []\<rparr>"

text \<open>\<open>Path::exists\<close> answers no when the metadata cannot be read.\<close>

definition key_dir_exists :: "fault \<Rightarrow> string \<Rightarrow> replay_disk \<Rightarrow> bool" where
  "key_dir_exists fault k d \<longleftrightarrow> fault = Fine \<and> hget (rd_dirs d) k \<noteq> None"

definition marker_exists :: "fault \<Rightarrow> string \<Rightarrow> replay_disk \<Rightarrow> bool" where
  "marker_exists fault k d \<longleftrightarrow> fault = Fine \<and> k \<in> set (rd_claims d)"

datatype loaded = Loaded replay_record | LoadFailed idempotency_error | Corrupt bytes

definition read_record :: "codec \<Rightarrow> fault \<Rightarrow> string \<Rightarrow> replay_disk \<Rightarrow> loaded" where
  "read_record codec fault k d =
     (if fault \<noteq> Fine then LoadFailed ReplayIo
      else case hget (rd_dirs d) k of
             None \<Rightarrow> LoadFailed (IncompleteReservation k)
           | Some None \<Rightarrow> LoadFailed (IncompleteReservation k)
           | Some (Some bytes) \<Rightarrow>
               (case c_dec codec bytes of
                  None \<Rightarrow> Corrupt bytes
                | Some r \<Rightarrow> (if rr_schema r \<noteq> REPLAY_RECORD_SCHEMA_VERSION \<or> rr_key_hash r \<noteq> k then Corrupt bytes else Loaded r)))"

definition quarantine_name :: "string \<Rightarrow> nat \<Rightarrow> nat \<Rightarrow> string" where
  "quarantine_name k stamp attempt =
     k @ ''-'' @ decimal stamp @ (if attempt = 0 then [] else ''-'' @ decimal attempt) @ ''.json''"

definition next_quarantine_path :: "string \<Rightarrow> nat \<Rightarrow> replay_disk \<Rightarrow> string" where
  "next_quarantine_path k stamp d =
     (case find (\<lambda>attempt. hget (rd_quarantine d) (quarantine_name k stamp attempt) = None) [0..<100] of
        Some attempt \<Rightarrow> quarantine_name k stamp attempt
      | None \<Rightarrow> k @ ''-'' @ decimal stamp @ ''-overflow.json'')"

text \<open>The file that is moved is the one at the path now, which need not be the one that was read.\<close>

definition quarantine_record :: "fault \<Rightarrow> nat \<Rightarrow> string \<Rightarrow> replay_disk \<Rightarrow> replay_disk \<times> idempotency_error" where
  "quarantine_record fault now k d =
     (let path = next_quarantine_path k now d
      in case hget (rd_dirs d) k of
           Some (Some bytes) \<Rightarrow>
             (if fault \<noteq> Fine then (d, CorruptRecord k)
              else (d\<lparr>rd_dirs := hinsert k None (rd_dirs d), rd_quarantine := hinsert path bytes (rd_quarantine d)\<rparr>,
                    CorruptRecordQuarantined k path))
         | _ \<Rightarrow> (d, CorruptRecord k))"

section \<open>The calls, one file-system operation at a time\<close>

datatype replay_decision = FirstExecution replay_record | Replay replay_record

type_synonym reservation = "(idempotency_error, replay_decision) result"

datatype update = SetStatus replay_status "string option" | SetReceipt string post_image

type_synonym updated = "(idempotency_error, replay_record) result"

datatype point =
    Probe
  | Load bool
  | Quarantine bool
  | Stage
  | Claim replay_record bytes
  | WriteClaim replay_record bytes
  | Recheck replay_record bytes
  | Publish replay_record bytes
  | PublishFailed
  | Wait
  | WaitMarker
  | Release reservation
  | Returned reservation
  | Update update
  | UpdateLoad update
  | UpdateQuarantine
  | UpdateWrite replay_record
  | UpdateDone updated

text \<open>What a loaded record answers, inside the claim (which is then released) or outside.\<close>

definition leave :: "bool \<Rightarrow> reservation \<Rightarrow> point" where
  "leave claimed r = (if claimed then Release r else Returned r)"

definition replay_loaded :: "string \<Rightarrow> replay_record \<Rightarrow> reservation" where
  "replay_loaded request r = (case ensure_same_hash r request of Err e \<Rightarrow> Err e | Ok _ \<Rightarrow> Ok (Replay r))"

definition apply_update :: "nat \<Rightarrow> update \<Rightarrow> string \<Rightarrow> replay_record \<Rightarrow> (idempotency_error, replay_record) result" where
  "apply_update now u request r =
     (case ensure_same_hash r request of
        Err e \<Rightarrow> Err e
      | Ok _ \<Rightarrow>
          (case u of
             SetStatus status response \<Rightarrow>
               (if valid_transition (rr_status r) status then Ok (with_status_and_response now status response r) else Err InvalidTransition)
           | SetReceipt response receipt \<Rightarrow>
               (if rr_status r = Reserved \<or> rr_status r = Started
                then Ok ((with_status_and_response now Completed (Some response) r)\<lparr>rr_post_image := Some receipt\<rparr>)
                else Err InvalidTransition)))"

definition update_response :: "update \<Rightarrow> string option" where
  "update_response u = (case u of SetStatus _ response \<Rightarrow> response | SetReceipt response _ \<Rightarrow> Some response)"

fun replay_next ::
  "codec \<Rightarrow> (string \<Rightarrow> bool) \<Rightarrow> fault \<Rightarrow> bool \<Rightarrow> nat \<Rightarrow> string \<Rightarrow> string \<Rightarrow> point \<Rightarrow> replay_disk \<Rightarrow> point \<times> replay_disk" where
  "replay_next codec clean fault timeout now k request Probe d =
     (if key_dir_exists fault k d then Load False else Stage, d)"
| "replay_next codec clean fault timeout now k request (Load claimed) d =
     (case read_record codec fault k d of
        Loaded r \<Rightarrow> leave claimed (replay_loaded request r)
      | LoadFailed e \<Rightarrow> leave claimed (Err e)
      | Corrupt _ \<Rightarrow> Quarantine claimed, d)"
| "replay_next codec clean fault timeout now k request (Quarantine claimed) d =
     (case quarantine_record fault now k d of (d, e) \<Rightarrow> (leave claimed (Err e), d))"
| "replay_next codec clean fault timeout now k request Stage d =
     (let r = reserved_record now k request
      in if fault \<noteq> Fine then Returned (Err ReplayIo) else Claim r (c_enc codec r), d)"
| "replay_next codec clean fault timeout now k request (Claim r staged) d =
     (if fault \<noteq> Fine then (Returned (Err ReplayIo), d)
      else if k \<in> set (rd_claims d) then (Wait, d)
      else (WriteClaim r staged, d\<lparr>rd_claims := k # rd_claims d\<rparr>))"
| "replay_next codec clean fault timeout now k request (WriteClaim r staged) d =
     (if fault \<noteq> Fine then Returned (Err ReplayIo) else Recheck r staged, d)"
| "replay_next codec clean fault timeout now k request (Recheck r staged) d =
     (if key_dir_exists fault k d then Load True else Publish r staged, d)"
| "replay_next codec clean fault timeout now k request (Publish r staged) d =
     (if fault \<noteq> Fine then (PublishFailed, d)
      else case hget (rd_dirs d) k of
             Some (Some _) \<Rightarrow> (PublishFailed, d)
           | _ \<Rightarrow> (Release (Ok (FirstExecution r)), d\<lparr>rd_dirs := hinsert k (Some staged) (rd_dirs d)\<rparr>))"
| "replay_next codec clean fault timeout now k request PublishFailed d =
     (if key_dir_exists fault k d then Load True else Release (Err ReplayIo), d)"
| "replay_next codec clean fault timeout now k request Wait d =
     (if key_dir_exists fault k d then Load False else WaitMarker, d)"
| "replay_next codec clean fault timeout now k request WaitMarker d =
     (if \<not> marker_exists fault k d \<or> timeout then Returned (Err (Publishing k)) else Wait, d)"
| "replay_next codec clean fault timeout now k request (Release r) d =
     (Returned r, if fault \<noteq> Fine then d else d\<lparr>rd_claims := removeAll k (rd_claims d)\<rparr>)"
| "replay_next codec clean fault timeout now k request (Returned r) d = (Returned r, d)"
| "replay_next codec clean fault timeout now k request (Update u) d =
     (case update_response u of
        None \<Rightarrow> UpdateLoad u
      | Some response \<Rightarrow>
          (case validate_replay_response clean response of Err e \<Rightarrow> UpdateDone (Err e) | Ok _ \<Rightarrow> UpdateLoad u), d)"
| "replay_next codec clean fault timeout now k request (UpdateLoad u) d =
     (case read_record codec fault k d of
        Loaded r \<Rightarrow> (case apply_update now u request r of Err e \<Rightarrow> UpdateDone (Err e) | Ok r \<Rightarrow> UpdateWrite r)
      | LoadFailed e \<Rightarrow> UpdateDone (Err e)
      | Corrupt _ \<Rightarrow> UpdateQuarantine, d)"
| "replay_next codec clean fault timeout now k request UpdateQuarantine d =
     (case quarantine_record fault now k d of (d, e) \<Rightarrow> (UpdateDone (Err e), d))"
| "replay_next codec clean fault timeout now k request (UpdateWrite r) d =
     (if fault = Refused then (UpdateDone (Err ReplayIo), d)
      else (UpdateDone (if fault = Fine then Ok r else Err ReplayIo),
            d\<lparr>rd_dirs := hinsert (rr_key_hash r) (Some (c_enc codec r)) (rd_dirs d)\<rparr>))"
| "replay_next codec clean fault timeout now k request (UpdateDone r) d = (UpdateDone r, d)"

section \<open>Whole calls\<close>

text \<open>
  A call from a point to its end. Before its \<open>i\<close>-th operation the rest of the world has changed the store by
  \<open>env i\<close>; \<open>faults\<close> and \<open>timeouts\<close> say which operations fail and when the deadline has passed.
\<close>

primrec run_call ::
  "codec \<Rightarrow> (string \<Rightarrow> bool) \<Rightarrow> (nat \<Rightarrow> fault) \<Rightarrow> (nat \<Rightarrow> bool) \<Rightarrow> (nat \<Rightarrow> replay_disk \<Rightarrow> replay_disk) \<Rightarrow> nat \<Rightarrow> string \<Rightarrow> string \<Rightarrow>
   nat \<Rightarrow> point \<Rightarrow> replay_disk \<Rightarrow> point \<times> replay_disk" where
  "run_call codec clean faults timeouts env now k request 0 p d = (p, d)"
| "run_call codec clean faults timeouts env now k request (Suc n) p d =
     (case replay_next codec clean (faults 0) (timeouts 0) now k request p (env 0 d) of
        (p, d) \<Rightarrow> run_call codec clean (\<lambda>i. faults (Suc i)) (\<lambda>i. timeouts (Suc i)) (\<lambda>i. env (Suc i)) now k request n p d)"

text \<open>The longest way through either call has ten operations; a call on its own is run with no faults.\<close>

definition CALL_STEPS :: nat where
  "CALL_STEPS = 10"

definition run_alone :: "codec \<Rightarrow> (string \<Rightarrow> bool) \<Rightarrow> nat \<Rightarrow> string \<Rightarrow> string \<Rightarrow> point \<Rightarrow> replay_disk \<Rightarrow> point \<times> replay_disk" where
  "run_alone codec clean now k request p d =
     run_call codec clean (\<lambda>_. Fine) (\<lambda>_. True) (\<lambda>_ d. d) now k request CALL_STEPS p d"

definition check_or_reserve :: "codec \<Rightarrow> (string \<Rightarrow> bool) \<Rightarrow> nat \<Rightarrow> string \<Rightarrow> string \<Rightarrow> replay_disk \<Rightarrow> (replay_disk \<times> reservation) option" where
  "check_or_reserve codec clean now k request d =
     (case run_alone codec clean now k request Probe d of (Returned r, d) \<Rightarrow> Some (d, r) | _ \<Rightarrow> None)"

definition run_update :: "codec \<Rightarrow> (string \<Rightarrow> bool) \<Rightarrow> nat \<Rightarrow> string \<Rightarrow> string \<Rightarrow> update \<Rightarrow> replay_disk \<Rightarrow> (replay_disk \<times> updated) option" where
  "run_update codec clean now k request u d =
     (case run_alone codec clean now k request (Update u) d of (UpdateDone r, d) \<Rightarrow> Some (d, r) | _ \<Rightarrow> None)"

definition update_status_with_response where
  "update_status_with_response codec clean now k request status response = run_update codec clean now k request (SetStatus status response)"

definition update_status where
  "update_status codec clean now k request status = update_status_with_response codec clean now k request status None"

definition update_status_with_receipt where
  "update_status_with_receipt codec clean now k request response receipt = run_update codec clean now k request (SetReceipt response receipt)"

definition mark_started where
  "mark_started codec clean now k request = update_status codec clean now k request Started"

definition mark_uncertain where
  "mark_uncertain codec clean now k request = update_status codec clean now k request Uncertain"

definition complete where
  "complete codec clean now k request response = update_status_with_response codec clean now k request Completed (Some response)"

definition fail where
  "fail codec clean now k request response = update_status_with_response codec clean now k request Failed (Some response)"

definition complete_with_post_image ::
  "codec \<Rightarrow> (string \<Rightarrow> bool) \<Rightarrow> nat \<Rightarrow> string \<Rightarrow> string \<Rightarrow> string \<Rightarrow> post_image option \<Rightarrow> replay_disk \<Rightarrow> (replay_disk \<times> updated) option" where
  "complete_with_post_image codec clean now k request response receipt d =
     (case receipt of
        None \<Rightarrow> Some (d, Err ReceiptRequired)
      | Some img \<Rightarrow>
          (if pi_targets img = [] then Some (d, Err ReceiptRequired)
           else update_status_with_receipt codec clean now k request response img d))"

definition load_existing :: "codec \<Rightarrow> nat \<Rightarrow> string \<Rightarrow> replay_disk \<Rightarrow> replay_disk \<times> updated" where
  "load_existing codec now k d =
     (case read_record codec Fine k d of
        Loaded r \<Rightarrow> (d, Ok r)
      | LoadFailed e \<Rightarrow> (d, Err e)
      | Corrupt _ \<Rightarrow> (case quarantine_record Fine now k d of (d, e) \<Rightarrow> (d, Err e)))"

definition replay_if_present :: "codec \<Rightarrow> nat \<Rightarrow> string \<Rightarrow> string \<Rightarrow> replay_disk \<Rightarrow> replay_disk \<times> (idempotency_error, replay_record option) result" where
  "replay_if_present codec now k request d =
     (if \<not> key_dir_exists Fine k d
      then (d, if marker_exists Fine k d then Err (Publishing k) else Ok None)
      else case load_existing codec now k d of
             (d, Err e) \<Rightarrow> (d, Err e)
           | (d, Ok r) \<Rightarrow> (d, case ensure_same_hash r request of Err e \<Rightarrow> Err e | Ok _ \<Rightarrow> Ok (Some r)))"

section \<open>Supersede markers\<close>

definition SUPERSEDE_MARKER_STALE :: nat where
  "SUPERSEDE_MARKER_STALE = 60"

definition try_claim_supersede :: "nat \<Rightarrow> string \<Rightarrow> replay_disk \<Rightarrow> replay_disk \<times> (idempotency_error, bool) result" where
  "try_claim_supersede now k d =
     (case hget (rd_superseding d) k of
        None \<Rightarrow> (d\<lparr>rd_superseding := hinsert k now (rd_superseding d)\<rparr>, Ok True)
      | Some modified \<Rightarrow>
          (if modified \<le> now \<and> now - modified > SUPERSEDE_MARKER_STALE
           then d\<lparr>rd_superseding := hremove k (rd_superseding d)\<rparr> else d, Ok False))"

definition release_supersede :: "string \<Rightarrow> replay_disk \<Rightarrow> replay_disk" where
  "release_supersede k d = d\<lparr>rd_superseding := hremove k (rd_superseding d)\<rparr>"

section \<open>Replay verified against the source\<close>

text \<open>A source as verification sees it: its root, its binding if its key is stable, and its anchored reads.\<close>

record replay_source =
  so_root :: "name list"
  so_binding :: "source_binding option"
  so_digest :: "name list \<Rightarrow> string option option"

definition MAX_BOUND_REPLAY_TARGETS :: nat where
  "MAX_BOUND_REPLAY_TARGETS = 4096"

definition strip_root :: "name list \<Rightarrow> name list \<Rightarrow> name list option" where
  "strip_root root path = (if take (length root) path = root then Some (drop (length root) path) else None)"

text \<open>\<open>max_by_key\<close> keeps the last of equal maxima.\<close>

fun deepest :: "name list \<Rightarrow> replay_source list \<Rightarrow> (replay_source \<times> name list) option" where
  "deepest path [] = None"
| "deepest path (s # ss) =
     (case strip_root (so_root s) path of
        None \<Rightarrow> deepest path ss
      | Some rel \<Rightarrow>
          (case deepest path ss of
             None \<Rightarrow> Some (s, rel)
           | Some (t, rel') \<Rightarrow> (if length (so_root s) \<le> length (so_root t) then Some (t, rel') else Some (s, rel))))"

definition verify_post_image_bound :: "(name list \<Rightarrow> replay_source) \<Rightarrow> replay_source \<Rightarrow> post_image \<Rightarrow> bool" where
  "verify_post_image_bound authority source receipt \<longleftrightarrow>
     (case pi_source receipt of
        None \<Rightarrow> False
      | Some binding \<Rightarrow>
          pi_targets receipt \<noteq> [] \<and> length (pi_targets receipt) \<le> MAX_BOUND_REPLAY_TARGETS \<and> so_binding source = Some binding \<and>
          list_all (\<lambda>l. so_binding (authority (ln_root l)) = Some (ln_binding l)) (pi_linked receipt) \<and>
          list_all (\<lambda>t. case deepest (pit_path t) (source # map (\<lambda>l. authority (ln_root l)) (pi_linked receipt)) of
                          None \<Rightarrow> False
                        | Some (owner, relative) \<Rightarrow> so_digest owner relative = Some (pit_digest t))
            (pi_targets receipt))"

definition bind_post_image_to_sources ::
  "(name list \<Rightarrow> replay_source) \<Rightarrow> post_image \<Rightarrow> replay_source \<Rightarrow> replay_source list \<Rightarrow> post_image option" where
  "bind_post_image_to_sources authority receipt source linked =
     (if so_binding source = None \<or> \<not> list_all (\<lambda>l. so_binding l \<noteq> None) linked then None
      else let bound = receipt\<lparr>pi_source := so_binding source,
                               pi_linked := map (\<lambda>l. \<lparr>ln_root = so_root l, ln_binding = the (so_binding l)\<rparr>) linked\<rparr>
           in if verify_post_image_bound authority source bound then Some bound else None)"

definition post_image_from_written_bytes :: "(bytes \<Rightarrow> bytes) \<Rightarrow> name list \<Rightarrow> bytes \<Rightarrow> post_image" where
  "post_image_from_written_bytes sha path bytes =
     \<lparr>pi_targets = [\<lparr>pit_path = path, pit_digest = Some (digest_hex sha bytes)\<rparr>], pi_source = None, pi_linked = []\<rparr>"

datatype read_back = Contents bytes | Absent | Unreadable

fun capture_targets :: "(bytes \<Rightarrow> bytes) \<Rightarrow> (name list \<Rightarrow> read_back) \<Rightarrow> name list list \<Rightarrow> post_image_target list option" where
  "capture_targets sha read [] = Some []"
| "capture_targets sha read (p # ps) =
     (case read p of
        Unreadable \<Rightarrow> None
      | Absent \<Rightarrow> map_option (Cons \<lparr>pit_path = p, pit_digest = None\<rparr>) (capture_targets sha read ps)
      | Contents b \<Rightarrow> map_option (Cons \<lparr>pit_path = p, pit_digest = Some (digest_hex sha b)\<rparr>) (capture_targets sha read ps))"

definition capture_post_image :: "(bytes \<Rightarrow> bytes) \<Rightarrow> (name list \<Rightarrow> read_back) \<Rightarrow> name list list \<Rightarrow> post_image option" where
  "capture_post_image sha read written =
     map_option (\<lambda>ts. \<lparr>pi_targets = ts, pi_source = None, pi_linked = []\<rparr>) (capture_targets sha read written)"

definition verify_post_image :: "(bytes \<Rightarrow> bytes) \<Rightarrow> (name list \<Rightarrow> read_back) \<Rightarrow> post_image \<Rightarrow> bool" where
  "verify_post_image sha read receipt \<longleftrightarrow>
     list_all (\<lambda>t. case read (pit_path t) of
                     Contents b \<Rightarrow> pit_digest t = Some (digest_hex sha b)
                   | Absent \<Rightarrow> pit_digest t = None
                   | Unreadable \<Rightarrow> False) (pi_targets receipt)"

datatype replay_start = FirstStart string string | ReplayText string

definition begin_with ::
  "(replay_record \<Rightarrow> string) \<Rightarrow> (bytes \<Rightarrow> bytes) \<Rightarrow> codec \<Rightarrow> (string \<Rightarrow> bool) \<Rightarrow> nat \<Rightarrow> string \<Rightarrow> (idempotency_error, string) result \<Rightarrow> replay_disk \<Rightarrow>
   (replay_disk \<times> (idempotency_error, replay_start) result) option" where
  "begin_with answer sha codec clean now raw_key request_hash d =
     (case (key_new raw_key, request_hash) of
        (Err e, _) \<Rightarrow> Some (d, Err e)
      | (Ok key, Err e) \<Rightarrow> Some (d, Err e)
      | (Ok key, Ok request) \<Rightarrow>
          (case check_or_reserve codec clean now (key_hash sha key) request d of
             None \<Rightarrow> None
           | Some (d, Err e) \<Rightarrow> Some (d, Err e)
           | Some (d, Ok (FirstExecution _)) \<Rightarrow> Some (d, Ok (FirstStart (key_hash sha key) request))
           | Some (d, Ok (Replay r)) \<Rightarrow> Some (d, Ok (ReplayText (answer r)))))"

definition verified_answer :: "(string \<Rightarrow> bool) \<Rightarrow> (post_image \<Rightarrow> bool) \<Rightarrow> replay_record \<Rightarrow> string" where
  "verified_answer clean verify r =
     (if rr_status r = Completed \<and> (case rr_post_image r of None \<Rightarrow> False | Some img \<Rightarrow> verify img)
      then replay_response clean r else RECONCILE)"

definition begin_tool_replay where
  "begin_tool_replay sha to_vec codec clean now tool raw_key request =
     begin_with (replay_response clean) sha codec clean now raw_key (for_tool_request sha to_vec tool request)"

definition begin_index_folder_replay where
  "begin_index_folder_replay sha to_vec codec clean now project_id raw_key reset allow_protected activate =
     begin_with (replay_response clean) sha codec clean now raw_key
       (index_folder_request_hash sha to_vec project_id reset allow_protected activate)"

definition begin_tool_replay_verified_with where
  "begin_tool_replay_verified_with sha to_vec codec clean verify now tool raw_key request =
     begin_with (verified_answer clean verify) sha codec clean now raw_key (for_tool_request sha to_vec tool request)"

definition begin_tool_replay_verified where
  "begin_tool_replay_verified sha to_vec codec clean = begin_tool_replay_verified_with sha to_vec codec clean (\<lambda>_. False)"

definition begin_tool_replay_verified_bound where
  "begin_tool_replay_verified_bound authority source sha to_vec codec clean =
     begin_tool_replay_verified_with sha to_vec codec clean (verify_post_image_bound authority source)"

definition probe_with ::
  "(replay_record \<Rightarrow> string) \<Rightarrow> (bytes \<Rightarrow> bytes) \<Rightarrow> codec \<Rightarrow> nat \<Rightarrow> string \<Rightarrow> (idempotency_error, string) result \<Rightarrow> replay_disk \<Rightarrow>
   replay_disk \<times> (idempotency_error, string option) result" where
  "probe_with answer sha codec now raw_key request_hash d =
     (case (key_new raw_key, request_hash) of
        (Err e, _) \<Rightarrow> (d, Err e)
      | (Ok key, Err e) \<Rightarrow> (d, Err e)
      | (Ok key, Ok request) \<Rightarrow>
          (case replay_if_present codec now (key_hash sha key) request d of
             (d, Err e) \<Rightarrow> (d, Err e)
           | (d, Ok found) \<Rightarrow> (d, Ok (map_option answer found))))"

definition probe_tool_replay where
  "probe_tool_replay sha to_vec codec clean now tool raw_key request =
     probe_with (replay_response clean) sha codec now raw_key (for_tool_request sha to_vec tool request)"

definition probe_tool_replay_verified_with where
  "probe_tool_replay_verified_with sha to_vec codec clean verify now tool raw_key request =
     probe_with (verified_answer clean verify) sha codec now raw_key (for_tool_request sha to_vec tool request)"

definition probe_tool_replay_verified_bound where
  "probe_tool_replay_verified_bound authority source sha to_vec codec clean =
     probe_tool_replay_verified_with sha to_vec codec clean (verify_post_image_bound authority source)"

section \<open>All processes on one store\<close>

text \<open>
  Calls of any number of processes, interleaved operation by operation. A call may start at any time and
  its process may die before any operation. The holder of a first execution updates its record, one
  update after the other. \<open>ry_first\<close> records the keys whose first execution was granted and \<open>ry_moved\<close> those
  whose record was quarantined. With \<open>stat_ok\<close> the existence checks of a key's directory do not fail; with
  \<open>rot\<close> anything outside may overwrite record files.
\<close>

record replay_proc =
  pr_key :: string
  pr_request :: string
  pr_at :: point

record replay_system =
  ry_disk :: replay_disk
  ry_procs :: "replay_proc list"
  ry_first :: "string list"
  ry_moved :: "string list"

fun is_stat :: "point \<Rightarrow> bool" where
  "is_stat Probe = True"
| "is_stat (Recheck _ _) = True"
| "is_stat PublishFailed = True"
| "is_stat Wait = True"
| "is_stat _ = False"

fun is_first :: "reservation \<Rightarrow> bool" where
  "is_first (Inr (FirstExecution _)) = True"
| "is_first _ = False"

fun holds_first :: "point \<Rightarrow> bool" where
  "holds_first (Release r) = is_first r"
| "holds_first (Returned r) = is_first r"
| "holds_first (Update _) = True"
| "holds_first (UpdateLoad _) = True"
| "holds_first UpdateQuarantine = True"
| "holds_first (UpdateWrite _) = True"
| "holds_first (UpdateDone _) = True"
| "holds_first _ = False"

fun may_update :: "point \<Rightarrow> bool" where
  "may_update (Returned r) = is_first r"
| "may_update (UpdateDone _) = True"
| "may_update _ = False"

fun in_claim :: "point \<Rightarrow> bool" where
  "in_claim (WriteClaim _ _) = True"
| "in_claim (Recheck _ _) = True"
| "in_claim (Publish _ _) = True"
| "in_claim PublishFailed = True"
| "in_claim (Load claimed) = claimed"
| "in_claim (Quarantine claimed) = claimed"
| "in_claim (Release _) = True"
| "in_claim _ = False"

definition moved_aside :: "string \<Rightarrow> replay_disk \<Rightarrow> bool" where
  "moved_aside k d \<longleftrightarrow> hget (rd_dirs d) k = Some None"

definition settle :: "nat \<Rightarrow> point \<Rightarrow> replay_disk \<Rightarrow> replay_system \<Rightarrow> replay_system" where
  "settle i pt d s =
     (let p = ry_procs s ! i in
      s\<lparr>ry_disk := d, ry_procs := (ry_procs s)[i := p\<lparr>pr_at := pt\<rparr>],
        ry_first := (if holds_first pt \<and> \<not> holds_first (pr_at p) then pr_key p # ry_first s else ry_first s),
        ry_moved := (if moved_aside (pr_key p) d then pr_key p # ry_moved s else ry_moved s)\<rparr>)"

definition at_key :: "(point \<Rightarrow> bool) \<Rightarrow> string \<Rightarrow> replay_proc list \<Rightarrow> nat" where
  "at_key P k ps = length (filter (\<lambda>p. pr_key p = k \<and> P (pr_at p)) ps)"

inductive replay_step :: "codec \<Rightarrow> (string \<Rightarrow> bool) \<Rightarrow> bool \<Rightarrow> bool \<Rightarrow> replay_system \<Rightarrow> replay_system \<Rightarrow> bool"
  for codec clean stat_ok rot where
  ry_call: "replay_step codec clean stat_ok rot s (s\<lparr>ry_procs := ry_procs s @ [\<lparr>pr_key = k, pr_request = request, pr_at = Probe\<rparr>]\<rparr>)"
| ry_run: "i < length (ry_procs s) \<Longrightarrow> p = ry_procs s ! i \<Longrightarrow> \<not> stat_ok \<or> \<not> is_stat (pr_at p) \<or> fault = Fine \<Longrightarrow>
    replay_next codec clean fault timeout now (pr_key p) (pr_request p) (pr_at p) (ry_disk s) = (pt, d) \<Longrightarrow>
    replay_step codec clean stat_ok rot s (settle i pt d s)"
| ry_update: "i < length (ry_procs s) \<Longrightarrow> may_update (pr_at (ry_procs s ! i)) \<Longrightarrow>
    replay_step codec clean stat_ok rot s (settle i (Update u) (ry_disk s) s)"
| ry_crash: "i < length (ry_procs s) \<Longrightarrow>
    replay_step codec clean stat_ok rot s (s\<lparr>ry_procs := take i (ry_procs s) @ drop (Suc i) (ry_procs s)\<rparr>)"
| ry_rot: "rot \<Longrightarrow> hget (rd_dirs (ry_disk s)) k = Some (Some b) \<Longrightarrow>
    replay_step codec clean stat_ok rot s (s\<lparr>ry_disk := (ry_disk s)\<lparr>rd_dirs := hinsert k (Some b') (rd_dirs (ry_disk s))\<rparr>\<rparr>)"

definition replay_init :: "replay_system \<Rightarrow> bool" where
  "replay_init s \<longleftrightarrow> ry_disk s = disk_new \<and> ry_procs s = [] \<and> ry_first s = [] \<and> ry_moved s = []"

lemma at_key_simps [simp]: "at_key P k [] = 0"
    "at_key P k (ps @ qs) = at_key P k ps + at_key P k qs"
    "at_key P k (p # ps) = (if pr_key p = k \<and> P (pr_at p) then 1 else 0) + at_key P k ps"
  by (simp_all add: at_key_def)

lemma at_key_split:
  assumes "i < length ps"
  shows "at_key P k ps = at_key P k (take i ps @ drop (Suc i) ps) + (if pr_key (ps ! i) = k \<and> P (pr_at (ps ! i)) then 1 else 0)"
    and "at_key P k (ps[i := p]) = at_key P k (take i ps @ drop (Suc i) ps) + (if pr_key p = k \<and> P (pr_at p) then 1 else 0)"
proof -
  have "at_key P k ps = at_key P k (take i ps @ ps ! i # drop (Suc i) ps)" by (simp only: id_take_nth_drop [OF assms, symmetric])
  then show "at_key P k ps = at_key P k (take i ps @ drop (Suc i) ps) + (if pr_key (ps ! i) = k \<and> P (pr_at (ps ! i)) then 1 else 0)" by simp
  show "at_key P k (ps[i := p]) = at_key P k (take i ps @ drop (Suc i) ps) + (if pr_key p = k \<and> P (pr_at p) then 1 else 0)"
    using assms by (simp add: upd_conv_take_nth_drop)
qed

lemma at_key_pos: "p \<in> set ps \<Longrightarrow> P (pr_at p) \<Longrightarrow> 0 < at_key P (pr_key p) ps"
  by (induction ps) auto

lemma at_key_le_drop: "at_key P k (take i ps @ drop (Suc i) ps) \<le> at_key P k ps"
  by (cases "i < length ps") (use at_key_split(1) [of i ps P k] in simp_all)

text \<open>What one operation does to directories and claims.\<close>

lemma next_dirs:
  assumes "replay_next codec clean fault timeout now k request p d = (pt, d')"
  shows "rd_dirs d' = rd_dirs d \<or> (\<exists>bytes. hget (rd_dirs d) k = Some (Some bytes) \<and> rd_dirs d' = hinsert k None (rd_dirs d)) \<or>
    (\<exists>r staged. p = Publish r staged \<and> (hget (rd_dirs d) k = None \<or> hget (rd_dirs d) k = Some None) \<and>
       rd_dirs d' = hinsert k (Some staged) (rd_dirs d) \<and> pt = Release (Ok (FirstExecution r))) \<or>
    (\<exists>r. p = UpdateWrite r \<and> rd_dirs d' = hinsert (rr_key_hash r) (Some (c_enc codec r)) (rd_dirs d))"
  using assms
  by (cases p) (auto simp: quarantine_record_def Let_def split: if_splits option.splits)

lemma next_claims:
  assumes "replay_next codec clean fault timeout now k request p d = (pt, d')"
  shows "(rd_claims d' = rd_claims d \<and> (in_claim pt \<longrightarrow> in_claim p)) \<or>
    (k \<notin> set (rd_claims d) \<and> rd_claims d' = k # rd_claims d \<and> in_claim pt \<and> \<not> in_claim p) \<or>
    (in_claim p \<and> \<not> in_claim pt \<and> rd_claims d' = removeAll k (rd_claims d))"
  using assms
  by (cases p) (auto simp: leave_def quarantine_record_def Let_def split: if_splits option.splits loaded.splits sum.splits prod.splits)

lemma next_first:
  assumes "replay_next codec clean fault timeout now k request p d = (pt, d')"
  shows "holds_first pt \<longleftrightarrow> holds_first p \<or> (\<exists>r staged. p = Publish r staged \<and> pt = Release (Ok (FirstExecution r)))"
  using assms
  by (cases p) (auto simp: leave_def replay_loaded_def quarantine_record_def Let_def
      split: if_splits option.splits loaded.splits sum.splits prod.splits)

section \<open>One first execution per key\<close>

definition replay_inv :: "bool \<Rightarrow> replay_system \<Rightarrow> bool" where
  "replay_inv stat_ok s \<longleftrightarrow>
     (\<forall>k \<in> set (ry_first s). hget (rd_dirs (ry_disk s)) k \<noteq> None) \<and>
     (\<forall>k. moved_aside k (ry_disk s) \<longrightarrow> k \<in> set (ry_moved s)) \<and>
     (\<forall>k. count_list (ry_first s) k \<le> 1 \<or> \<not> stat_ok \<and> k \<in> set (ry_moved s)) \<and>
     (\<forall>k. at_key in_claim k (ry_procs s) \<le> (if k \<in> set (rd_claims (ry_disk s)) then 1 else 0)) \<and>
     (\<forall>k. at_key holds_first k (ry_procs s) \<le> count_list (ry_first s) k) \<and>
     (\<forall>p \<in> set (ry_procs s). \<forall>r. pr_at p = UpdateWrite r \<longrightarrow> rr_key_hash r = pr_key p) \<and>
     (\<forall>p \<in> set (ry_procs s). \<forall>r b. stat_ok \<longrightarrow> pr_at p = Publish r b \<longrightarrow> hget (rd_dirs (ry_disk s)) (pr_key p) = None)"

lemma replay_invD:
  assumes "replay_inv stat_ok s"
  shows "k \<in> set (ry_first s) \<Longrightarrow> hget (rd_dirs (ry_disk s)) k \<noteq> None"
    and "moved_aside k (ry_disk s) \<Longrightarrow> k \<in> set (ry_moved s)"
    and "count_list (ry_first s) k \<le> 1 \<or> \<not> stat_ok \<and> k \<in> set (ry_moved s)"
    and "at_key in_claim k (ry_procs s) \<le> (if k \<in> set (rd_claims (ry_disk s)) then 1 else 0)"
    and "at_key holds_first k (ry_procs s) \<le> count_list (ry_first s) k"
    and "p \<in> set (ry_procs s) \<Longrightarrow> pr_at p = UpdateWrite r \<Longrightarrow> rr_key_hash r = pr_key p"
    and "p \<in> set (ry_procs s) \<Longrightarrow> stat_ok \<Longrightarrow> pr_at p = Publish r b \<Longrightarrow> hget (rd_dirs (ry_disk s)) (pr_key p) = None"
  using assms unfolding replay_inv_def by blast+

lemma next_write: "replay_next codec clean fault timeout now k request p d = (UpdateWrite r, d') \<Longrightarrow> rr_key_hash r = k"
  by (cases p) (auto simp: leave_def apply_update_def read_record_def ensure_same_hash_def with_status_and_response_def quarantine_record_def Let_def
      split: if_splits option.splits loaded.splits sum.splits prod.splits update.splits)

lemma next_publish: "replay_next codec clean fault timeout now k request p d = (Publish r b, d') \<Longrightarrow>
    p = Recheck r b \<and> d' = d \<and> \<not> key_dir_exists fault k d"
  by (cases p) (auto simp: leave_def quarantine_record_def Let_def split: if_splits option.splits loaded.splits sum.splits prod.splits)

lemma set_update_rest: "i < length ps \<Longrightarrow> set (ps[i := p]) = insert p (set (take i ps @ drop (Suc i) ps))"
  by (simp add: upd_conv_take_nth_drop)

lemma set_rest: "set (take i ps @ drop (Suc i) ps) \<subseteq> set ps"
  using set_take_subset [of i ps] set_drop_subset [of "Suc i" ps] by auto

lemma settle_procs:
  assumes "i < length (ry_procs s)" "q \<in> set (ry_procs (settle i pt d s))"
  shows "q = (ry_procs s ! i)\<lparr>pr_at := pt\<rparr> \<or> q \<in> set (ry_procs s)"
proof -
  have "q \<in> set ((ry_procs s)[i := (ry_procs s ! i)\<lparr>pr_at := pt\<rparr>])" using assms(2) by (simp add: settle_def Let_def)
  then show ?thesis unfolding set_update_rest [OF assms(1)] using set_rest [of i "ry_procs s"] by blast
qed

text \<open>A granted key has its directory, and one is granted only where none was, or where its record was moved aside.\<close>

lemma run_first:
  assumes inv: "replay_inv stat_ok s" and i: "i < length (ry_procs s)" and p: "p = ry_procs s ! i"
    and n: "replay_next codec clean fault timeout now (pr_key p) (pr_request p) (pr_at p) (ry_disk s) = (pt, d)"
  shows "k \<in> set (ry_first (settle i pt d s)) \<Longrightarrow> hget (rd_dirs d) k \<noteq> None"
    and "moved_aside k d \<Longrightarrow> k \<in> set (ry_moved (settle i pt d s))"
    and "count_list (ry_first (settle i pt d s)) k \<le> 1 \<or> \<not> stat_ok \<and> k \<in> set (ry_moved (settle i pt d s))"
    and "at_key holds_first k (ry_procs (settle i pt d s)) \<le> count_list (ry_first (settle i pt d s)) k"
proof -
  note D = replay_invD [OF inv]
  have ps: "p \<in> set (ry_procs s)" using i p by simp
  have f: "ry_first (settle i pt d s) = (if holds_first pt \<and> \<not> holds_first (pr_at p) then pr_key p # ry_first s else ry_first s)"
    by (simp add: settle_def p Let_def)
  have m: "ry_moved (settle i pt d s) = (if moved_aside (pr_key p) d then pr_key p # ry_moved s else ry_moved s)"
    by (simp add: settle_def p Let_def)
  have pub: "\<exists>r staged. pr_at p = Publish r staged \<and> (hget (rd_dirs (ry_disk s)) (pr_key p) = None \<or> hget (rd_dirs (ry_disk s)) (pr_key p) = Some None) \<and>
      rd_dirs d = hinsert (pr_key p) (Some staged) (rd_dirs (ry_disk s))" if "holds_first pt" "\<not> holds_first (pr_at p)"
    using next_first [OF n] next_dirs [OF n] that n by (auto split: if_splits option.splits)
  have kh: "rr_key_hash r = pr_key p" if "pr_at p = UpdateWrite r" for r using D(6) [OF ps that] .
  have grow: "hget (rd_dirs d) k \<noteq> None" if "hget (rd_dirs (ry_disk s)) k \<noteq> None" for k
    using next_dirs [OF n] that by (auto simp: hget_hinsert)
  show "hget (rd_dirs d) k \<noteq> None" if "k \<in> set (ry_first (settle i pt d s))"
    using that grow D(1) pub unfolding f by (auto simp: hget_hinsert split: if_splits)
  show "k \<in> set (ry_moved (settle i pt d s))" if "moved_aside k d"
  proof (cases "k = pr_key p")
    case False
    then have "moved_aside k (ry_disk s)" using that next_dirs [OF n] kh by (auto simp: moved_aside_def hget_hinsert split: if_splits)
    then show ?thesis using D(2) m by auto
  qed (use that m in simp)
  show "count_list (ry_first (settle i pt d s)) k \<le> 1 \<or> \<not> stat_ok \<and> k \<in> set (ry_moved (settle i pt d s))"
  proof (cases "holds_first pt \<and> \<not> holds_first (pr_at p) \<and> k = pr_key p")
    case True
    then obtain r staged where r: "pr_at p = Publish r staged"
        "hget (rd_dirs (ry_disk s)) (pr_key p) = None \<or> hget (rd_dirs (ry_disk s)) (pr_key p) = Some None" using pub by blast
    show ?thesis
    proof (cases "hget (rd_dirs (ry_disk s)) (pr_key p)")
      case None
      then have "pr_key p \<notin> set (ry_first s)" using D(1) by blast
      then show ?thesis using True by (simp add: f)
    next
      case (Some x)
      then have "\<not> stat_ok" "moved_aside (pr_key p) (ry_disk s)" using D(7) [OF ps _ r(1)] r(2) by (auto simp: moved_aside_def)
      then show ?thesis using D(2) True m by auto
    qed
  next
    case False
    then show ?thesis using D(3) [of k] by (auto simp: f m)
  qed
  show "at_key holds_first k (ry_procs (settle i pt d s)) \<le> count_list (ry_first (settle i pt d s)) k"
    using D(5) [of k] at_key_split [OF i, of holds_first k] unfolding f
    by (auto simp: settle_def p [symmetric] Let_def next_first [OF n])
qed

lemma run_claims:
  assumes inv: "replay_inv stat_ok s" and i: "i < length (ry_procs s)" and p: "p = ry_procs s ! i"
    and st: "\<not> stat_ok \<or> \<not> is_stat (pr_at p) \<or> fault = Fine"
    and n: "replay_next codec clean fault timeout now (pr_key p) (pr_request p) (pr_at p) (ry_disk s) = (pt, d)"
  shows "at_key in_claim k (ry_procs (settle i pt d s)) \<le> (if k \<in> set (rd_claims d) then 1 else 0)"
    and "q \<in> set (ry_procs (settle i pt d s)) \<Longrightarrow> stat_ok \<Longrightarrow> pr_at q = Publish r b \<Longrightarrow> hget (rd_dirs d) (pr_key q) = None"
proof -
  note D = replay_invD [OF inv]
  have ps: "p \<in> set (ry_procs s)" using i p by simp
  let ?rest = "take i (ry_procs s) @ drop (Suc i) (ry_procs s)"
  have u: "ry_procs (settle i pt d s) = (ry_procs s)[i := p\<lparr>pr_at := pt\<rparr>]" by (simp add: settle_def p Let_def)
  show "at_key in_claim k (ry_procs (settle i pt d s)) \<le> (if k \<in> set (rd_claims d) then 1 else 0)"
    using D(4) [of k] at_key_split [OF i, of in_claim k] next_claims [OF n] unfolding u
    by (auto simp: p [symmetric] split: if_splits)
  assume q: "q \<in> set (ry_procs (settle i pt d s))" and stat_ok and at: "pr_at q = Publish r b"
  show "hget (rd_dirs d) (pr_key q) = None"
  proof (cases "q = p\<lparr>pr_at := pt\<rparr>")
    case True
    then have "pt = Publish r b" using at by simp
    then have "pr_at p = Recheck r b \<and> d = ry_disk s \<and> \<not> key_dir_exists fault (pr_key p) (ry_disk s)" using next_publish n by blast
    then show ?thesis using st \<open>stat_ok\<close> True by (simp add: key_dir_exists_def)
  next
    case False
    then have qr: "q \<in> set ?rest" using q set_update_rest [OF i] unfolding u by blast
    then have old: "hget (rd_dirs (ry_disk s)) (pr_key q) = None" using D(7) [OF _ \<open>stat_ok\<close> at] set_rest [of i "ry_procs s"] by blast
    have "pr_key q \<noteq> pr_key p" if "in_claim (pr_at p)"
    proof
      assume e: "pr_key q = pr_key p"
      have "0 < at_key in_claim (pr_key q) ?rest" using at_key_pos [OF qr, of in_claim] at by simp
      then have "1 < at_key in_claim (pr_key p) (ry_procs s)" using at_key_split(1) [OF i, of in_claim "pr_key p"] that e p by simp
      then show False using D(4) [of "pr_key p"] by (simp split: if_splits)
    qed
    moreover have "pr_key q \<noteq> rr_key_hash r'" if w: "pr_at p = UpdateWrite r'" for r'
    proof -
      have "0 < at_key holds_first (pr_key p) (ry_procs s)" using at_key_pos [OF ps, of holds_first] w by simp
      then have "pr_key p \<in> set (ry_first s)" using D(5) [of "pr_key p"] by (metis count_notin le_zero_eq less_irrefl)
      then show ?thesis using D(1) D(6) [OF ps w] old by metis
    qed
    ultimately show ?thesis using next_dirs [OF n] old by (auto simp: hget_hinsert)
  qed
qed

lemma replay_step_inv: "replay_step codec clean stat_ok rot s t \<Longrightarrow> replay_inv stat_ok s \<Longrightarrow> replay_inv stat_ok t"
proof (induction rule: replay_step.induct)
  case (ry_call s k request)
  then show ?case by (auto simp: replay_inv_def)
next
  case (ry_run i s p fault timeout now pt d)
  note inv = ry_run(5)
  have w: "rr_key_hash r = pr_key q" if "q \<in> set (ry_procs (settle i pt d s))" "pr_at q = UpdateWrite r" for q r
  proof -
    have "q = p\<lparr>pr_at := pt\<rparr> \<or> q \<in> set (ry_procs s)" using settle_procs [OF ry_run(1) that(1)] ry_run(2) by simp
    then consider "q = p\<lparr>pr_at := pt\<rparr>" | "q \<in> set (ry_procs s)" by blast
    then show ?thesis
    proof cases
      case 1
      then show ?thesis using that(2) next_write ry_run(4) by auto
    qed (use replay_invD(6) [OF inv] that(2) in blast)
  qed
  have d: "ry_disk (settle i pt d s) = d" by (simp add: settle_def Let_def)
  show ?case
    unfolding replay_inv_def d
    using run_first [OF inv ry_run(1,2,4)] run_claims [OF inv ry_run(1-4)] w by blast
next
  case (ry_update i s u)
  note D = replay_invD [OF ry_update(3)]
  let ?p = "ry_procs s ! i"
  have o: "holds_first (pr_at ?p)" "\<not> in_claim (pr_at ?p)" using ry_update(2) by (cases "pr_at ?p"; simp)+
  let ?t = "settle i (Update u) (ry_disk s) s"
  have c: "at_key in_claim k (ry_procs ?t) = at_key in_claim k (ry_procs s)"
    "at_key holds_first k (ry_procs ?t) = at_key holds_first k (ry_procs s)" for k
    using at_key_split [OF ry_update(1)] o by (simp_all add: settle_def Let_def)
  have f: "ry_disk ?t = ry_disk s" "ry_first ?t = ry_first s" "set (ry_moved s) \<subseteq> set (ry_moved ?t)"
    using o by (auto simp: settle_def Let_def)
  have old: "q \<in> set (ry_procs s)" if "q \<in> set (ry_procs ?t)" "pr_at q \<noteq> Update u" for q
    using settle_procs [OF ry_update(1) that(1)] that(2) by auto
  show ?case
    unfolding replay_inv_def c f
  proof (intro conjI allI ballI impI)
    fix k show "count_list (ry_first s) k \<le> 1 \<or> \<not> stat_ok \<and> k \<in> set (ry_moved ?t)" using D(3) [of k] f(3) by blast
  next
    fix k assume "moved_aside k (ry_disk s)" then show "k \<in> set (ry_moved ?t)" using D(2) f(3) by blast
  next
    fix q r assume "q \<in> set (ry_procs ?t)" "pr_at q = UpdateWrite r" then show "rr_key_hash r = pr_key q" using D(6) old by simp
  next
    fix q r b assume "q \<in> set (ry_procs ?t)" "stat_ok" "pr_at q = Publish r b"
    then show "hget (rd_dirs (ry_disk s)) (pr_key q) = None" using D(7) old by simp
  qed (use D in auto)
next
  case (ry_crash i s)
  note D = replay_invD [OF ry_crash(2)]
  define rest where "rest = take i (ry_procs s) @ drop (Suc i) (ry_procs s)"
  have le: "at_key P k rest \<le> at_key P k (ry_procs s)" for P k unfolding rest_def by (rule at_key_le_drop)
  have sub: "set rest \<subseteq> set (ry_procs s)" unfolding rest_def by (rule set_rest)
  have t: "s\<lparr>ry_procs := take i (ry_procs s) @ drop (Suc i) (ry_procs s)\<rparr> = s\<lparr>ry_procs := rest\<rparr>" by (simp add: rest_def)
  have "at_key in_claim k rest \<le> (if k \<in> set (rd_claims (ry_disk s)) then 1 else 0)"
    "at_key holds_first k rest \<le> count_list (ry_first s) k" for k
    using le [of in_claim k] le [of holds_first k] D(4,5) [of k] by linarith+
  then show ?case unfolding t replay_inv_def using D sub by (simp add: subset_iff)
next
  case (ry_rot s k b b')
  note D = replay_invD [OF ry_rot(3)]
  show ?case using D ry_rot(2) unfolding replay_inv_def by (auto simp: hget_hinsert moved_aside_def)
qed

interpretation reservation: invariant_system replay_init "replay_step codec clean stat_ok rot" "replay_inv stat_ok"
proof
  fix s show "replay_init s \<Longrightarrow> replay_inv stat_ok s" by (auto simp: replay_init_def replay_inv_def disk_new_def moved_aside_def)
qed (rule replay_step_inv)

section \<open>Records only move forward\<close>

definition codec_ok :: "codec \<Rightarrow> bool" where
  "codec_ok codec \<longleftrightarrow> (\<forall>r. c_dec codec (c_enc codec r) = Some r)"

definition stored :: "codec \<Rightarrow> string \<Rightarrow> replay_disk \<Rightarrow> replay_record option" where
  "stored codec k d = (case hget (rd_dirs d) k of Some (Some b) \<Rightarrow> c_dec codec b | _ \<Rightarrow> None)"

fun progress :: "replay_status \<Rightarrow> replay_status \<Rightarrow> bool" where
  "progress Reserved status \<longleftrightarrow> status \<noteq> Reserved"
| "progress Started status \<longleftrightarrow> status = Completed \<or> status = Uncertain"
| "progress _ _ \<longleftrightarrow> False"

definition evolves :: "replay_record \<Rightarrow> replay_record \<Rightarrow> bool" where
  "evolves r r' \<longleftrightarrow> r' = r \<or> progress (rr_status r) (rr_status r') \<and> rr_key_hash r' = rr_key_hash r \<and> rr_request r' = rr_request r \<and>
     rr_created r' = rr_created r \<and> rr_schema r' = rr_schema r"

lemma evolves_refl [simp]: "evolves r r"
  by (simp add: evolves_def)

lemma evolves_trans: "evolves a b \<Longrightarrow> evolves b c \<Longrightarrow> evolves a c"
  by (cases "rr_status a"; cases "rr_status b") (auto simp: evolves_def)

fun staged_ok :: "codec \<Rightarrow> replay_proc \<Rightarrow> point \<Rightarrow> bool" where
  "staged_ok codec p (Claim r b) \<longleftrightarrow> b = c_enc codec r \<and> (\<exists>now. r = reserved_record now (pr_key p) (pr_request p))"
| "staged_ok codec p (WriteClaim r b) \<longleftrightarrow> b = c_enc codec r \<and> (\<exists>now. r = reserved_record now (pr_key p) (pr_request p))"
| "staged_ok codec p (Recheck r b) \<longleftrightarrow> b = c_enc codec r \<and> (\<exists>now. r = reserved_record now (pr_key p) (pr_request p))"
| "staged_ok codec p (Publish r b) \<longleftrightarrow> b = c_enc codec r \<and> (\<exists>now. r = reserved_record now (pr_key p) (pr_request p))"
| "staged_ok codec p (Quarantine _) \<longleftrightarrow> False"
| "staged_ok codec p UpdateQuarantine \<longleftrightarrow> False"
| "staged_ok codec p _ \<longleftrightarrow> True"

definition file_ok :: "codec \<Rightarrow> string \<Rightarrow> bytes option \<Rightarrow> bool" where
  "file_ok codec k x \<longleftrightarrow> (\<exists>r. x = Some (c_enc codec r) \<and> rr_schema r = REPLAY_RECORD_SCHEMA_VERSION \<and> rr_key_hash r = k)"

definition write_ok :: "codec \<Rightarrow> replay_disk \<Rightarrow> replay_proc \<Rightarrow> bool" where
  "write_ok codec d p \<longleftrightarrow> (\<forall>r'. pr_at p = UpdateWrite r' \<longrightarrow> (\<exists>r. stored codec (pr_key p) d = Some r \<and> evolves r r' \<and> r' \<noteq> r \<and>
     rr_schema r' = REPLAY_RECORD_SCHEMA_VERSION \<and> rr_key_hash r' = pr_key p))"

definition record_inv :: "codec \<Rightarrow> bool \<Rightarrow> replay_system \<Rightarrow> bool" where
  "record_inv codec stat_ok s \<longleftrightarrow> replay_inv stat_ok s \<and> ry_moved s = [] \<and>
     (\<forall>k x. hget (rd_dirs (ry_disk s)) k = Some x \<longrightarrow> file_ok codec k x) \<and>
     (\<forall>p \<in> set (ry_procs s). staged_ok codec p (pr_at p) \<and> write_ok codec (ry_disk s) p)"

lemma file_read:
  assumes c: "codec_ok codec" and f: "\<forall>k x. hget (rd_dirs d) k = Some x \<longrightarrow> file_ok codec k x"
  shows "read_record codec fault k d \<noteq> Corrupt b"
    and "read_record codec fault k d = Loaded r \<Longrightarrow> stored codec k d = Some r \<and> rr_schema r = REPLAY_RECORD_SCHEMA_VERSION \<and> rr_key_hash r = k"
proof -
  have "hget (rd_dirs d) k = None \<or> (\<exists>r. hget (rd_dirs d) k = Some (Some (c_enc codec r)) \<and> c_dec codec (c_enc codec r) = Some r \<and>
      rr_schema r = REPLAY_RECORD_SCHEMA_VERSION \<and> rr_key_hash r = k)"
    using f c unfolding file_ok_def codec_ok_def by (metis option.exhaust)
  then show "read_record codec fault k d \<noteq> Corrupt b"
      "read_record codec fault k d = Loaded r \<Longrightarrow> stored codec k d = Some r \<and> rr_schema r = REPLAY_RECORD_SCHEMA_VERSION \<and> rr_key_hash r = k"
    by (auto simp: read_record_def stored_def split: if_splits)
qed

lemma next_update_write:
  "replay_next codec clean fault timeout now k request p d = (UpdateWrite r', d') \<Longrightarrow>
   \<exists>u r. p = UpdateLoad u \<and> read_record codec fault k d = Loaded r \<and> apply_update now u request r = Ok r' \<and> d' = d"
  by (cases p) (auto simp: leave_def quarantine_record_def Let_def split: if_splits option.splits loaded.splits sum.splits prod.splits)

lemma next_moved:
  "replay_next codec clean fault timeout now k request p d = (pt, d') \<Longrightarrow> hget (rd_dirs d') k = Some None \<Longrightarrow> hget (rd_dirs d) k \<noteq> Some None \<Longrightarrow>
   p = UpdateQuarantine \<or> (\<exists>c. p = Quarantine c)"
  by (cases p) (auto simp: hget_hinsert Let_def split: if_splits option.splits)

lemma apply_update_evolves:
  "apply_update now u request r = Ok r' \<Longrightarrow> evolves r r' \<and> rr_status r' \<noteq> rr_status r \<and> rr_schema r' = rr_schema r \<and> rr_key_hash r' = rr_key_hash r"
  by (cases "rr_status r"; cases "rr_status r'")
    (auto simp: apply_update_def with_status_and_response_def ensure_same_hash_def evolves_def split: if_splits update.splits)

text \<open>One operation of a process, when no record is damaged.\<close>

lemma sound_next:
  assumes c: "codec_ok codec" and f: "\<forall>k x. hget (rd_dirs d) k = Some x \<longrightarrow> file_ok codec k x"
    and p: "staged_ok codec p (pr_at p)" "write_ok codec d p"
    and n: "replay_next codec clean fault timeout now (pr_key p) (pr_request p) (pr_at p) d = (pt, d')"
  shows "staged_ok codec (p\<lparr>pr_at := pt\<rparr>) pt"
    and "\<forall>r'. pt = UpdateWrite r' \<longrightarrow> d' = d \<and> (\<exists>r. stored codec (pr_key p) d = Some r \<and> evolves r r' \<and> r' \<noteq> r \<and>
       rr_schema r' = REPLAY_RECORD_SCHEMA_VERSION \<and> rr_key_hash r' = pr_key p)"
    and "rd_dirs d' = rd_dirs d \<or>
      (\<exists>r. hget (rd_dirs d) (pr_key p) = None \<and> rd_dirs d' = hinsert (pr_key p) (Some (c_enc codec r)) (rd_dirs d) \<and>
         rr_schema r = REPLAY_RECORD_SCHEMA_VERSION \<and> rr_key_hash r = pr_key p) \<or>
      (\<exists>r r'. pr_at p = UpdateWrite r' \<and> stored codec (pr_key p) d = Some r \<and> evolves r r' \<and> rd_dirs d' = hinsert (pr_key p) (Some (c_enc codec r')) (rd_dirs d) \<and>
         rr_schema r' = REPLAY_RECORD_SCHEMA_VERSION \<and> rr_key_hash r' = pr_key p)"
proof -
  note fr = file_read [OF c f]
  have ne: "hget (rd_dirs d) (pr_key p) \<noteq> Some None" using f by (auto simp: file_ok_def)
  show "staged_ok codec (p\<lparr>pr_at := pt\<rparr>) pt"
    using n p(1) fr(1)
    by (cases "pr_at p") (auto simp: leave_def Let_def split: if_splits option.splits loaded.splits sum.splits)
  show "\<forall>r'. pt = UpdateWrite r' \<longrightarrow> d' = d \<and> (\<exists>r. stored codec (pr_key p) d = Some r \<and> evolves r r' \<and> r' \<noteq> r \<and>
       rr_schema r' = REPLAY_RECORD_SCHEMA_VERSION \<and> rr_key_hash r' = pr_key p)"
  proof (intro allI impI)
    fix r' assume pt: "pt = UpdateWrite r'"
    obtain u r where "pr_at p = UpdateLoad u" "read_record codec fault (pr_key p) d = Loaded r" "apply_update now u (pr_request p) r = Ok r'" "d' = d"
      using next_update_write [OF n [unfolded pt]] by blast
    then show "d' = d \<and> (\<exists>r. stored codec (pr_key p) d = Some r \<and> evolves r r' \<and> r' \<noteq> r \<and>
       rr_schema r' = REPLAY_RECORD_SCHEMA_VERSION \<and> rr_key_hash r' = pr_key p)"
      using fr(2) apply_update_evolves by metis
  qed
  from next_dirs [OF n] show "rd_dirs d' = rd_dirs d \<or>
      (\<exists>r. hget (rd_dirs d) (pr_key p) = None \<and> rd_dirs d' = hinsert (pr_key p) (Some (c_enc codec r)) (rd_dirs d) \<and>
         rr_schema r = REPLAY_RECORD_SCHEMA_VERSION \<and> rr_key_hash r = pr_key p) \<or>
      (\<exists>r r'. pr_at p = UpdateWrite r' \<and> stored codec (pr_key p) d = Some r \<and> evolves r r' \<and> rd_dirs d' = hinsert (pr_key p) (Some (c_enc codec r')) (rd_dirs d) \<and>
         rr_schema r' = REPLAY_RECORD_SCHEMA_VERSION \<and> rr_key_hash r' = pr_key p)"
  proof (elim disjE exE conjE)
    fix bytes assume h: "hget (rd_dirs d) (pr_key p) = Some (Some bytes)" "rd_dirs d' = hinsert (pr_key p) None (rd_dirs d)"
    then have "hget (rd_dirs d') (pr_key p) = Some None" by (simp add: hget_hinsert)
    then have False using next_moved [OF n] p(1) h(1) by auto
    then show ?thesis ..
  next
    fix r staged assume "pr_at p = Publish r staged" "rd_dirs d' = hinsert (pr_key p) (Some staged) (rd_dirs d)"
      "hget (rd_dirs d) (pr_key p) = None"
    then show ?thesis using p(1) by (auto simp: reserved_record_def)
  next
    fix r assume "pr_at p = UpdateWrite r" "rd_dirs d' = hinsert (rr_key_hash r) (Some (c_enc codec r)) (rd_dirs d)"
    then show ?thesis using p(2) unfolding write_ok_def by auto
  qed (use ne in simp_all)
qed

lemma stored_update: "stored codec k' d' = (if k' = k then Some r else stored codec k' d)"
  if "codec_ok codec" "rd_dirs d' = hinsert k (Some (c_enc codec r)) (rd_dirs d)"
  using that by (simp add: stored_def hget_hinsert codec_ok_def)

lemma stored_same: "rd_dirs d' = rd_dirs d \<Longrightarrow> stored codec k d' = stored codec k d"
  by (simp add: stored_def)

lemma sole_holder:
  assumes inv: "replay_inv stat_ok s" "ry_moved s = []" and i: "i < length (ry_procs s)"
    and q: "q \<in> set (take i (ry_procs s) @ drop (Suc i) (ry_procs s))" "holds_first (pr_at q)" "holds_first (pr_at (ry_procs s ! i))"
  shows "pr_key q \<noteq> pr_key (ry_procs s ! i)"
proof
  assume e: "pr_key q = pr_key (ry_procs s ! i)"
  have "0 < at_key holds_first (pr_key q) (take i (ry_procs s) @ drop (Suc i) (ry_procs s))" using at_key_pos q(1,2) by blast
  then have "1 < at_key holds_first (pr_key q) (ry_procs s)" using at_key_split(1) [OF i, of holds_first "pr_key q"] q(3) e by simp
  then show False using replay_invD(3,5) [OF inv(1), of "pr_key q"] inv(2) by simp
qed

lemma holder_stored:
  assumes "replay_inv stat_ok s" "q \<in> set (ry_procs s)" "holds_first (pr_at q)"
  shows "hget (rd_dirs (ry_disk s)) (pr_key q) \<noteq> None"
proof -
  have "0 < count_list (ry_first s) (pr_key q)"
    using at_key_pos [OF assms(2), of holds_first] replay_invD(5) [OF assms(1), of "pr_key q"] assms(3) by simp
  then have "pr_key q \<in> set (ry_first s)" using count_notin by force
  then show ?thesis using replay_invD(1) [OF assms(1)] by blast
qed

text \<open>The effect of one operation on the record files, when none is damaged.\<close>

definition files_step :: "codec \<Rightarrow> replay_proc \<Rightarrow> replay_disk \<Rightarrow> replay_disk \<Rightarrow> bool" where
  "files_step codec p d d' \<longleftrightarrow> rd_dirs d' = rd_dirs d \<or>
      (\<exists>r. hget (rd_dirs d) (pr_key p) = None \<and> rd_dirs d' = hinsert (pr_key p) (Some (c_enc codec r)) (rd_dirs d) \<and>
         rr_schema r = REPLAY_RECORD_SCHEMA_VERSION \<and> rr_key_hash r = pr_key p) \<or>
      (\<exists>r r'. pr_at p = UpdateWrite r' \<and> stored codec (pr_key p) d = Some r \<and> evolves r r' \<and> rd_dirs d' = hinsert (pr_key p) (Some (c_enc codec r')) (rd_dirs d) \<and>
         rr_schema r' = REPLAY_RECORD_SCHEMA_VERSION \<and> rr_key_hash r' = pr_key p)"

lemma files_step_evolves:
  assumes c: "codec_ok codec" and fs: "files_step codec p d d'" and st: "stored codec k d = Some r"
  shows "\<exists>r'. stored codec k d' = Some r' \<and> evolves r r'"
  using fs [unfolded files_step_def]
proof (elim disjE exE conjE)
  fix r0 assume "rd_dirs d' = hinsert (pr_key p) (Some (c_enc codec r0)) (rd_dirs d)" "hget (rd_dirs d) (pr_key p) = None"
  then show ?thesis using st stored_update [OF c, of d' "pr_key p" r0 d k] by (auto simp: stored_def)
next
  fix r0 r1 assume "rd_dirs d' = hinsert (pr_key p) (Some (c_enc codec r1)) (rd_dirs d)" "stored codec (pr_key p) d = Some r0" "evolves r0 r1"
  then show ?thesis using st stored_update [OF c, of d' "pr_key p" r1 d k] by auto
qed (use st in \<open>simp add: stored_def\<close>)

lemma files_step_ok:
  assumes "files_step codec p d d'" "\<forall>k x. hget (rd_dirs d) k = Some x \<longrightarrow> file_ok codec k x"
  shows "\<forall>k x. hget (rd_dirs d') k = Some x \<longrightarrow> file_ok codec k x"
  using assms(1) [unfolded files_step_def]
proof (elim disjE exE conjE)
  fix r assume "rd_dirs d' = hinsert (pr_key p) (Some (c_enc codec r)) (rd_dirs d)" "rr_schema r = REPLAY_RECORD_SCHEMA_VERSION" "rr_key_hash r = pr_key p"
  then show ?thesis using assms(2) by (simp add: hget_hinsert) (auto simp: file_ok_def)
next
  fix r0 r assume "rd_dirs d' = hinsert (pr_key p) (Some (c_enc codec r)) (rd_dirs d)" "rr_schema r = REPLAY_RECORD_SCHEMA_VERSION" "rr_key_hash r = pr_key p"
  then show ?thesis using assms(2) by (simp add: hget_hinsert) (auto simp: file_ok_def)
qed (use assms(2) in simp)

text \<open>Another holder's pending write is still the next step of its own record.\<close>

lemma files_step_others:
  assumes c: "codec_ok codec" and ri: "replay_inv stat_ok s" "ry_moved s = []" and i: "i < length (ry_procs s)" "p = ry_procs s ! i"
    and fs: "files_step codec p (ry_disk s) d" and q: "q \<in> set (take i (ry_procs s) @ drop (Suc i) (ry_procs s))"
    and w: "write_ok codec (ry_disk s) q"
  shows "write_ok codec d q"
proof (cases "holds_first (pr_at q)")
  case True
  have qs: "q \<in> set (ry_procs s)" using q set_rest [of i "ry_procs s"] by blast
  have "stored codec (pr_key q) d = stored codec (pr_key q) (ry_disk s)"
    using fs [unfolded files_step_def]
  proof (elim disjE exE conjE)
    fix r0 assume "rd_dirs d = hinsert (pr_key p) (Some (c_enc codec r0)) (rd_dirs (ry_disk s))" "hget (rd_dirs (ry_disk s)) (pr_key p) = None"
    then show ?thesis using holder_stored [OF ri(1) qs True] stored_update [OF c, of d "pr_key p" r0 "ry_disk s" "pr_key q"] by auto
  next
    fix r0 r1 assume w: "pr_at p = UpdateWrite r1" "rd_dirs d = hinsert (pr_key p) (Some (c_enc codec r1)) (rd_dirs (ry_disk s))"
    then show ?thesis using sole_holder [OF ri i(1) q True] i(2) stored_update [OF c w(2)] by auto
  qed (rule stored_same)
  then show ?thesis using w by (simp add: write_ok_def)
qed (auto simp: write_ok_def)

lemma record_step:
  assumes c: "codec_ok codec" and inv: "record_inv codec stat_ok s" and st: "replay_step codec clean stat_ok False s t"
  shows "record_inv codec stat_ok t"
    and "stored codec k (ry_disk s) = Some r \<Longrightarrow> \<exists>r'. stored codec k (ry_disk t) = Some r' \<and> evolves r r'"
proof -
  have ri: "replay_inv stat_ok s" and mv: "ry_moved s = []" and f: "\<forall>k x. hget (rd_dirs (ry_disk s)) k = Some x \<longrightarrow> file_ok codec k x"
    and pr: "\<And>p. p \<in> set (ry_procs s) \<Longrightarrow> staged_ok codec p (pr_at p) \<and> write_ok codec (ry_disk s) p"
    using inv by (auto simp: record_inv_def)
  have rt: "replay_inv stat_ok t" using replay_step_inv [OF st ri] .
  from st have "record_inv codec stat_ok t \<and> (\<forall>k r. stored codec k (ry_disk s) = Some r \<longrightarrow> (\<exists>r'. stored codec k (ry_disk t) = Some r' \<and> evolves r r'))"
  proof (cases rule: replay_step.cases)
    case (ry_call k request)
    then show ?thesis using rt mv f pr by (auto simp: record_inv_def write_ok_def)
  next
    case (ry_run i p fault timeout now pt d)
    have ps: "p \<in> set (ry_procs s)" using ry_run by simp
    note sn = sound_next [OF c f conjunct1 [OF pr [OF ps]] conjunct2 [OF pr [OF ps]] ry_run(5)]
    have dt: "ry_disk t = d" using ry_run(1) by (simp add: settle_def Let_def)
    have fs: "files_step codec p (ry_disk s) d" using sn(3) by (simp add: files_step_def)
    note ft = files_step_ok [OF fs f] and ev = files_step_evolves [OF c fs] and others = files_step_others [OF c ri mv ry_run(2,3) fs]
    have mt: "ry_moved t = []" using ry_run(1) mv ft by (auto simp: settle_def moved_aside_def file_ok_def Let_def)
    have "staged_ok codec q (pr_at q) \<and> write_ok codec d q" if "q \<in> set (ry_procs t)" for q
    proof (cases "q = p\<lparr>pr_at := pt\<rparr>")
      case True
      then show ?thesis using sn(1,2) by (auto simp: write_ok_def)
    next
      case False
      have "q \<in> set ((ry_procs s)[i := p\<lparr>pr_at := pt\<rparr>])" using that ry_run(1,3) by (simp add: settle_def Let_def)
      then have "q \<in> set (take i (ry_procs s) @ drop (Suc i) (ry_procs s))" unfolding set_update_rest [OF ry_run(2)] using False by blast
      then show ?thesis using others pr set_rest [of i "ry_procs s"] by blast
    qed
    then have "record_inv codec stat_ok t" using rt mt ft dt by (simp add: record_inv_def)
    then show ?thesis using ev dt by blast
  next
    case (ry_update i u)
    have "ry_moved t = []" "ry_disk t = ry_disk s" using ry_update(1) mv f by (auto simp: settle_def moved_aside_def file_ok_def Let_def)
    moreover have "staged_ok codec q (pr_at q) \<and> write_ok codec (ry_disk s) q" if "q \<in> set (ry_procs t)" for q
      using settle_procs [OF ry_update(2) that [unfolded ry_update(1)]] pr by (auto simp: write_ok_def)
    ultimately show ?thesis using rt f by (simp add: record_inv_def)
  next
    case (ry_crash i)
    then show ?thesis using rt mv f pr set_rest [of i "ry_procs s"] by (auto simp: record_inv_def)
  qed simp
  then show "record_inv codec stat_ok t" "stored codec k (ry_disk s) = Some r \<Longrightarrow> \<exists>r'. stored codec k (ry_disk t) = Some r' \<and> evolves r r'" by blast+
qed

lemma record_run:
  assumes "codec_ok codec" "record_inv codec stat_ok s" "(replay_step codec clean stat_ok False)\<^sup>*\<^sup>* s t"
  shows "record_inv codec stat_ok t \<and> (\<forall>k r. stored codec k (ry_disk s) = Some r \<longrightarrow> (\<exists>r'. stored codec k (ry_disk t) = Some r' \<and> evolves r r'))"
  using assms(3)
proof (induction rule: rtranclp_induct)
  case base
  then show ?case using assms(2) by auto
next
  case (step t u)
  then show ?case using record_step [OF assms(1) _ step(2)] evolves_trans by metis
qed

lemma record_init: "replay_init s \<Longrightarrow> record_inv codec stat_ok s"
  using reservation.inv_init [of s stat_ok] by (simp add: replay_init_def record_inv_def disk_new_def)

section \<open>A call ends\<close>

fun remaining :: "point \<Rightarrow> nat" where
  "remaining Probe = 10"
| "remaining Stage = 9"
| "remaining (Claim _ _) = 8"
| "remaining (WriteClaim _ _) = 7"
| "remaining (Recheck _ _) = 6"
| "remaining (Publish _ _) = 5"
| "remaining PublishFailed = 4"
| "remaining Wait = 4"
| "remaining (Load _) = 3"
| "remaining (Quarantine _) = 2"
| "remaining (Release _) = 1"
| "remaining WaitMarker = 1"
| "remaining (Returned _) = 0"
| "remaining (Update _) = 3"
| "remaining (UpdateLoad _) = 2"
| "remaining UpdateQuarantine = 1"
| "remaining (UpdateWrite _) = 1"
| "remaining (UpdateDone _) = 0"

lemma next_remaining:
  assumes "replay_next codec clean fault True now k request p d = (pt, d')"
  shows "remaining pt \<le> remaining p - 1"
  using assms
  by (cases p) (auto simp: leave_def Let_def split: if_splits option.splits loaded.splits sum.splits prod.splits)

lemma remaining_le: "remaining p \<le> CALL_STEPS"
  by (cases p) (simp_all add: CALL_STEPS_def)

lemma run_call_remaining:
  "\<forall>i. timeouts i \<Longrightarrow> remaining (fst (run_call codec clean faults timeouts env now k request n p d)) \<le> remaining p - n"
proof (induction n arbitrary: faults timeouts env p d)
  case (Suc n)
  obtain pt d' where 1: "replay_next codec clean (faults 0) (timeouts 0) now k request p (env 0 d) = (pt, d')" by force
  have "timeouts 0 = True" using Suc.prems by simp
  then have "remaining pt \<le> remaining p - 1" using next_remaining [OF 1 [unfolded \<open>timeouts 0 = True\<close>]] by simp
  moreover have "remaining (fst (run_call codec clean (\<lambda>i. faults (Suc i)) (\<lambda>i. timeouts (Suc i)) (\<lambda>i. env (Suc i)) now k request n pt d')) \<le> remaining pt - n"
    by (rule Suc.IH) (use Suc.prems in simp)
  ultimately show ?case using 1 by simp
qed simp

lemma run_call_add:
  "run_call codec clean faults timeouts env now k request (m + n) p d =
   (case run_call codec clean faults timeouts env now k request m p d of
      (p, d) \<Rightarrow> run_call codec clean (\<lambda>i. faults (m + i)) (\<lambda>i. timeouts (m + i)) (\<lambda>i. env (m + i)) now k request n p d)"
  by (induction m arbitrary: faults timeouts env p d) (auto split: prod.split)

lemma remaining_0: "remaining p = 0 \<longleftrightarrow> (\<exists>r. p = Returned r) \<or> (\<exists>r. p = UpdateDone r)"
  by (cases p) auto

section \<open>A claim that is never released\<close>

text \<open>The marker of a key is there, nothing was published, and nobody is inside the claim.\<close>

definition blocked :: "string \<Rightarrow> replay_system \<Rightarrow> bool" where
  "blocked k s \<longleftrightarrow> k \<in> set (rd_claims (ry_disk s)) \<and> hget (rd_dirs (ry_disk s)) k = None \<and> at_key in_claim k (ry_procs s) = 0 \<and> replay_inv False s"

lemma replay_inv_weaken: "replay_inv stat_ok s \<Longrightarrow> replay_inv False s"
  unfolding replay_inv_def by blast

lemma replay_step_weaken: "replay_step codec clean stat_ok rot s t \<Longrightarrow> replay_step codec clean False rot s t"
  by (induction rule: replay_step.induct) (auto intro: replay_step.intros)

lemma blocked_step: "replay_step codec clean stat_ok rot s t \<Longrightarrow> blocked k s \<Longrightarrow> blocked k t"
proof -
  assume st: "replay_step codec clean stat_ok rot s t" and b: "blocked k s"
  have inv: "replay_inv False t" using replay_step_inv [OF replay_step_weaken [OF st]] b by (simp add: blocked_def)
  have D: "k \<in> set (rd_claims (ry_disk s))" "hget (rd_dirs (ry_disk s)) k = None" "at_key in_claim k (ry_procs s) = 0" and ri: "replay_inv False s"
    using b by (simp_all add: blocked_def)
  from st have "k \<in> set (rd_claims (ry_disk t)) \<and> hget (rd_dirs (ry_disk t)) k = None \<and> at_key in_claim k (ry_procs t) = 0"
  proof (cases rule: replay_step.cases)
    case (ry_run i p fault timeout now pt d)
    have ps: "p \<in> set (ry_procs s)" using ry_run by simp
    have nc: "\<not> in_claim (pr_at p)" if "pr_key p = k" using D(3) at_key_pos [OF ps, of in_claim] that by fastforce
    have nh: "\<not> holds_first (pr_at p)" if "pr_key p = k" using holder_stored [OF ri ps] D(2) that by auto
    have kc: "k \<in> set (rd_claims d)" using next_claims [OF ry_run(5)] D(1) nc by auto
    have "pr_key p = k \<longrightarrow> \<not> in_claim pt" using next_claims [OF ry_run(5)] D(1) nc by auto
    then have "at_key in_claim k (ry_procs t) = 0"
      using at_key_split [OF ry_run(2), of in_claim k] D(3) ry_run(1,3) nc by (auto simp: settle_def Let_def)
    moreover have "hget (rd_dirs d) k = None"
    proof (cases "pr_key p = k")
      case True
      have "pr_at p \<noteq> Publish r b" "pr_at p \<noteq> UpdateWrite r" for r b using nc [OF True] nh [OF True] by auto
      then show ?thesis using next_dirs [OF ry_run(5)] D(2) unfolding True by (metis option.distinct(1))
    next
      case False
      then show ?thesis using next_dirs [OF ry_run(5)] D(2) replay_invD(6) [OF ri ps] by (metis hget_hinsert)
    qed
    ultimately show ?thesis using kc ry_run(1) by (simp add: settle_def Let_def)
  next
    case (ry_update i u)
    then show ?thesis using D at_key_split [OF ry_update(2), of in_claim k] by (auto simp: settle_def Let_def)
  next
    case (ry_crash i)
    then show ?thesis using D at_key_le_drop [of in_claim k i "ry_procs s"] by simp
  next
    case (ry_rot k' b b')
    then show ?thesis using D by (auto simp: hget_hinsert)
  qed (use D in auto)
  with inv show ?thesis by (simp add: blocked_def)
qed

interpretation blocked: invariant_system "blocked k" "replay_step codec clean stat_ok rot" "blocked k"
  by unfold_locales (auto intro: blocked_step)

lemma blocked_not_first: "blocked k s \<Longrightarrow> k \<notin> set (ry_first s)"
  unfolding blocked_def using replay_invD(1) by metis

section \<open>Calls on their own\<close>

lemma run_alone_10:
  "run_alone codec clean now k request p d =
     (let n = \<lambda>(p, d). replay_next codec clean Fine True now k request p d in n (n (n (n (n (n (n (n (n (n (p, d)))))))))))"
  by (simp add: run_alone_def CALL_STEPS_def eval_nat_numeral Let_def case_prod_unfold)

lemma check_fresh:
  assumes "hget (rd_dirs d) k = None" "k \<notin> set (rd_claims d)"
  shows "check_or_reserve codec clean now k request d =
    Some (d\<lparr>rd_dirs := hinsert k (Some (c_enc codec (reserved_record now k request))) (rd_dirs d)\<rparr>, Ok (FirstExecution (reserved_record now k request)))"
  using assms by (cases d) (simp add: check_or_reserve_def run_alone_10 key_dir_exists_def Let_def)

lemma check_loaded:
  assumes "read_record codec Fine k d = Loaded r"
  shows "check_or_reserve codec clean now k request d = Some (d, replay_loaded request r)"
proof -
  have "hget (rd_dirs d) k \<noteq> None" using assms by (auto simp: read_record_def split: option.splits)
  then show ?thesis using assms by (simp add: check_or_reserve_def run_alone_10 key_dir_exists_def leave_def)
qed

lemma update_loaded:
  assumes "read_record codec Fine k d = Loaded r" "apply_update now u request r = Ok r'"
    and "case update_response u of None \<Rightarrow> True | Some response \<Rightarrow> validate_replay_response clean response = Ok ()"
  shows "run_update codec clean now k request u d = Some (d\<lparr>rd_dirs := hinsert (rr_key_hash r') (Some (c_enc codec r')) (rd_dirs d)\<rparr>, Ok r')"
  using assms by (auto simp: run_update_def run_alone_10 split: option.splits)

lemma read_written:
  assumes "codec_ok codec" "rr_schema r = REPLAY_RECORD_SCHEMA_VERSION" "rr_key_hash r = k"
  shows "read_record codec Fine k (d\<lparr>rd_dirs := hinsert k (Some (c_enc codec r)) (rd_dirs d)\<rparr>) = Loaded r"
  using assms by (simp add: read_record_def hget_hinsert codec_ok_def)

section \<open>Requests as values\<close>

text \<open>The same JSON value, up to the order of the members of its objects.\<close>

inductive same_json :: "json \<Rightarrow> json \<Rightarrow> bool" where
  sj_refl: "same_json v v"
| sj_array: "list_all2 same_json xs ys \<Longrightarrow> same_json (JArray xs) (JArray ys)"
| sj_object: "distinct (map fst m) \<Longrightarrow> map fst m' = map fst m \<Longrightarrow> list_all2 same_json (map snd m) (map snd m') \<Longrightarrow>
    mset m' = mset n \<Longrightarrow> same_json (JObject m) (JObject n)"
  monos list_all2_mono

fun json_ok :: "json \<Rightarrow> bool" where
  "json_ok (JArray items) \<longleftrightarrow> list_all json_ok items"
| "json_ok (JObject m) \<longleftrightarrow> distinct (map fst m) \<and> list_all (\<lambda>(_, v). json_ok v) m"
| "json_ok _ \<longleftrightarrow> True"

lemma members_map:
  "map fst m' = map fst m \<Longrightarrow> list_all2 (\<lambda>v w. f v = f w) (map snd m) (map snd m') \<Longrightarrow> map (\<lambda>(k, v). (k, f v)) m = map (\<lambda>(k, v). (k, f v)) m'"
  by (induction m arbitrary: m') (auto simp: map_eq_Cons_conv)

lemma same_json_canonical: "same_json v w \<Longrightarrow> canonicalize_value v = canonicalize_value w"
proof (induction rule: same_json.induct)
  case (sj_array xs ys)
  then have "map canonicalize_value xs = map canonicalize_value ys" by (induction rule: list_all2_induct) auto
  then show ?case by simp
next
  case (sj_object m m' n)
  let ?f = "\<lambda>(k, v). (k, canonicalize_value v)"
  have e: "map ?f m = map ?f m'"
  proof (rule members_map [OF sj_object(2)])
    show "list_all2 (\<lambda>v w. canonicalize_value v = canonicalize_value w) (map snd m) (map snd m')"
      using sj_object(4) by (rule list_all2_mono) simp
  qed
  have d: "distinct (map fst (map ?f m'))" using sj_object(1,2) by (simp add: case_prod_unfold comp_def)
  have "sort_key fst (map ?f m') = sort_key fst (map ?f n)"
  proof (rule sort_key_inj_key_eq)
    show "mset (map ?f m') = mset (sort_key fst (map ?f n))" using sj_object(3) by simp
    show "inj_on fst (set (map ?f m'))" using d by (simp only: distinct_map)
    show "sorted (map fst (sort_key fst (map ?f n)))" by simp
  qed
  then show ?case using e by simp
qed simp

lemma canonical_same: "json_ok v \<Longrightarrow> same_json v (canonicalize_value v)"
proof (induction v rule: canonicalize_value.induct)
  case (1 items)
  then have "list_all2 same_json items (map canonicalize_value items)"
    by (auto simp: list_all2_conv_all_nth list_all_iff)
  then show ?case by (simp add: sj_array)
next
  case (2 m)
  let ?f = "\<lambda>(k, v). (k, canonicalize_value v)"
  have "same_json v (canonicalize_value v)" if "(k, v) \<in> set m" for k v
    using 2(1) [OF that refl] 2(2) that by (auto simp: list_all_iff)
  then have "list_all2 same_json (map snd m) (map snd (map ?f m))"
    by (auto simp: list_all2_conv_all_nth case_prod_unfold) (metis nth_mem prod.collapse)
  moreover have "map fst (map ?f m) = map fst m" by (simp add: case_prod_unfold comp_def)
  ultimately show ?case using 2(2) by (auto intro!: sj_object [of m "map ?f m"])
qed (auto intro: sj_refl)

lemma hex_byte_inj: "hex_byte a = hex_byte b \<Longrightarrow> a = b"
proof -
  assume h: "hex_byte a = hex_byte b"
  have d: "m = n" if "hex_digit m = hex_digit n" "m < 16" "n < 16" for m n
  proof -
    have "distinct ''0123456789abcdef''" by simp
    then show ?thesis using that nth_eq_iff_index_eq [of "''0123456789abcdef''" m n] by (simp add: hex_digit_def)
  qed
  have lt: "unat x < 256" for x :: u8 using unsigned_less [of x] by simp
  have "unat a div 16 = unat b div 16" "unat a mod 16 = unat b mod 16"
    using h d [of "unat a div 16" "unat b div 16"] d [of "unat a mod 16" "unat b mod 16"] lt [of a] lt [of b] by (auto simp: hex_byte_def)
  then have "unat a = unat b" by (metis div_mult_mod_eq)
  then show "a = b" by (rule unsigned_word_eqI)
qed

lemma hex_bytes_inj: "concat (map hex_byte xs) = concat (map hex_byte ys) \<Longrightarrow> xs = ys"
proof (induction xs arbitrary: ys)
  case (Cons x xs)
  then obtain y ys' where "ys = y # ys'" by (cases ys) (auto simp: hex_byte_def)
  then show ?case using Cons hex_byte_inj [of x y] by (auto simp: hex_byte_def)
qed (auto simp: hex_byte_def)

lemma digest_hex_eq: "digest_hex sha a = digest_hex sha b \<longleftrightarrow> sha a = sha b"
  using hex_bytes_inj by (auto simp: digest_hex_def)

lemma ascii_char_inj: "(word_of_nat (of_char c) :: u8) = word_of_nat (of_char c') \<Longrightarrow> c = c'"
proof -
  assume "(word_of_nat (of_char c) :: u8) = word_of_nat (of_char c')"
  then have "unat (word_of_nat (of_char c) :: u8) = unat (word_of_nat (of_char c') :: u8)" by simp
  then have "(of_char c :: nat) = of_char c'" by (simp add: unsigned_of_nat take_bit_eq_mod)
  then show ?thesis by simp
qed

lemma ascii_eq: "ascii s = ascii t \<longleftrightarrow> s = t"
proof -
  have "inj (\<lambda>c. word_of_nat (of_char c) :: u8)" using ascii_char_inj by (rule injI)
  then show ?thesis unfolding ascii_def by simp
qed

lemma ascii_nul: "CHR 0x00 \<notin> set s \<Longrightarrow> 0 \<notin> set (ascii s)"
  using ascii_char_inj [of _ "CHR 0x00"] by (fastforce simp: ascii_def)

lemma append_nul_eq: "xs @ z # ys = xs' @ z # ys' \<Longrightarrow> z \<notin> set xs \<Longrightarrow> z \<notin> set xs' \<Longrightarrow> xs = xs' \<and> ys = ys'"
proof (induction xs arbitrary: xs')
  case Nil
  then show ?case by (cases xs') auto
next
  case (Cons x xs)
  then show ?case by (cases xs') auto
qed

section \<open>Receipts\<close>

text \<open>A receipt captured from the disk verifies as long as the disk is the same.\<close>

lemma captured_verifies: "capture_post_image sha read written = Some receipt \<Longrightarrow> verify_post_image sha read receipt"
proof -
  have "list_all (\<lambda>t. case read (pit_path t) of Contents b \<Rightarrow> pit_digest t = Some (digest_hex sha b) | Absent \<Rightarrow> pit_digest t = None | Unreadable \<Rightarrow> False) ts"
    if "capture_targets sha read ws = Some ts" for ws ts
    using that by (induction ws arbitrary: ts) (auto split: read_back.splits)
  then show "capture_post_image sha read written = Some receipt \<Longrightarrow> verify_post_image sha read receipt"
    by (auto simp: capture_post_image_def verify_post_image_def)
qed

text \<open>A target is read through the deepest of the bound roots that hold it.\<close>

lemma strip_root_Some: "strip_root root path = Some rel \<longleftrightarrow> path = root @ rel"
  by (auto simp: strip_root_def) (metis append_take_drop_id)

lemma deepest_spec:
  "case deepest path ss of
     None \<Rightarrow> (\<forall>s \<in> set ss. \<forall>rel. path \<noteq> so_root s @ rel)
   | Some (s, rel) \<Rightarrow> s \<in> set ss \<and> path = so_root s @ rel \<and> (\<forall>t \<in> set ss. \<forall>rel'. path = so_root t @ rel' \<longrightarrow> length (so_root t) \<le> length (so_root s))"
proof (induction ss)
  case (Cons s ss)
  show ?case
  proof (cases "strip_root (so_root s) path")
    case None
    then have "path \<noteq> so_root s @ rel" for rel using strip_root_Some [of "so_root s" path rel] by simp
    then show ?thesis using Cons None by (auto split: option.splits)
  next
    case (Some rel)
    then have "path = so_root s @ rel" by (simp add: strip_root_Some)
    then show ?thesis using Cons Some by (fastforce split: option.splits)
  qed
qed simp

lemma verified_targets:
  assumes "verify_post_image_bound authority source receipt" "t \<in> set (pi_targets receipt)"
  obtains owner rel where "owner = source \<or> (\<exists>l \<in> set (pi_linked receipt). owner = authority (ln_root l) \<and> so_binding owner = Some (ln_binding l))"
    "pit_path t = so_root owner @ rel" "so_digest owner rel = Some (pit_digest t)"
proof -
  let ?ss = "source # map (\<lambda>l. authority (ln_root l)) (pi_linked receipt)"
  obtain owner rel where o: "deepest (pit_path t) ?ss = Some (owner, rel)" "so_digest owner rel = Some (pit_digest t)"
    using assms by (auto simp: verify_post_image_bound_def list_all_iff simp del: deepest.simps split: option.splits)
  have "owner \<in> set ?ss" "pit_path t = so_root owner @ rel" using deepest_spec [where path = "pit_path t" and ss = ?ss] o(1) by (simp_all del: deepest.simps)
  then show ?thesis using that o(2) assms(1) by (auto simp: verify_post_image_bound_def list_all_iff simp del: deepest.simps split: option.splits)
qed

section \<open>A schedule\<close>

text \<open>Steps chosen from outside, to exhibit particular runs.\<close>

datatype sched = SCall string string | SRun nat fault | SCrash nat | SRot string bytes | SUpdate nat update

fun sched_step :: "codec \<Rightarrow> (string \<Rightarrow> bool) \<Rightarrow> sched \<Rightarrow> replay_system \<Rightarrow> replay_system" where
  "sched_step codec clean (SCall k request) s = s\<lparr>ry_procs := ry_procs s @ [\<lparr>pr_key = k, pr_request = request, pr_at = Probe\<rparr>]\<rparr>"
| "sched_step codec clean (SRun i fault) s =
     (if i < length (ry_procs s)
      then let p = ry_procs s ! i;
               (pt, d) = replay_next codec clean fault False 0 (pr_key p) (pr_request p) (pr_at p) (ry_disk s)
           in settle i pt d s
      else s)"
| "sched_step codec clean (SCrash i) s =
     (if i < length (ry_procs s) then s\<lparr>ry_procs := take i (ry_procs s) @ drop (Suc i) (ry_procs s)\<rparr> else s)"
| "sched_step codec clean (SRot k b') s =
     (case hget (rd_dirs (ry_disk s)) k of
        Some (Some _) \<Rightarrow> s\<lparr>ry_disk := (ry_disk s)\<lparr>rd_dirs := hinsert k (Some b') (rd_dirs (ry_disk s))\<rparr>\<rparr>
      | _ \<Rightarrow> s)"
| "sched_step codec clean (SUpdate i u) s =
     (if i < length (ry_procs s) \<and> may_update (pr_at (ry_procs s ! i)) then settle i (Update u) (ry_disk s) s else s)"

definition replay_start_state :: replay_system where
  "replay_start_state = \<lparr>ry_disk = disk_new, ry_procs = [], ry_first = [], ry_moved = []\<rparr>"

fun undamaged :: "sched \<Rightarrow> bool" where
  "undamaged (SRot _ _) = False"
| "undamaged _ = True"

lemma sched_step_reach:
  assumes r: "reach replay_init (replay_step codec clean False rot) s" and c: "rot \<or> undamaged c"
  shows "reach replay_init (replay_step codec clean False rot) (sched_step codec clean c s)"
proof (cases c)
  case (SRun i fault)
  show ?thesis
  proof (cases "i < length (ry_procs s)")
    case True
    obtain pt d where n: "replay_next codec clean fault False 0 (pr_key (ry_procs s ! i)) (pr_request (ry_procs s ! i)) (pr_at (ry_procs s ! i)) (ry_disk s) = (pt, d)"
      by force
    have "replay_step codec clean False rot s (settle i pt d s)" by (rule ry_run [OF True refl _ n]) simp
    then show ?thesis using r True n SRun by (auto intro: reach_step)
  qed (use r SRun in simp)
next
  case (SRot k b')
  then show ?thesis using r c by (auto intro: reach_step ry_rot split: option.splits)
next
  case (SCall k request)
  then show ?thesis using r by (auto intro: reach_step ry_call)
next
  case (SCrash i)
  then show ?thesis using r by (auto intro: reach_step ry_crash)
next
  case (SUpdate i u)
  then show ?thesis using r by (auto intro: reach_step ry_update)
qed

lemma sched_reach:
  assumes "\<forall>c \<in> set cs. rot \<or> undamaged c"
  shows "reach replay_init (replay_step codec clean False rot) (fold (sched_step codec clean) cs replay_start_state)"
proof -
  have "reach replay_init (replay_step codec clean False rot) (fold (sched_step codec clean) cs s)"
    if "reach replay_init (replay_step codec clean False rot) s" for s
    using that assms by (induction cs arbitrary: s) (auto intro: sched_step_reach)
  moreover have "reach replay_init (replay_step codec clean False rot) replay_start_state"
    by (rule reach_init) (simp add: replay_init_def replay_start_state_def)
  ultimately show ?thesis by blast
qed



section \<open>Properties\<close>

text \<open>
  C5: a key is executed at most once. Over any number of processes that call, crash and retry, with file-system
  operations failing and record files being damaged, at most one call per key is told to execute, and at
  most one process holds that permission. The one exception needs both a quarantined record and an
  existence check of its directory that fails: with those checks reliable there is none.
\<close>

theorem first_execution_once:
  assumes "reach replay_init (replay_step codec clean stat_ok rot) s"
  shows "(count_list (ry_first s) k \<le> 1 \<or> \<not> stat_ok \<and> k \<in> set (ry_moved s)) \<and>
    at_key holds_first k (ry_procs s) \<le> count_list (ry_first s) k"
  using replay_invD(3,5) [OF reservation.reach_inv [OF assms]] by blast


text \<open>
  C7: a record only moves forward. While no record file is damaged from outside, through any interleaving,
  crash and failed operation, a published record keeps its key, request and creation time, its status moves
  only along the allowed transitions, and one that is Completed, Failed or Uncertain never changes again.
\<close>

theorem record_moves_forward:
  assumes "codec_ok codec" and "reach replay_init (replay_step codec clean stat_ok False) s" and "stored codec k (ry_disk s) = Some r"
    and "(replay_step codec clean stat_ok False)\<^sup>*\<^sup>* s t"
  shows "\<exists>r'. stored codec k (ry_disk t) = Some r' \<and> evolves r r' \<and>
    (if rr_status r = Reserved \<or> rr_status r = Started then True else r' = r)"
proof -
  have "record_inv codec stat_ok s"
    using assms(2) by (induction rule: reach.induct) (use record_init record_step(1) [OF assms(1)] in blast)+
  then obtain r' where "stored codec k (ry_disk t) = Some r'" "evolves r r'"
    using record_run [OF assms(1) _ assms(4)] assms(3) by blast
  then show ?thesis by (cases "rr_status r") (auto simp: evolves_def)
qed

text \<open>
  C9: a completed call is answered from its record, and only for its own request. On a key never used, the
  first call executes; after it completes with a receipt, every later call with the same request is
  answered the stored response if the receipt still verifies, and otherwise told to reconcile; a call with
  another request is refused as a conflict; none executes, and none changes the store.
\<close>

theorem completed_call_replays:
  assumes "codec_ok codec" and "raw_key \<noteq> []" and "tool \<noteq> []"
    and "hget (rd_dirs d) (key_hash sha raw_key) = None" and "key_hash sha raw_key \<notin> set (rd_claims d)"
    and "length response \<le> MAX_REPLAY_RESPONSE_BYTES" and "clean response" and "pi_targets receipt \<noteq> []"
  shows "\<exists>d1 d2 rh r. for_tool_request sha to_vec tool request = Ok rh \<and>
    begin_tool_replay_verified_with sha to_vec codec clean verify now tool raw_key request d = Some (d1, Ok (FirstStart (key_hash sha raw_key) rh)) \<and>
    complete_with_post_image codec clean later (key_hash sha raw_key) rh response (Some receipt) d1 = Some (d2, Ok r) \<and>
    begin_tool_replay_verified_with sha to_vec codec clean verify' now' tool raw_key request d2 =
      Some (d2, Ok (ReplayText (if verify' receipt then response else RECONCILE))) \<and>
    (for_tool_request sha to_vec tool' request' \<noteq> Ok rh \<longrightarrow> tool' \<noteq> [] \<longrightarrow>
       begin_tool_replay_verified_with sha to_vec codec clean verify' now' tool' raw_key request' d2 =
         Some (d2, Err (RequestConflict (key_hash sha raw_key) rh (digest_hex sha (request_frame to_vec tool' request')))))"
proof -
  let ?k = "key_hash sha raw_key" and ?rh = "digest_hex sha (request_frame to_vec tool request)"
  let ?new = "reserved_record now ?k ?rh"
  let ?r = "(with_status_and_response later Completed (Some response) ?new)\<lparr>rr_post_image := Some receipt\<rparr>"
  define d1 where "d1 = d\<lparr>rd_dirs := hinsert ?k (Some (c_enc codec ?new)) (rd_dirs d)\<rparr>"
  define d2 where "d2 = d1\<lparr>rd_dirs := hinsert ?k (Some (c_enc codec ?r)) (rd_dirs d1)\<rparr>"
  have rh: "for_tool_request sha to_vec tool request = Ok ?rh" using assms(3) by (simp add: for_tool_request_def)
  have k: "key_new raw_key = Ok raw_key" using assms(2) by (simp add: key_new_def)
  have v: "validate_replay_response clean response = Ok ()" using assms(6,7) by (simp add: validate_replay_response_def)
  have 1: "begin_tool_replay_verified_with sha to_vec codec clean verify now tool raw_key request d = Some (d1, Ok (FirstStart ?k ?rh))"
    by (simp add: begin_tool_replay_verified_with_def begin_with_def k rh check_fresh [OF assms(4,5)] d1_def)
  have l1: "read_record codec Fine ?k d1 = Loaded ?new" unfolding d1_def by (rule read_written [OF assms(1)]) (simp_all add: reserved_record_def)
  have up: "apply_update later (SetReceipt response receipt) ?rh ?new = Ok ?r"
    by (simp add: apply_update_def ensure_same_hash_def reserved_record_def)
  have 2: "complete_with_post_image codec clean later ?k ?rh response (Some receipt) d1 = Some (d2, Ok ?r)"
    using update_loaded [OF l1 up, of clean] v assms(8)
    by (simp add: complete_with_post_image_def update_status_with_receipt_def update_response_def with_status_and_response_def reserved_record_def d2_def)
  have l2: "read_record codec Fine ?k d2 = Loaded ?r"
    unfolding d2_def by (rule read_written [OF assms(1)]) (simp_all add: reserved_record_def with_status_and_response_def)
  note check2 = check_loaded [OF l2]
  have "replay_loaded ?rh ?r = Ok (Replay ?r)" by (simp add: replay_loaded_def ensure_same_hash_def reserved_record_def with_status_and_response_def)
  moreover have "verified_answer clean verify' ?r = (if verify' receipt then response else RECONCILE)"
    using v by (simp add: verified_answer_def replay_response_def with_status_and_response_def Let_def)
  ultimately have 3: "begin_tool_replay_verified_with sha to_vec codec clean verify' now' tool raw_key request d2 =
      Some (d2, Ok (ReplayText (if verify' receipt then response else RECONCILE)))"
    by (simp only: begin_tool_replay_verified_with_def begin_with_def k rh check2 prod.case sum.case option.case replay_decision.case)
  have 4: "begin_tool_replay_verified_with sha to_vec codec clean verify' now' tool' raw_key request' d2 =
         Some (d2, Err (RequestConflict ?k ?rh (digest_hex sha (request_frame to_vec tool' request'))))"
    if "for_tool_request sha to_vec tool' request' \<noteq> Ok ?rh" "tool' \<noteq> []"
  proof -
    have rh': "for_tool_request sha to_vec tool' request' = Ok (digest_hex sha (request_frame to_vec tool' request'))"
        "digest_hex sha (request_frame to_vec tool' request') \<noteq> ?rh"
      using that by (auto simp: for_tool_request_def)
    have "replay_loaded (digest_hex sha (request_frame to_vec tool' request')) ?r =
        Err (RequestConflict ?k ?rh (digest_hex sha (request_frame to_vec tool' request')))"
      using rh'(2) by (auto simp: replay_loaded_def ensure_same_hash_def reserved_record_def with_status_and_response_def)
    then show ?thesis
      by (simp only: begin_tool_replay_verified_with_def begin_with_def k rh'(1) check2 prod.case sum.case option.case)
  qed
  show ?thesis using rh 1 2 3 4 by blast
qed

text \<open>
  A claim that is not released blocks its key for good. If creating the claim succeeded but writing it
  failed, the call returns an error and leaves the marker behind; whatever anybody does afterwards, no call
  with that key is ever told to execute.
\<close>

lemma failed_claim_write_blocks_key:
  assumes "reach replay_init (replay_step codec clean stat_ok rot) s" and "i < length (ry_procs s)"
    and "pr_at (ry_procs s ! i) = WriteClaim r b" and "hget (rd_dirs (ry_disk s)) (pr_key (ry_procs s ! i)) = None" and "fault \<noteq> Fine"
    and "replay_next codec clean fault timeout now (pr_key (ry_procs s ! i)) (pr_request (ry_procs s ! i)) (pr_at (ry_procs s ! i)) (ry_disk s) = (pt, d)"
    and "(replay_step codec clean stat_ok rot)\<^sup>*\<^sup>* (settle i pt d s) t"
  shows "pt = Returned (Err ReplayIo) \<and> pr_key (ry_procs s ! i) \<notin> set (ry_first t) \<and> pr_key (ry_procs s ! i) \<in> set (rd_claims (ry_disk t))"
proof -
  let ?p = "ry_procs s ! i"
  let ?k = "pr_key ?p"
  have inv: "replay_inv stat_ok s" using reservation.reach_inv [OF assms(1)] .
  have pt: "pt = Returned (Err ReplayIo)" "d = ry_disk s" using assms(3,5,6) by auto
  have ps: "?p \<in> set (ry_procs s)" using assms(2) by simp
  have one: "at_key in_claim ?k (ry_procs s) = 1" and kc: "?k \<in> set (rd_claims (ry_disk s))"
    using replay_invD(4) [OF inv, of ?k] at_key_pos [OF ps, of in_claim] assms(3) by (auto split: if_splits)
  have "replay_step codec clean stat_ok rot s (settle i pt d s)" by (rule ry_run [OF assms(2) refl _ assms(6)]) (simp add: assms(3))
  then have "replay_inv False (settle i pt d s)" using replay_inv_weaken replay_step_inv inv by blast
  moreover have "at_key in_claim ?k (ry_procs (settle i pt d s)) = 0"
    using at_key_split [OF assms(2), of in_claim ?k] one assms(3) pt(1) by (simp add: settle_def Let_def)
  ultimately have "blocked ?k (settle i pt d s)" using kc assms(4) pt(2) by (simp add: blocked_def settle_def Let_def)
  then have "blocked ?k t" using blocked.inv_steps [OF assms(7)] by blast
  then show ?thesis using blocked_not_first pt(1) by (auto simp: blocked_def)
qed

text \<open>
  C38: a call ends. Whatever the other processes do between its operations and whichever operations fail, ten
  operations after its deadline has passed at the latest, a reservation or a record update has returned.
\<close>

theorem replay_call_ends:
  assumes "\<forall>i \<ge> n. timeouts i"
  shows "case fst (run_call codec clean faults timeouts env now k request (n + CALL_STEPS) p d) of
    Returned r \<Rightarrow> True | UpdateDone r \<Rightarrow> True | _ \<Rightarrow> False"
proof -
  obtain pt dt where 1: "run_call codec clean faults timeouts env now k request n p d = (pt, dt)" by force
  have "remaining (fst (run_call codec clean faults timeouts env now k request (n + CALL_STEPS) p d)) \<le> remaining pt - CALL_STEPS"
    unfolding run_call_add 1 prod.case by (rule run_call_remaining) (use assms in simp)
  then have "remaining (fst (run_call codec clean faults timeouts env now k request (n + CALL_STEPS) p d)) = 0"
    using remaining_le [of pt] by simp
  then show ?thesis unfolding remaining_0 by auto
qed

text \<open>
  C32: a request hash identifies the request. Requests that differ only in the order of object members, at any
  depth, have the same hash; and two requests with the same hash are for the same tool and have the same
  canonical form, the value itself in member order, unless SHA-256 collides on their frames.
\<close>

theorem request_hash_identifies_request:
  assumes "CHR 0x00 \<notin> set tool" and "CHR 0x00 \<notin> set tool'" and "tool \<noteq> []" and "tool' \<noteq> []" and "json_ok v"
  shows "same_json v (canonicalize_value v) \<and>
    (same_json v w \<longrightarrow> for_tool_request sha to_vec tool v = for_tool_request sha to_vec tool w) \<and>
    (for_tool_request sha to_vec tool v = for_tool_request sha to_vec tool' w \<longrightarrow>
       tool = tool' \<and> to_vec (canonicalize_value v) = to_vec (canonicalize_value w) \<or>
       request_frame to_vec tool v \<noteq> request_frame to_vec tool' w \<and> sha (request_frame to_vec tool v) = sha (request_frame to_vec tool' w))"
proof (intro conjI impI)
  show "same_json v (canonicalize_value v)" using canonical_same [OF assms(5)] .
  show "for_tool_request sha to_vec tool v = for_tool_request sha to_vec tool w" if "same_json v w"
    using same_json_canonical [OF that] by (simp add: for_tool_request_def request_frame_def)
  assume e: "for_tool_request sha to_vec tool v = for_tool_request sha to_vec tool' w"
  then have s: "sha (request_frame to_vec tool v) = sha (request_frame to_vec tool' w)"
    using assms(3,4) by (simp add: for_tool_request_def digest_hex_eq)
  show "tool = tool' \<and> to_vec (canonicalize_value v) = to_vec (canonicalize_value w) \<or>
       request_frame to_vec tool v \<noteq> request_frame to_vec tool' w \<and> sha (request_frame to_vec tool v) = sha (request_frame to_vec tool' w)"
  proof (cases "request_frame to_vec tool v = request_frame to_vec tool' w")
    case True
    then have "ascii tool = ascii tool' \<and> to_vec (canonicalize_value v) = to_vec (canonicalize_value w)"
      using append_nul_eq [OF _ ascii_nul [OF assms(1)] ascii_nul [OF assms(2)]] by (simp add: request_frame_def)
    then show ?thesis by (simp add: ascii_eq)
  qed (use s in simp)
qed

section \<open>Witnesses\<close>

instance replay_status :: countable
  by countable_datatype

text \<open>A codec with the round trip: a record's fields as a number, and the number as the length of the file.\<close>

definition pack_image :: "post_image \<Rightarrow> (name list \<times> string option) list \<times> (string \<times> bytes) option \<times> (name list \<times> string \<times> bytes) list" where
  "pack_image i = (map (\<lambda>t. (pit_path t, pit_digest t)) (pi_targets i), map_option (\<lambda>b. (sb_project_id b, sb_root_key b)) (pi_source i),
     map (\<lambda>l. (ln_root l, sb_project_id (ln_binding l), sb_root_key (ln_binding l))) (pi_linked i))"

definition unpack_image where
  "unpack_image = (\<lambda>(ts, b, ls). \<lparr>pi_targets = map (\<lambda>(p, g). \<lparr>pit_path = p, pit_digest = g\<rparr>) ts,
     pi_source = map_option (\<lambda>(i, k). \<lparr>sb_project_id = i, sb_root_key = k\<rparr>) b,
     pi_linked = map (\<lambda>(r, i, k). \<lparr>ln_root = r, ln_binding = \<lparr>sb_project_id = i, sb_root_key = k\<rparr>\<rparr>) ls\<rparr>)"

definition wit_codec :: codec where
  "wit_codec = \<lparr>c_enc = (\<lambda>r. replicate (to_nat (rr_schema r, rr_key_hash r, rr_request r, rr_status r, rr_created r, rr_updated r, rr_response r,
       map_option pack_image (rr_post_image r))) 0),
     c_dec = (\<lambda>b. case from_nat (length b) of (a, k, q, t, c, u, p, i) \<Rightarrow>
       Some \<lparr>rr_schema = a, rr_key_hash = k, rr_request = q, rr_status = t, rr_created = c, rr_updated = u, rr_response = p,
             rr_post_image = map_option unpack_image i\<rparr>)\<rparr>"

lemma unpack_packed: "unpack_image (pack_image i) = i"
proof -
  have e1: "\<lparr>pit_path = pit_path x, pit_digest = pit_digest x\<rparr> = x" for x :: post_image_target by (cases x) simp
  have e2: "\<lparr>sb_project_id = sb_project_id x, sb_root_key = sb_root_key x\<rparr> = x" for x :: source_binding by (cases x) simp
  have e3: "\<lparr>ln_root = ln_root x, ln_binding = ln_binding x\<rparr> = x" for x :: linked_source by (cases x) simp
  show ?thesis by (cases i) (simp add: unpack_image_def pack_image_def option.map_comp comp_def option.map_ident e1 e2 e3)
qed

lemma wit_codec_ok: "codec_ok wit_codec"
  by (simp add: codec_ok_def wit_codec_def option.map_comp comp_def unpack_packed option.map_ident)

definition wit_reserved :: replay_system where
  "wit_reserved = fold (sched_step wit_codec (\<lambda>_. True)) (SCall ''k'' ''q'' # replicate 7 (SRun 0 Fine)) replay_start_state"

lemma wit_reserved_reach: "reach replay_init (replay_step wit_codec (\<lambda>_. True) False False) wit_reserved"
  unfolding wit_reserved_def by (rule sched_reach) simp

lemma wit_reserved_state:
  "ry_first wit_reserved = [''k'']" "ry_moved wit_reserved = []"
  "hget (rd_dirs (ry_disk wit_reserved)) ''k'' = Some (Some (c_enc wit_codec (reserved_record 0 ''k'' ''q'')))"
  by (simp_all add: wit_reserved_def replay_start_state_def disk_new_def eval_nat_numeral settle_def key_dir_exists_def moved_aside_def Let_def)

theorem first_execution_once_witness:
  "count_list (ry_first wit_reserved) ''k'' = 1 \<and> at_key holds_first ''k'' (ry_procs wit_reserved) \<le> 1"
  using first_execution_once [OF wit_reserved_reach, of "''k''"] wit_reserved_state(1) by simp


theorem record_moves_forward_witness:
  "\<exists>r'. stored wit_codec ''k'' (ry_disk wit_reserved) = Some r' \<and> evolves (reserved_record 0 ''k'' ''q'') r'"
proof -
  have "stored wit_codec ''k'' (ry_disk wit_reserved) = Some (reserved_record 0 ''k'' ''q'')"
    using wit_codec_ok by (simp add: stored_def wit_reserved_state codec_ok_def)
  from record_moves_forward [OF wit_codec_ok wit_reserved_reach this rtranclp.rtrancl_refl] show ?thesis by blast
qed

definition wit_receipt :: post_image where
  "wit_receipt = \<lparr>pi_targets = [\<lparr>pit_path = [''a''], pit_digest = Some ''0f''\<rparr>], pi_source = None, pi_linked = []\<rparr>"

theorem completed_call_replays_witness:
  "\<exists>d1 d2 rh r. begin_tool_replay_verified_with (\<lambda>b. b) (\<lambda>_. []) wit_codec (\<lambda>_. True) (\<lambda>_. True) 1 ''edit'' ''key'' JNull disk_new =
      Some (d1, Ok (FirstStart (key_hash (\<lambda>b. b) ''key'') rh)) \<and>
    complete_with_post_image wit_codec (\<lambda>_. True) 2 (key_hash (\<lambda>b. b) ''key'') rh ''done'' (Some wit_receipt) d1 = Some (d2, Ok r) \<and>
    begin_tool_replay_verified_with (\<lambda>b. b) (\<lambda>_. []) wit_codec (\<lambda>_. True) (\<lambda>_. True) 3 ''edit'' ''key'' JNull d2 = Some (d2, Ok (ReplayText ''done''))"
  using completed_call_replays [OF wit_codec_ok, of "''key''" "''edit''" disk_new "\<lambda>b. b" "''done''" "\<lambda>_. True" wit_receipt
      "\<lambda>_. []" JNull "\<lambda>_. True" 1 2 "\<lambda>_. True" 3 "''edit''" JNull]
  by (auto simp: disk_new_def MAX_REPLAY_RESPONSE_BYTES_def wit_receipt_def)

definition wit_claimed :: replay_system where
  "wit_claimed = fold (sched_step wit_codec (\<lambda>_. True)) (SCall ''k'' ''q'' # replicate 3 (SRun 0 Fine)) replay_start_state"

lemma wit_claimed_reach: "reach replay_init (replay_step wit_codec (\<lambda>_. True) False False) wit_claimed"
  unfolding wit_claimed_def by (rule sched_reach) simp

lemma wit_claimed_state:
  "ry_procs wit_claimed = [\<lparr>pr_key = ''k'', pr_request = ''q'',
     pr_at = WriteClaim (reserved_record 0 ''k'' ''q'') (c_enc wit_codec (reserved_record 0 ''k'' ''q''))\<rparr>]"
  "rd_dirs (ry_disk wit_claimed) = []"
  by (simp_all add: wit_claimed_def replay_start_state_def disk_new_def eval_nat_numeral settle_def key_dir_exists_def moved_aside_def Let_def)

theorem failed_claim_write_blocks_key_witness:
  "''k'' \<notin> set (ry_first (settle 0 (Returned (Err ReplayIo)) (ry_disk wit_claimed) wit_claimed)) \<and>
   ''k'' \<in> set (rd_claims (ry_disk (settle 0 (Returned (Err ReplayIo)) (ry_disk wit_claimed) wit_claimed)))"
  using failed_claim_write_blocks_key [OF wit_claimed_reach, of 0 "reserved_record 0 ''k'' ''q''"
      "c_enc wit_codec (reserved_record 0 ''k'' ''q'')" Refused False 0 "Returned (Err ReplayIo)" "ry_disk wit_claimed"
      "settle 0 (Returned (Err ReplayIo)) (ry_disk wit_claimed) wit_claimed"]
  by (simp add: wit_claimed_state)

theorem request_hash_identifies_request_witness:
  "for_tool_request (\<lambda>b. b) (\<lambda>_. []) ''edit'' (JObject [(''b'', JNull), (''a'', JBool True)]) =
   for_tool_request (\<lambda>b. b) (\<lambda>_. []) ''edit'' (JObject [(''a'', JBool True), (''b'', JNull)])"
proof -
  have "same_json (JObject [(''b'', JNull), (''a'', JBool True)]) (JObject [(''a'', JBool True), (''b'', JNull)])"
    by (rule sj_object [of _ "[(''b'', JNull), (''a'', JBool True)]"]) (auto intro: sj_refl)
  then show ?thesis
    using request_hash_identifies_request [of "''edit''" "''edit''" "JObject [(''b'', JNull), (''a'', JBool True)]"
        "JObject [(''a'', JBool True), (''b'', JNull)]" "\<lambda>b. b" "\<lambda>_. []"] by simp
qed

theorem replay_call_ends_witness:
  "case fst (run_call wit_codec (\<lambda>_. True) (\<lambda>_. Fine) (\<lambda>i. 2 \<le> i) (\<lambda>_ d. d) 0 ''k'' ''q'' (2 + CALL_STEPS) Probe disk_new) of
    Returned r \<Rightarrow> True | UpdateDone r \<Rightarrow> True | _ \<Rightarrow> False"
  by (rule replay_call_ends) simp

end
