(* ===== verification/Verification.thy ===== *)
theory Verification
  imports Prelude
begin

text \<open>
  Rolling verification: \<open>src/index_lifecycle/verification.rs\<close>.

  A verifier owns a sealed scope receipt (entries and their stamps), the time of its last proof and the cause
  why it is not current, if there is one. A pass over the scope collects observed stamps and becomes a record only
  when they are exactly the sealed ones; a record moves the deadline. Instants are milliseconds and all 64-bit
  values are \<open>nat\<close>. A \<open>BTreeMap\<close> is an \<open>hmap\<close>.
\<close>

section \<open>Receipts, work bounds and passes\<close>

definition DEFAULT_MAX_VERIFICATION_BYTES :: nat where "DEFAULT_MAX_VERIFICATION_BYTES = 17179869184"

definition DEFAULT_MAX_VERIFICATION_ENTRIES :: nat where "DEFAULT_MAX_VERIFICATION_ENTRIES = 200000"

definition DEFAULT_MAX_COMPLETE_VERIFICATION_PASS :: nat where "DEFAULT_MAX_COMPLETE_VERIFICATION_PASS = 720"

definition RESERVED_VERIFICATION_BYTES_PER_SECOND :: nat where "RESERVED_VERIFICATION_BYTES_PER_SECOND = 33554432"

definition RESERVED_VERIFICATION_ENTRIES_PER_SECOND :: nat where "RESERVED_VERIFICATION_ENTRIES_PER_SECOND = 1000"

definition MAX_CURRENT_UNVERIFIED_AGE :: nat where "MAX_CURRENT_UNVERIFIED_AGE = 900"

definition age_millis :: nat where "age_millis = MAX_CURRENT_UNVERIFIED_AGE * 1000"

datatype non_current_cause = OverdueCause | ReservationLost | PolicyCause

datatype verification_refusal =
    OverdueLatched
  | NotWholeScope nat nat nat
  | ProofFenced
  | WorkBeyondCaps
  | PolicyMismatch
  | FeasibilityNotForThisScope
  | NonCurrent non_current_cause
  | ScopeDirty

record scope_receipt =
  sc_id :: nat
  sc_policy :: nat
  sc_entries :: "(nat, nat) hmap"

text \<open>The process-wide receipt counter is passed in and out.\<close>

definition seal :: "nat \<Rightarrow> (nat, nat) hmap \<Rightarrow> nat \<Rightarrow> nat \<times> scope_receipt" where
  "seal policy entries next_receipt =
     (next_receipt + 1, \<lparr>sc_id = next_receipt, sc_policy = policy, sc_entries = entries\<rparr>)"

record work_bound =
  wb_scope_receipt :: nat
  wb_bound :: nat

definition div_ceil :: "nat \<Rightarrow> nat \<Rightarrow> nat" where
  "div_ceil a b = (if a mod b > 0 then a div b + 1 else a div b)"

definition for_scope :: "scope_receipt \<Rightarrow> nat \<Rightarrow> nat \<Rightarrow> (verification_refusal, work_bound) result" where
  "for_scope receipt verification_bytes verification_entries =
     (if verification_bytes > DEFAULT_MAX_VERIFICATION_BYTES \<or> verification_entries > DEFAULT_MAX_VERIFICATION_ENTRIES
      then Err WorkBeyondCaps
      else Ok \<lparr>wb_scope_receipt = sc_id receipt,
               wb_bound = div_ceil verification_bytes RESERVED_VERIFICATION_BYTES_PER_SECOND
                 + div_ceil verification_entries RESERVED_VERIFICATION_ENTRIES_PER_SECOND\<rparr>)"

record feasibility_receipt =
  fe_work :: work_bound

definition reserve_pass :: "work_bound \<Rightarrow> feasibility_receipt" where
  "reserve_pass work = \<lparr>fe_work = work\<rparr>"

definition fe_scope_receipt :: "feasibility_receipt \<Rightarrow> nat" where
  "fe_scope_receipt f = wb_scope_receipt (fe_work f)"

record verification_record =
  ve_receipt :: nat

record rolling_pass =
  rp_receipt :: nat
  rp_scope :: "(nat, nat) hmap"
  rp_verified :: "(nat, nat) hmap"

definition verify_chunk :: "(nat, nat) hmap \<Rightarrow> rolling_pass \<Rightarrow> rolling_pass" where
  "verify_chunk observed p = p\<lparr>rp_verified := fold (\<lambda>(i, stamp). hinsert i stamp) observed (rp_verified p)\<rparr>"

definition pass_remaining :: "rolling_pass \<Rightarrow> nat list" where
  "pass_remaining p = filter (\<lambda>i. hget (rp_verified p) i = None) (hkeys (rp_scope p))"

definition pass_complete :: "rolling_pass \<Rightarrow> (verification_refusal, verification_record) result" where
  "pass_complete p =
     (let missing = length (filter (\<lambda>i. hget (rp_verified p) i = None) (hkeys (rp_scope p)));
          extra = length (filter (\<lambda>i. hget (rp_scope p) i = None) (hkeys (rp_verified p)));
          mismatched = length (filter (\<lambda>(i, stamp). case hget (rp_verified p) i of Some seen \<Rightarrow> seen \<noteq> stamp | None \<Rightarrow> False) (rp_scope p))
      in if missing + extra + mismatched > 0 then Err (NotWholeScope missing extra mismatched)
         else Ok \<lparr>ve_receipt = rp_receipt p\<rparr>)"

section \<open>The scheduler of passes\<close>

definition register :: "nat \<Rightarrow> nat list \<Rightarrow> nat list" where
  "register pass_id queue = queue @ [pass_id]"

fun next_grant :: "nat list \<Rightarrow> nat list \<times> nat option" where
  "next_grant [] = ([], None)"
| "next_grant (granted # queue) = (queue @ [granted], Some granted)"

section \<open>The verifier\<close>

record verifier =
  rv_receipt :: scope_receipt
  rv_feasibility :: feasibility_receipt
  rv_verified_at :: nat
  rv_non_current :: "non_current_cause option"
  rv_scope_dirty :: bool

definition verifier_promote ::
  "scope_receipt \<Rightarrow> feasibility_receipt \<Rightarrow> nat \<Rightarrow> (verification_refusal, verifier) result" where
  "verifier_promote receipt feasibility now =
     (if fe_scope_receipt feasibility \<noteq> sc_id receipt then Err FeasibilityNotForThisScope
      else Ok \<lparr>rv_receipt = receipt, rv_feasibility = feasibility, rv_verified_at = now, rv_non_current = None, rv_scope_dirty = False\<rparr>)"

definition policy_refused :: "verifier \<Rightarrow> verifier" where
  "policy_refused v = (if rv_non_current v = None then v\<lparr>rv_non_current := Some PolicyCause\<rparr> else v)"

definition begin_pass :: "nat \<Rightarrow> verifier \<Rightarrow> verifier \<times> (verification_refusal, rolling_pass) result" where
  "begin_pass policy v =
     (if policy \<noteq> sc_policy (rv_receipt v) then (policy_refused v, Err PolicyMismatch)
      else (v, case rv_non_current v of
                 Some ReservationLost \<Rightarrow> Err (NonCurrent ReservationLost)
               | Some PolicyCause \<Rightarrow> Err (NonCurrent PolicyCause)
               | _ \<Rightarrow> Ok \<lparr>rp_receipt = sc_id (rv_receipt v), rp_scope = sc_entries (rv_receipt v), rp_verified = []\<rparr>))"

definition verifier_is_current :: "verifier \<Rightarrow> nat \<Rightarrow> bool" where
  "verifier_is_current v now \<longleftrightarrow> rv_non_current v = None \<and> now < rv_verified_at v + age_millis"

definition verifier_acquire_strict :: "nat \<Rightarrow> verifier \<Rightarrow> verifier \<times> (verification_refusal, unit) result" where
  "verifier_acquire_strict now v =
     (case rv_non_current v of
        Some OverdueCause \<Rightarrow> (v, Err OverdueLatched)
      | Some c \<Rightarrow> (v, Err (NonCurrent c))
      | None \<Rightarrow>
          if now \<ge> rv_verified_at v + age_millis
          then (v\<lparr>rv_non_current := Some OverdueCause\<rparr>, Err OverdueLatched)
          else (v, Ok ()))"

definition advance :: "verification_record \<Rightarrow> nat \<Rightarrow> verifier \<Rightarrow> verifier \<times> (verification_refusal, unit) result" where
  "advance r now v =
     (if ve_receipt r \<noteq> sc_id (rv_receipt v) then (v, Err ProofFenced)
      else if rv_scope_dirty v then (v, Err ScopeDirty)
      else case rv_non_current v of
             Some ReservationLost \<Rightarrow> (v, Err (NonCurrent ReservationLost))
           | Some PolicyCause \<Rightarrow> (v, Err (NonCurrent PolicyCause))
           | _ \<Rightarrow> (v\<lparr>rv_non_current := None, rv_verified_at := now\<rparr>, Ok ()))"

definition refresh_scope :: "scope_receipt \<Rightarrow> verifier \<Rightarrow> verifier \<times> (verification_refusal, unit) result" where
  "refresh_scope receipt v =
     (if sc_policy receipt \<noteq> sc_policy (rv_receipt v) then (policy_refused v, Err PolicyMismatch)
      else (v\<lparr>rv_receipt := receipt, rv_scope_dirty := False\<rparr>, Ok ()))"

definition observe_rewrite :: "nat \<Rightarrow> nat \<Rightarrow> verifier \<Rightarrow> verifier" where
  "observe_rewrite entry stamp v =
     (case hget (sc_entries (rv_receipt v)) entry of
        Some sealed \<Rightarrow> if sealed = stamp then v else v\<lparr>rv_scope_dirty := True\<rparr>
      | None \<Rightarrow> v\<lparr>rv_scope_dirty := True\<rparr>)"

definition reservation_lost :: "verifier \<Rightarrow> verifier" where
  "reservation_lost v = v\<lparr>rv_non_current := Some ReservationLost\<rparr>"

definition re_scout ::
  "scope_receipt \<Rightarrow> feasibility_receipt \<Rightarrow> nat \<Rightarrow> verifier \<Rightarrow> verifier \<times> (verification_refusal, unit) result" where
  "re_scout receipt feasibility now v =
     (if fe_scope_receipt feasibility \<noteq> sc_id receipt then (v, Err FeasibilityNotForThisScope)
      else (v\<lparr>rv_receipt := receipt, rv_feasibility := feasibility, rv_verified_at := now,
              rv_non_current := None, rv_scope_dirty := False\<rparr>, Ok ()))"

lemmas verifier_defs = verifier_promote_def policy_refused_def begin_pass_def verifier_is_current_def
  verifier_acquire_strict_def advance_def refresh_scope_def observe_rewrite_def reservation_lost_def re_scout_def

section \<open>The verifier among its receipts, passes and records\<close>

text \<open>
  Receipts, passes and records cannot be copied: the world holds those that are sealed, begun or completed and
  not consumed yet. \<open>vw_log\<close> is history: the observations every completed pass had collected. \<open>vw_rewrites\<close> is
  history too: the rewrites observed since the present receipt was installed.
\<close>

record verifier_world =
  vw_next :: nat
  vw_verifier :: verifier
  vw_receipts :: "scope_receipt list"
  vw_passes :: "rolling_pass list"
  vw_records :: "verification_record list"
  vw_log :: "(nat \<times> (nat, nat) hmap) list"
  vw_rewrites :: "(nat \<times> nat) list"

inductive verifier_init :: "verifier_world \<Rightarrow> bool" where
  "seal policy entries n = (n', receipt) \<Longrightarrow> hok entries \<Longrightarrow> verifier_promote receipt f now = Inr v \<Longrightarrow>
   verifier_init \<lparr>vw_next = n', vw_verifier = v, vw_receipts = [], vw_passes = [], vw_records = [], vw_log = [], vw_rewrites = []\<rparr>"

inductive verifier_step :: "verifier_world \<Rightarrow> verifier_world \<Rightarrow> bool" where
  vs_seal: "seal policy entries (vw_next w) = (n, receipt) \<Longrightarrow> hok entries \<Longrightarrow>
    verifier_step w (w\<lparr>vw_next := n, vw_receipts := receipt # vw_receipts w\<rparr>)"
| vs_begin: "begin_pass policy (vw_verifier w) = (v, r) \<Longrightarrow>
    verifier_step w (w\<lparr>vw_verifier := v, vw_passes := (case r of Inr p \<Rightarrow> p # vw_passes w | Inl _ \<Rightarrow> vw_passes w)\<rparr>)"
| vs_chunk: "p \<in> set (vw_passes w) \<Longrightarrow>
    verifier_step w (w\<lparr>vw_passes := verify_chunk observed p # remove1 p (vw_passes w)\<rparr>)"
| vs_complete: "p \<in> set (vw_passes w) \<Longrightarrow> pass_complete p = Inr r \<Longrightarrow>
    verifier_step w (w\<lparr>vw_passes := remove1 p (vw_passes w), vw_records := r # vw_records w, vw_log := (rp_receipt p, rp_verified p) # vw_log w\<rparr>)"
| vs_incomplete: "p \<in> set (vw_passes w) \<Longrightarrow> pass_complete p = Inl e \<Longrightarrow>
    verifier_step w (w\<lparr>vw_passes := remove1 p (vw_passes w)\<rparr>)"
| vs_acquire: "verifier_acquire_strict now (vw_verifier w) = (v, r) \<Longrightarrow> verifier_step w (w\<lparr>vw_verifier := v\<rparr>)"
| vs_advance: "r \<in> set (vw_records w) \<Longrightarrow> advance r now (vw_verifier w) = (v, res) \<Longrightarrow>
    verifier_step w (w\<lparr>vw_verifier := v, vw_records := remove1 r (vw_records w)\<rparr>)"
| vs_refresh: "receipt \<in> set (vw_receipts w) \<Longrightarrow> refresh_scope receipt (vw_verifier w) = (v, res) \<Longrightarrow>
    verifier_step w (w\<lparr>vw_verifier := v, vw_receipts := remove1 receipt (vw_receipts w),
      vw_rewrites := (if res = Inr () then [] else vw_rewrites w)\<rparr>)"
| vs_rewrite: "verifier_step w (w\<lparr>vw_verifier := observe_rewrite entry stamp (vw_verifier w), vw_rewrites := (entry, stamp) # vw_rewrites w\<rparr>)"
| vs_lost: "verifier_step w (w\<lparr>vw_verifier := reservation_lost (vw_verifier w)\<rparr>)"
| vs_rescout: "receipt \<in> set (vw_receipts w) \<Longrightarrow> re_scout receipt f now (vw_verifier w) = (v, res) \<Longrightarrow>
    verifier_step w (w\<lparr>vw_verifier := v, vw_receipts := remove1 receipt (vw_receipts w),
      vw_rewrites := (if res = Inr () then [] else vw_rewrites w)\<rparr>)"

section \<open>Lemmas\<close>

lemma complete_iff:
  assumes "hok (rp_scope p)"
  shows "pass_complete p = Inr r \<longleftrightarrow> hget (rp_verified p) = hget (rp_scope p) \<and> r = \<lparr>ve_receipt = rp_receipt p\<rparr>"
proof -
  let ?v = "hget (rp_verified p)" and ?s = "hget (rp_scope p)"
  have "(\<forall>i \<in> set (hkeys (rp_scope p)). ?v i \<noteq> None) \<and> (\<forall>i \<in> set (hkeys (rp_verified p)). ?s i \<noteq> None) \<and>
      (\<forall>(i, stamp) \<in> set (rp_scope p). \<not> (case ?v i of Some seen \<Rightarrow> seen \<noteq> stamp | None \<Rightarrow> False)) \<longleftrightarrow> ?v = ?s" (is "?l \<longleftrightarrow> _")
  proof
    assume l: ?l
    show "?v = ?s"
    proof
      fix i show "?v i = ?s i"
      proof (cases "?s i")
        case None
        then show ?thesis using l by (metis hget_None_iff list.set_map)
      next
        case (Some stamp)
        then have "(i, stamp) \<in> set (rp_scope p)" by (rule map_of_SomeD)
        then show ?thesis using l Some by (fastforce split: option.splits)
      qed
    qed
  next
    assume e: "?v = ?s"
    have "?s i = Some stamp" if "(i, stamp) \<in> set (rp_scope p)" for i stamp using that assms by (simp add: hget_Some_iff)
    then show ?l using e by (auto simp: hget_None_iff split: option.splits) (metis e hget_None_iff image_eqI fst_conv)+
  qed
  moreover have "pass_complete p = Inr r \<longleftrightarrow> ?l \<and> r = \<lparr>ve_receipt = rp_receipt p\<rparr>"
    by (simp add: pass_complete_def Let_def filter_empty_conv del: set_map) (auto split: prod.splits)
  ultimately show ?thesis by blast
qed

definition verifier_inv :: "verifier_world \<Rightarrow> bool" where
  "verifier_inv w \<longleftrightarrow>
     (let v = vw_verifier w; own = sc_id (rv_receipt v)
      in own < vw_next w \<and> hok (sc_entries (rv_receipt v)) \<and> distinct (map sc_id (vw_receipts w)) \<and>
         (\<forall>c \<in> set (vw_receipts w). sc_id c < vw_next w \<and> sc_id c \<noteq> own \<and> hok (sc_entries c)) \<and>
         (\<forall>p \<in> set (vw_passes w). rp_receipt p < vw_next w \<and> hok (rp_scope p) \<and> (\<forall>c \<in> set (vw_receipts w). rp_receipt p \<noteq> sc_id c) \<and>
            (rp_receipt p = own \<longrightarrow> rp_scope p = sc_entries (rv_receipt v))) \<and>
         (\<forall>r \<in> set (vw_records w). ve_receipt r \<in> fst ` set (vw_log w)) \<and>
         (\<forall>(i, obs) \<in> set (vw_log w). i < vw_next w \<and> (\<forall>c \<in> set (vw_receipts w). i \<noteq> sc_id c) \<and>
            (i = own \<longrightarrow> hget obs = hget (sc_entries (rv_receipt v)))) \<and>
         (\<not> rv_scope_dirty v \<longrightarrow> (\<forall>(entry, stamp) \<in> set (vw_rewrites w). hget (sc_entries (rv_receipt v)) entry = Some stamp)))"

lemma sealed_kept:
  assumes "begin_pass policy v = (v', r) \<or> verifier_acquire_strict now v = (v', s) \<or> advance c now v = (v', s) \<or> v' = reservation_lost v \<or> v' = policy_refused v"
  shows "rv_receipt v' = rv_receipt v \<and> rv_scope_dirty v' = rv_scope_dirty v"
  using assms by (auto simp: verifier_defs split: if_splits option.splits non_current_cause.splits)

lemma verifier_inv_kept:
  assumes "verifier_inv w" "rv_receipt v = rv_receipt (vw_verifier w) \<and> rv_scope_dirty v = rv_scope_dirty (vw_verifier w)"
  shows "verifier_inv (w\<lparr>vw_verifier := v\<rparr>)"
  using assms by (simp add: verifier_inv_def Let_def)

lemma verifier_inv_less:
  assumes "verifier_inv w" "set ps \<subseteq> set (vw_passes w)" "set rs \<subseteq> set (vw_records w)" "set cs \<subseteq> set (vw_receipts w)" "distinct (map sc_id cs)"
  shows "verifier_inv (w\<lparr>vw_receipts := cs, vw_passes := ps, vw_records := rs\<rparr>)"
  using assms unfolding verifier_inv_def Let_def by (simp add: subset_eq split_beta)

lemma verifier_inv_install:
  assumes "verifier_inv w" "c \<in> set (vw_receipts w)" "rv_receipt v = c" "\<not> rv_scope_dirty v"
  shows "verifier_inv (w\<lparr>vw_verifier := v, vw_receipts := remove1 c (vw_receipts w), vw_rewrites := []\<rparr>)"
proof -
  have d: "distinct (vw_receipts w)" using assms(1) by (simp add: verifier_inv_def Let_def distinct_map)
  have "set (remove1 c (vw_receipts w)) = set (vw_receipts w) - {c}" by (rule set_remove1_eq [OF d])
  moreover have "distinct (map sc_id (remove1 c (vw_receipts w)))"
    using assms(1) d by (simp add: verifier_inv_def Let_def distinct_map inj_on_diff)
  moreover have "sc_id c' \<noteq> sc_id c" if "c' \<in> set (vw_receipts w) - {c}" for c'
    using that assms(1,2) by (auto simp: verifier_inv_def Let_def distinct_map dest: inj_onD)
  ultimately show ?thesis using assms unfolding verifier_inv_def Let_def by (simp add: split_beta)
qed

lemma verifier_inv_init: "verifier_init w \<Longrightarrow> verifier_inv w"
  by (auto elim!: verifier_init.cases simp: verifier_inv_def Let_def seal_def verifier_promote_def split: if_splits)

lemma distinct_map_remove1: "distinct (map f xs) \<Longrightarrow> distinct (map f (remove1 x xs))"
  by (induction xs) (auto dest: set_remove1_subset [THEN subsetD])

lemma verifier_inv_step:
  assumes "verifier_step w t" "verifier_inv w"
  shows "verifier_inv t"
  using assms
proof cases
  case (vs_seal policy entries n receipt)
  then show ?thesis using assms(2) by (auto simp: verifier_inv_def Let_def seal_def less_Suc_eq split_beta)
next
  case (vs_begin policy v r)
  have "verifier_inv (w\<lparr>vw_verifier := v\<rparr>)" using verifier_inv_kept [OF assms(2)] sealed_kept vs_begin(2) by blast
  moreover have "rp_receipt p = sc_id (rv_receipt v) \<and> rp_scope p = sc_entries (rv_receipt v)" if "r = Inr p" for p
    using vs_begin(2) that by (auto simp: begin_pass_def split: if_splits option.splits non_current_cause.splits)
  ultimately show ?thesis using vs_begin(1) by (cases r) (auto simp: verifier_inv_def Let_def)
next
  case (vs_chunk p observed)
  then show ?thesis using assms(2) by (auto simp: verifier_inv_def Let_def verify_chunk_def dest: set_remove1_subset [THEN subsetD])
next
  case (vs_complete p r)
  have ok: "hget (rp_verified p) = hget (rp_scope p)" "ve_receipt r = rp_receipt p"
    using vs_complete(2,3) assms(2) complete_iff [of p r] by (auto simp: verifier_inv_def Let_def)
  have "verifier_inv (w\<lparr>vw_passes := remove1 p (vw_passes w)\<rparr>)"
    using verifier_inv_less [OF assms(2), of "remove1 p (vw_passes w)" "vw_records w" "vw_receipts w"] assms(2)
    by (simp add: set_remove1_subset verifier_inv_def Let_def)
  then show ?thesis using vs_complete ok assms(2) by (auto simp: verifier_inv_def Let_def)
next
  case (vs_incomplete p e)
  then show ?thesis using verifier_inv_less [OF assms(2), of "remove1 p (vw_passes w)" "vw_records w" "vw_receipts w"] assms(2)
    by (simp add: set_remove1_subset verifier_inv_def Let_def)
next
  case (vs_acquire now v r)
  then show ?thesis using verifier_inv_kept [OF assms(2)] sealed_kept by blast
next
  case (vs_advance r now v res)
  have "verifier_inv (w\<lparr>vw_verifier := v\<rparr>)" using verifier_inv_kept [OF assms(2)] sealed_kept vs_advance(3) by blast
  from verifier_inv_less [OF this, of "vw_passes w" "remove1 r (vw_records w)" "vw_receipts w"] this
  show ?thesis using vs_advance(1) by (simp add: set_remove1_subset verifier_inv_def Let_def)
next
  case (vs_refresh receipt v res)
  show ?thesis
  proof (cases res)
    case (Inr u)
    then have "rv_receipt v = receipt" "\<not> rv_scope_dirty v" using vs_refresh(3) by (auto simp: refresh_scope_def split: if_splits)
    from verifier_inv_install [OF assms(2) vs_refresh(2) this] show ?thesis using vs_refresh(1) Inr by simp
  next
    case (Inl e)
    then have "v = policy_refused (vw_verifier w)" using vs_refresh(3) by (auto simp: refresh_scope_def split: if_splits)
    then have "verifier_inv (w\<lparr>vw_verifier := v\<rparr>)" using verifier_inv_kept [OF assms(2)] sealed_kept by blast
    from verifier_inv_less [OF this, of "vw_passes w" "vw_records w" "remove1 receipt (vw_receipts w)"] this
    show ?thesis using vs_refresh(1) Inl by (simp add: set_remove1_subset verifier_inv_def Let_def distinct_map_remove1)
  qed
next
  case (vs_rewrite entry stamp)
  then show ?thesis using assms(2) by (auto simp: verifier_inv_def Let_def observe_rewrite_def split: option.splits)
next
  case vs_lost
  then show ?thesis using verifier_inv_kept [OF assms(2)] sealed_kept by blast
next
  case (vs_rescout receipt f now v res)
  show ?thesis
  proof (cases res)
    case (Inr u)
    then have "rv_receipt v = receipt" "\<not> rv_scope_dirty v" using vs_rescout(3) by (auto simp: re_scout_def split: if_splits)
    from verifier_inv_install [OF assms(2) vs_rescout(2) this] show ?thesis using vs_rescout(1) Inr by simp
  next
    case (Inl e)
    then have "v = vw_verifier w" using vs_rescout(3) by (auto simp: re_scout_def split: if_splits)
    with verifier_inv_less [OF assms(2), of "vw_passes w" "vw_records w" "remove1 receipt (vw_receipts w)"] assms(2)
    show ?thesis using vs_rescout(1) Inl by (simp add: set_remove1_subset verifier_inv_def Let_def distinct_map_remove1)
  qed
qed

interpretation proof_world: invariant_system verifier_init verifier_step verifier_inv
  by unfold_locales (auto intro: verifier_inv_init verifier_inv_step)

lemma step_cause:
  assumes "verifier_step w t" and "rv_verified_at (vw_verifier t) \<noteq> rv_verified_at (vw_verifier w) \<or>
      rv_non_current (vw_verifier w) \<noteq> None \<and> rv_non_current (vw_verifier t) = None"
  shows "(\<exists>receipt \<in> set (vw_receipts w). \<exists>f now. re_scout receipt f now (vw_verifier w) = (vw_verifier t, Inr ())) \<or>
     (\<exists>r \<in> set (vw_records w). \<exists>now. advance r now (vw_verifier w) = (vw_verifier t, Inr ()))"
  using assms
proof cases
  case (vs_advance r now v res)
  then have "res = Inr ()" using assms(2) by (auto simp: advance_def split: if_splits option.splits non_current_cause.splits)
  then show ?thesis using vs_advance by auto
next
  case (vs_rescout receipt f now v res)
  then have "res = Inr ()" using assms(2) by (auto simp: re_scout_def split: if_splits)
  then show ?thesis using vs_rescout by auto
qed (use assms(2) in \<open>auto simp: begin_pass_def verifier_acquire_strict_def refresh_scope_def observe_rewrite_def
  reservation_lost_def policy_refused_def split: if_splits option.splits non_current_cause.splits\<close>)

lemma advance_Ok:
  assumes "advance r now v = (v', Inr ())"
  shows "ve_receipt r = sc_id (rv_receipt v)" "\<not> rv_scope_dirty v" "rv_non_current v = None \<or> rv_non_current v = Some OverdueCause"
    "v' = v\<lparr>rv_non_current := None, rv_verified_at := now\<rparr>"
  using assms by (auto simp: advance_def split: if_splits option.splits non_current_cause.splits)

text \<open>
  A record carries no time. One completed before the deadline and kept clears the overdue latch later, and the
  verifier is current again from that moment.
\<close>

lemma record_outlives_deadline:
  assumes "ve_receipt r = sc_id (rv_receipt v)" "\<not> rv_scope_dirty v" "rv_non_current v = None" "rv_verified_at v + age_millis \<le> late"
    and "verifier_acquire_strict late v = (v1, res)" "advance r now v1 = (v2, res')"
  shows "res = Inl OverdueLatched \<and> rv_non_current v1 = Some OverdueCause \<and> res' = Inr () \<and> verifier_is_current v2 now"
  using assms by (auto simp: verifier_acquire_strict_def advance_def verifier_is_current_def age_millis_def MAX_CURRENT_UNVERIFIED_AGE_def)

text \<open>The cost bound of an admitted scope stays below the ceiling of a complete pass, and the ceiling below the age.\<close>

lemma div_ceil_le:
  assumes "a \<le> n * m" "0 < m"
  shows "div_ceil a m \<le> n"
proof (cases "a mod m > 0")
  case True
  then have "a \<noteq> n * m" by auto
  then show ?thesis using assms True less_mult_imp_div_less [of a n m] by (simp add: div_ceil_def)
next
  case False
  then show ?thesis using assms div_le_mono [of a "n * m" m] by (simp add: div_ceil_def)
qed

lemma for_scope_bound:
  assumes "for_scope receipt b e = Inr w"
  shows "wb_bound w \<le> 712" and "wb_bound w < DEFAULT_MAX_COMPLETE_VERIFICATION_PASS" and "wb_scope_receipt w = sc_id receipt"
proof -
  have "b \<le> 17179869184" "e \<le> 200000" and w: "wb_bound w = div_ceil b 33554432 + div_ceil e 1000" "wb_scope_receipt w = sc_id receipt"
    using assms by (auto simp: for_scope_def DEFAULT_MAX_VERIFICATION_BYTES_def DEFAULT_MAX_VERIFICATION_ENTRIES_def
      RESERVED_VERIFICATION_BYTES_PER_SECOND_def RESERVED_VERIFICATION_ENTRIES_PER_SECOND_def split: if_splits)
  then have "div_ceil b 33554432 \<le> 512" "div_ceil e 1000 \<le> 200" using div_ceil_le [of b 512 33554432] div_ceil_le [of e 200 1000] by simp_all
  then show "wb_bound w \<le> 712" and "wb_bound w < DEFAULT_MAX_COMPLETE_VERIFICATION_PASS" "wb_scope_receipt w = sc_id receipt"
    using w by (auto simp: DEFAULT_MAX_COMPLETE_VERIFICATION_PASS_def)
qed

lemma is_current_acquire: "verifier_is_current v now \<longleftrightarrow> verifier_acquire_strict now v = (v, Inr ())"
  by (auto simp: verifier_is_current_def verifier_acquire_strict_def split: option.splits non_current_cause.splits)

text \<open>The grants of a scheduler that serves the same passes.\<close>

primrec grants :: "nat \<Rightarrow> nat list \<Rightarrow> nat option list" where
  "grants 0 queue = []"
| "grants (Suc n) queue = (let (queue, g) = next_grant queue in g # grants n queue)"

lemma next_grant_rotate: "queue \<noteq> [] \<Longrightarrow> next_grant queue = (rotate1 queue, Some (hd queue))"
  by (cases queue) auto

lemma grants_rotate: "queue \<noteq> [] \<Longrightarrow> grants n queue = map (\<lambda>k. Some (hd (rotate k queue))) [0..<n]"
proof (induction n arbitrary: queue)
  case (Suc n)
  have "grants (Suc n) queue = Some (hd queue) # map (\<lambda>k. Some (hd (rotate k (rotate1 queue)))) [0..<n]"
    using Suc by (simp add: next_grant_rotate)
  also have "\<dots> = map (\<lambda>k. Some (hd (rotate k queue))) [0..<Suc n]"
    by (subst upt_conv_Cons, simp) (simp add: map_Suc_upt [symmetric] rotate1_rotate_swap del: upt_Suc)
  finally show ?case .
qed simp

section \<open>Properties\<close>

text \<open>
  C29: whatever the order of the calls, a step moves the deadline of a verifier or takes it out of a non-current
  state only by an authoritative re-scout, or by a record: then the verifier was current or overdue (never out
  of capacity or of policy), some completed pass had seen exactly the sealed entries with exactly their stamps, and no
  rewrite to another stamp was observed since the scope was sealed in.
\<close>

theorem deadline_moves_by_proof:
  assumes "reach verifier_init verifier_step w" and "verifier_step w t"
    and "rv_verified_at (vw_verifier t) \<noteq> rv_verified_at (vw_verifier w) \<or>
      rv_non_current (vw_verifier w) \<noteq> None \<and> rv_non_current (vw_verifier t) = None"
  shows "(\<exists>receipt \<in> set (vw_receipts w). \<exists>f now. re_scout receipt f now (vw_verifier w) = (vw_verifier t, Inr ())) \<or>
    (rv_non_current (vw_verifier w) \<in> {None, Some OverdueCause} \<and>
     (\<exists>obs. (sc_id (rv_receipt (vw_verifier w)), obs) \<in> set (vw_log w) \<and> hget obs = hget (sc_entries (rv_receipt (vw_verifier w)))) \<and>
     (\<forall>(entry, stamp) \<in> set (vw_rewrites w). hget (sc_entries (rv_receipt (vw_verifier w))) entry = Some stamp))"
proof (rule disjE [OF step_cause [OF assms(2,3)]])
  assume "\<exists>r \<in> set (vw_records w). \<exists>now. advance r now (vw_verifier w) = (vw_verifier t, Inr ())"
  then obtain r now where r: "r \<in> set (vw_records w)" and adv: "advance r now (vw_verifier w) = (vw_verifier t, Inr ())" by blast
  note ok = advance_Ok [OF adv]
  have inv: "verifier_inv w" by (rule proof_world.reach_inv [OF assms(1)])
  have "ve_receipt r \<in> fst ` set (vw_log w)" using inv r by (simp add: verifier_inv_def Let_def)
  then obtain obs where obs: "(sc_id (rv_receipt (vw_verifier w)), obs) \<in> set (vw_log w)" using ok(1) by auto
  then have "hget obs = hget (sc_entries (rv_receipt (vw_verifier w)))" using inv by (auto simp: verifier_inv_def Let_def)
  moreover have "\<forall>(entry, stamp) \<in> set (vw_rewrites w). hget (sc_entries (rv_receipt (vw_verifier w))) entry = Some stamp"
    using inv ok(2) by (simp add: verifier_inv_def Let_def)
  ultimately show ?thesis using obs ok(3) by blast
qed blast

theorem deadline_moves_by_proof_witness:
  "\<exists>w t obs. reach verifier_init verifier_step w \<and> verifier_step w t \<and>
     rv_verified_at (vw_verifier w) = 0 \<and> rv_verified_at (vw_verifier t) = 5 \<and>
     (sc_id (rv_receipt (vw_verifier w)), obs) \<in> set (vw_log w) \<and> hget obs = hget (sc_entries (rv_receipt (vw_verifier w)))"
proof -
  define c where "c = \<lparr>sc_id = 0::nat, sc_policy = 0::nat, sc_entries = [(7::nat, 1::nat)]\<rparr>"
  define v where "v = \<lparr>rv_receipt = c, rv_feasibility = \<lparr>fe_work = \<lparr>wb_scope_receipt = 0, wb_bound = 1\<rparr>\<rparr>,
     rv_verified_at = 0, rv_non_current = None, rv_scope_dirty = False\<rparr>"
  define p where "p = \<lparr>rp_receipt = 0::nat, rp_scope = [(7::nat, 1::nat)], rp_verified = []\<rparr>"
  define q where "q = p\<lparr>rp_verified := [(7, 1)]\<rparr>"
  define w where "w = \<lparr>vw_next = 1, vw_verifier = v, vw_receipts = [], vw_passes = [], vw_records = [], vw_log = [], vw_rewrites = []\<rparr>"
  let ?w1 = "w\<lparr>vw_passes := [p]\<rparr>" and ?w2 = "w\<lparr>vw_passes := [q]\<rparr>"
  let ?w3 = "w\<lparr>vw_records := [\<lparr>ve_receipt = 0\<rparr>], vw_log := [(0, [(7, 1)])]\<rparr>"
  have fin: "pass_complete q = Inr \<lparr>ve_receipt = 0\<rparr>" by (simp add: pass_complete_def q_def p_def)
  have adv: "advance \<lparr>ve_receipt = 0\<rparr> 5 v = (v\<lparr>rv_verified_at := 5\<rparr>, Inr ())" by (simp add: advance_def v_def c_def)
  have "verifier_init w" unfolding w_def
    by (rule verifier_init.intros [of 0 "[(7, 1)]" 0 1 c]) (auto simp: seal_def c_def verifier_promote_def fe_scope_receipt_def v_def hok_def)
  moreover have "verifier_step w ?w1" using vs_begin [of 0 w v "Inr p"] by (simp add: begin_pass_def w_def v_def c_def p_def)
  moreover have "verifier_step ?w1 ?w2" using vs_chunk [of p ?w1 "[(7, 1)]"] by (simp add: verify_chunk_def p_def q_def)
  moreover have "verifier_step ?w2 ?w3" using vs_complete [of q ?w2 "\<lparr>ve_receipt = 0\<rparr>"] fin by (simp add: q_def p_def w_def)
  ultimately have "reach verifier_init verifier_step ?w3" by (meson reach.intros)
  moreover have "verifier_step ?w3 (?w3\<lparr>vw_verifier := v\<lparr>rv_verified_at := 5\<rparr>, vw_records := []\<rparr>)"
    using vs_advance [of "\<lparr>ve_receipt = 0\<rparr>" ?w3 5 "v\<lparr>rv_verified_at := 5\<rparr>" "Inr ()"] adv by (simp add: w_def)
  moreover have "vw_receipts ?w3 = []" by (simp add: w_def)
  moreover have "rv_verified_at (vw_verifier ?w3) = 0" "rv_verified_at (vw_verifier (?w3\<lparr>vw_verifier := v\<lparr>rv_verified_at := 5\<rparr>, vw_records := []\<rparr>)) = 5"
    by (simp_all add: w_def v_def)
  ultimately show ?thesis using deadline_moves_by_proof [of ?w3] by fastforce
qed

text \<open>
  A scheduler with passes registered grants its slots in strict rotation: the \<open>k\<close>-th of \<open>n\<close> grants goes to the
  pass at position \<open>k mod length queue\<close>, so each of the registered passes is served once in every round.
\<close>

lemma grants_fair:
  assumes "queue \<noteq> []" and "k < n"
  shows "grants n queue ! k = Some (queue ! (k mod length queue))"
  using assms by (simp add: grants_rotate hd_rotate_conv_nth)

theorem grants_fair_witness: "grants 5 [4, 9] ! 3 = Some 9"
  using grants_fair [of "[4, 9]" 3 5] by (simp flip: numeral_2_eq_2)

end
