(* ===== verification/QueryLease.thy ===== *)
theory QueryLease
  imports Candidate
begin

text \<open>
  Strict query leases over the sources of a project: \<open>src/index_lifecycle/query.rs\<close>.

  A lease captures exactly the selected sources, all current at the expected generations, and is finalized against
  the table that issued it. The process-wide counters (table identities, ranking snapshots) are passed in and out. The
  captured \<open>BTreeMap\<close> is a list sorted by its keys, since its iteration order shows in the rendering.
\<close>

section \<open>Refusals, renderings and the table\<close>

datatype selection_refusal =
    EmptySelection
  | MissingSource source_id
  | DuplicateSource source_id
  | MismatchedGeneration source_id nat nat
  | NotCurrent source_id
  | StaleAtFinalization source_id
  | RetargetedDuringLease
  | ForeignTable
  | ProtectedRootRequiresPromotion source_id

fun transport_code :: "selection_refusal \<Rightarrow> string" where
  "transport_code EmptySelection = ''selection_empty''"
| "transport_code (MissingSource _) = ''selection_missing_source''"
| "transport_code (DuplicateSource _) = ''selection_duplicate_source''"
| "transport_code (MismatchedGeneration _ _ _) = ''selection_generation_mismatch''"
| "transport_code (NotCurrent _) = ''source_not_current''"
| "transport_code (StaleAtFinalization _) = ''lease_stale_at_finalization''"
| "transport_code RetargetedDuringLease = ''lease_retargeted''"
| "transport_code ForeignTable = ''lease_foreign_table''"
| "transport_code (ProtectedRootRequiresPromotion _) = ''protected_root_requires_promotion''"

datatype output_coverage = FullOutput | TruncatedOutput

record render_identity =
  ri_source_truth :: "(source_id \<times> nat) list"
  ri_cache_identity :: u64

record rendering =
  re_coverage :: output_coverage
  re_identity :: render_identity
  re_body_len :: nat

datatype query_outcome = Matches nat | NoMatch

record health_projection =
  hp_committed_generations :: nat
  hp_bounded_attempts :: nat

datatype source_state = CurrentAt nat | NonCurrentAfter nat

record query_table =
  qt_identity :: nat
  qt_sources :: "(source_id, source_state) hmap"
  qt_protected :: "source_id set"
  qt_target_epoch :: nat

definition query_table_new :: "nat \<Rightarrow> nat \<times> query_table" where
  "query_table_new next_identity =
     (next_identity + 1, \<lparr>qt_identity = next_identity, qt_sources = [], qt_protected = {}, qt_target_epoch = 0\<rparr>)"

record strict_lease =
  sl_table_identity :: nat
  sl_captured :: "(source_id \<times> nat) list"
  sl_ranking_snapshot :: nat
  sl_target_epoch :: nat

record completed_lease =
  cl_captured :: "(source_id \<times> nat) list"

section \<open>Operations of the table\<close>

definition put_state :: "source_id \<Rightarrow> source_state \<Rightarrow> query_table \<Rightarrow> query_table" where
  "put_state source st t = t\<lparr>qt_sources := hinsert source st (qt_sources t)\<rparr>"

text \<open>\<open>None\<close> is the failed assertion.\<close>

definition publish_current :: "source_id \<Rightarrow> nat \<Rightarrow> query_table \<Rightarrow> query_table option" where
  "publish_current source generation t =
     (if source \<in> qt_protected t then None else Some (put_state source (CurrentAt generation) t))"

definition mark_non_current :: "source_id \<Rightarrow> query_table \<Rightarrow> query_table" where
  "mark_non_current source t =
     put_state source
       (NonCurrentAfter (case hget (qt_sources t) source of
          Some (CurrentAt generation) \<Rightarrow> generation
        | Some (NonCurrentAfter last_generation) \<Rightarrow> last_generation
        | None \<Rightarrow> 0)) t"

definition declare_protected :: "source_id \<Rightarrow> query_table \<Rightarrow> query_table" where
  "declare_protected source t =
     (let t = t\<lparr>qt_protected := insert source (qt_protected t)\<rparr>
      in case hget (qt_sources t) source of
           Some (CurrentAt generation) \<Rightarrow> put_state source (NonCurrentAfter generation) t
         | _ \<Rightarrow> t)"

definition publish_without_promotion :: "source_id \<Rightarrow> nat \<Rightarrow> query_table \<Rightarrow> query_table \<times> (selection_refusal, unit) result" where
  "publish_without_promotion source generation t =
     (if source \<in> qt_protected t then (t, Err (ProtectedRootRequiresPromotion source))
      else (put_state source (CurrentAt generation) t, Ok ()))"

text \<open>The promotion evidence and the probe are arguments the function does not use.\<close>

definition publish_protected_from_promotion ::
  "source_id \<Rightarrow> project_artifacts \<Rightarrow> query_table \<Rightarrow> query_table \<times> (selection_refusal, unit) result" where
  "publish_protected_from_promotion source promotion t =
     (put_state source
        (CurrentAt (case hget (qt_sources t) source of
           Some (CurrentAt generation) \<Rightarrow> generation + 1
         | Some (NonCurrentAfter last_generation) \<Rightarrow> last_generation + 1
         | None \<Rightarrow> 1)) t, Ok ())"

definition retarget :: "query_table \<Rightarrow> query_table" where
  "retarget t = t\<lparr>qt_target_epoch := qt_target_epoch t + 1\<rparr>"

fun capture_selection ::
  "query_table \<Rightarrow> (source_id \<times> nat) list \<Rightarrow> (source_id \<times> nat) list \<Rightarrow> (selection_refusal, (source_id \<times> nat) list) result" where
  "capture_selection t captured [] = Ok captured"
| "capture_selection t captured ((source, expected) # rest) =
     (if hget captured source \<noteq> None then Err (DuplicateSource source)
      else case hget (qt_sources t) source of
             None \<Rightarrow> Err (MissingSource source)
           | Some (NonCurrentAfter _) \<Rightarrow> Err (NotCurrent source)
           | Some (CurrentAt generation) \<Rightarrow>
               if generation \<noteq> expected then Err (MismatchedGeneration source expected generation)
               else capture_selection t (insort_key fst (source, generation) captured) rest)"

definition table_acquire_strict ::
  "(source_id \<times> nat) list \<Rightarrow> query_table \<Rightarrow> nat \<Rightarrow> nat \<times> (selection_refusal, strict_lease) result" where
  "table_acquire_strict selection t next_ranking =
     (if selection = [] then (next_ranking, Err EmptySelection)
      else case capture_selection t [] selection of
             Err e \<Rightarrow> (next_ranking, Err e)
           | Ok captured \<Rightarrow>
               (next_ranking + 1,
                Ok \<lparr>sl_table_identity = qt_identity t, sl_captured = captured, sl_ranking_snapshot = next_ranking,
                    sl_target_epoch = qt_target_epoch t\<rparr>))"

definition health :: "supervisor_state \<Rightarrow> health_projection" where
  "health sv = \<lparr>hp_committed_generations = sv_committed sv, hp_bounded_attempts = length (sv_records sv)\<rparr>"

fun acquire_multi_project ::
  "(query_table \<times> (source_id \<times> nat) list) list \<Rightarrow> nat \<Rightarrow> nat \<times> (selection_refusal, strict_lease list) result" where
  "acquire_multi_project [] n = (n, Ok [])"
| "acquire_multi_project ((t, selection) # rest) n =
     (case table_acquire_strict selection t n of
        (n, Inl e) \<Rightarrow> (n, Err e)
      | (n, Inr lease) \<Rightarrow>
          (case acquire_multi_project rest n of
             (n, Inl e) \<Rightarrow> (n, Err e)
           | (n, Inr leases) \<Rightarrow> (n, Ok (lease # leases))))"

section \<open>Finalization and rendering\<close>

definition cache_identity_of :: "(source_id \<times> nat) list \<Rightarrow> u64" where
  "cache_identity_of captured =
     fold (\<lambda>(source, generation) acc. (acc * 0x100000001b3 + of_nat source) * 0x100000001b3 + of_nat generation)
       captured 0xcbf29ce484222325"

fun stale_source :: "query_table \<Rightarrow> (source_id \<times> nat) list \<Rightarrow> source_id option" where
  "stale_source t [] = None"
| "stale_source t ((source, generation) # rest) =
     (if hget (qt_sources t) source = Some (CurrentAt generation) then stale_source t rest else Some source)"

definition finalize :: "query_table \<Rightarrow> strict_lease \<Rightarrow> (selection_refusal, completed_lease) result" where
  "finalize t l =
     (if qt_identity t \<noteq> sl_table_identity l then Err ForeignTable
      else if qt_target_epoch t \<noteq> sl_target_epoch l then Err RetargetedDuringLease
      else case stale_source t (sl_captured l) of
             Some source \<Rightarrow> Err (StaleAtFinalization source)
           | None \<Rightarrow> Ok \<lparr>cl_captured = sl_captured l\<rparr>)"

definition lease_query :: "nat \<Rightarrow> completed_lease \<Rightarrow> query_outcome" where
  "lease_query needle c =
     (let matches = length (filter (\<lambda>g. g = needle) (map snd (cl_captured c)))
      in if matches = 0 then NoMatch else Matches matches)"

definition render_body :: "completed_lease \<Rightarrow> string" where
  "render_body c = concat (map (\<lambda>(source, generation). decimal source @ '':'' @ decimal generation @ '';'') (cl_captured c))"

definition render :: "nat \<Rightarrow> completed_lease \<Rightarrow> rendering" where
  "render max_len c =
     \<lparr>re_coverage = (if max_len \<ge> length (render_body c) then FullOutput else TruncatedOutput),
      re_identity = \<lparr>ri_source_truth = cl_captured c, ri_cache_identity = cache_identity_of (cl_captured c)\<rparr>,
      re_body_len = min (length (render_body c)) max_len\<rparr>"

section \<open>Histories of a table\<close>

datatype table_action =
    PublishCurrent source_id nat
  | MarkNonCurrent source_id
  | DeclareProtected source_id
  | PublishWithoutPromotion source_id nat
  | PublishPromoted source_id project_artifacts
  | Retarget

text \<open>A failed assertion leaves the table as it was.\<close>

fun table_op :: "table_action \<Rightarrow> query_table \<Rightarrow> query_table" where
  "table_op (PublishCurrent source generation) t = (case publish_current source generation t of Some t \<Rightarrow> t | None \<Rightarrow> t)"
| "table_op (MarkNonCurrent source) t = mark_non_current source t"
| "table_op (DeclareProtected source) t = declare_protected source t"
| "table_op (PublishWithoutPromotion source generation) t = fst (publish_without_promotion source generation t)"
| "table_op (PublishPromoted source promotion) t = fst (publish_protected_from_promotion source promotion t)"
| "table_op Retarget t = retarget t"

text \<open>
  The rank of a source: twice its generation while current, one more once invalidated. On a protected source
  no operation lowers it.
\<close>

fun state_rank :: "source_state option \<Rightarrow> nat" where
  "state_rank None = 0"
| "state_rank (Some (CurrentAt g)) = 2 * g"
| "state_rank (Some (NonCurrentAfter g)) = 2 * g + 1"

section \<open>Lemmas\<close>

lemma map_fst_insort: "map fst (insort_key fst x xs) = insort (fst x) (map fst xs)"
  by (induction xs) auto

lemma capture_iff:
  "distinct (map fst captured) \<Longrightarrow>
   capture_selection t captured selection = Inr m \<longleftrightarrow>
   m = fold (insort_key fst) selection captured \<and> distinct (map fst selection) \<and> fst ` set selection \<inter> fst ` set captured = {} \<and>
   (\<forall>(s, g) \<in> set selection. hget (qt_sources t) s = Some (CurrentAt g))"
proof (induction t captured selection rule: capture_selection.induct)
  case (2 t captured source expected rest)
  show ?case
  proof (cases "source \<in> fst ` set captured \<or> hget (qt_sources t) source \<noteq> Some (CurrentAt expected)")
    case True
    then have "capture_selection t captured ((source, expected) # rest) \<noteq> Inr m"
      by (auto simp: hget_None_iff split: option.splits source_state.splits)
    then show ?thesis using True by auto
  next
    case False
    then have new: "source \<notin> fst ` set captured" and g: "hget (qt_sources t) source = Some (CurrentAt expected)" by auto
    then have "distinct (map fst (insort_key fst (source, expected) captured))"
      using 2(2) by (simp add: map_fst_insort distinct_insort)
    from 2(1) [OF _ g _ _ this] show ?thesis using new g
      by (simp add: hget_None_iff set_insort_key) blast
  qed
qed auto

lemma fold_insort: "distinct (map fst xs) \<Longrightarrow> fold (insort_key fst) xs [] = sort_key fst xs" for xs :: "(nat \<times> nat) list"
proof -
  assume "distinct (map fst xs)"
  then have "sort_key fst (rev xs) = sort_key fst xs" by (intro sort_key_inj_key_eq) (auto simp: distinct_map)
  then show ?thesis by (simp add: sort_key_def foldr_conv_fold)
qed

lemma acquire_iff:
  "table_acquire_strict selection t n = (n', Inr l) \<longleftrightarrow>
   selection \<noteq> [] \<and> distinct (map fst selection) \<and> (\<forall>(s, g) \<in> set selection. hget (qt_sources t) s = Some (CurrentAt g)) \<and>
   n' = n + 1 \<and> l = \<lparr>sl_table_identity = qt_identity t, sl_captured = sort_key fst selection, sl_ranking_snapshot = n, sl_target_epoch = qt_target_epoch t\<rparr>"
proof (cases "capture_selection t [] selection")
  case (Inl e)
  then show ?thesis using capture_iff [of "[]" t selection "fold (insort_key fst) selection []"]
    by (simp add: table_acquire_strict_def)
next
  case (Inr m)
  then show ?thesis using capture_iff [of "[]" t selection m] fold_insort [of selection]
    by (auto simp: table_acquire_strict_def)
qed

lemma stale_None: "stale_source t xs = None \<longleftrightarrow> (\<forall>(s, g) \<in> set xs. hget (qt_sources t) s = Some (CurrentAt g))"
  by (induction t xs rule: stale_source.induct) auto

lemma op_protected:
  assumes "s \<in> qt_protected t"
  shows "s \<in> qt_protected (table_op a t)" "state_rank (hget (qt_sources t) s) \<le> state_rank (hget (qt_sources (table_op a t)) s)"
  using assms by (cases a; auto simp: publish_current_def mark_non_current_def declare_protected_def publish_without_promotion_def
    publish_protected_from_promotion_def retarget_def put_state_def hget_hinsert Let_def split: option.splits source_state.splits)+

lemma op_present: "hget (qt_sources t) s \<noteq> None \<Longrightarrow> hget (qt_sources (table_op a t)) s \<noteq> None"
  by (cases a) (auto simp: publish_current_def mark_non_current_def declare_protected_def publish_without_promotion_def
    publish_protected_from_promotion_def retarget_def put_state_def hget_hinsert Let_def split: option.splits source_state.splits)

lemma op_epoch: "qt_target_epoch (table_op a t) = qt_target_epoch t + (if a = Retarget then 1 else 0)" "qt_identity (table_op a t) = qt_identity t"
  by (cases a; auto simp: publish_current_def mark_non_current_def declare_protected_def publish_without_promotion_def
    publish_protected_from_promotion_def retarget_def put_state_def Let_def split: option.splits source_state.splits)+

lemma ops_epoch: "qt_target_epoch (fold table_op ops t) = qt_target_epoch t + length (filter (\<lambda>a. a = Retarget) ops)"
  by (induction ops arbitrary: t) (auto simp: op_epoch)

lemma ops_identity: "qt_identity (fold table_op ops t) = qt_identity t"
  by (induction ops arbitrary: t) (auto simp: op_epoch)

lemma ops_present: "hget (qt_sources t) s \<noteq> None \<Longrightarrow> hget (qt_sources (fold table_op ops t)) s \<noteq> None"
proof (induction ops arbitrary: t)
  case (Cons a ops)
  then show ?case using op_present [of t s a] by simp
qed simp

lemma ops_protected:
  "s \<in> qt_protected t \<Longrightarrow> s \<in> qt_protected (fold table_op ops t) \<and>
   state_rank (hget (qt_sources t) s) \<le> state_rank (hget (qt_sources (fold table_op ops t)) s)"
proof (induction ops arbitrary: t)
  case (Cons a ops)
  then show ?case using Cons.IH [of "table_op a t"] op_protected [of s t a] by fastforce
qed simp

lemma state_rank_current: "st \<noteq> None \<Longrightarrow> state_rank st = 2 * g \<Longrightarrow> st = Some (CurrentAt g)"
  by (cases st rule: state_rank.cases) (auto, presburger?)

lemma protected_unmoved:
  assumes "s \<in> qt_protected t" "hget (qt_sources t) s = Some (CurrentAt g)"
    and "hget (qt_sources (fold table_op ops t)) s = Some (CurrentAt g)"
  shows "hget (qt_sources (fold table_op (take k ops) t)) s = Some (CurrentAt g)"
proof -
  let ?m = "fold table_op (take k ops) t"
  have "fold table_op ops t = fold table_op (drop k ops) ?m" by (metis append_take_drop_id comp_apply fold_append)
  then have "state_rank (hget (qt_sources ?m) s) \<le> 2 * g" "2 * g \<le> state_rank (hget (qt_sources ?m) s)"
    using assms ops_protected [OF assms(1), of "take k ops"] ops_protected [of s ?m "drop k ops"] by auto
  then show ?thesis using assms(2) ops_present [of t s "take k ops"] by (intro state_rank_current) auto
qed

text \<open>Two selections of the same sources in different orders give leases with the same content identity.\<close>

lemma selection_order_irrelevant:
  assumes "table_acquire_strict selection t n = (m, Inr l)" "set selection' = set selection" "distinct (map fst selection')"
    and "table_acquire_strict selection' t n' = (m', r)"
  shows "\<exists>l'. r = Inr l' \<and> sl_captured l' = sl_captured l"
proof -
  have ok: "distinct (map fst selection)" "selection \<noteq> []" "\<forall>(s, g) \<in> set selection. hget (qt_sources t) s = Some (CurrentAt g)"
    "sl_captured l = sort_key fst selection" using assms(1) by (auto simp: acquire_iff)
  have "mset selection' = mset selection" using assms(2,3) ok(1) by (intro set_eq_iff_mset_eq_distinct [THEN iffD1]) (auto simp: distinct_map)
  then have "sort_key fst selection' = sort_key fst selection" using assms(3) by (intro sort_key_inj_key_eq) (auto simp: distinct_map)
  moreover have "\<exists>l'. table_acquire_strict selection' t n' = (n' + 1, Inr l') \<and> sl_captured l' = sort_key fst selection'"
    using assms(2,3) ok by (auto simp: acquire_iff)
  ultimately show ?thesis using ok(4) assms(4) by auto
qed

section \<open>Properties\<close>

text \<open>
  C35: a lease taken over a selection and finalized after any sequence of operations on its table captured exactly
  the selected sources, all of them current at the expected generations when it was taken and when it was finalized; the
  project was not retargeted in between; and a protected source was not published, invalidated or demoted at any
  moment in between. Whatever bound a rendering has, its identity is that of the full answer.
\<close>

theorem finalized_lease_exact:
  assumes "table_acquire_strict selection t n = (n', Inr l)" and "finalize (fold table_op ops t) l = Inr c"
  shows "cl_captured c = sort_key fst selection \<and> distinct (map fst selection) \<and> Retarget \<notin> set ops \<and>
    (\<forall>(s, g) \<in> set selection. hget (qt_sources t) s = Some (CurrentAt g) \<and>
       hget (qt_sources (fold table_op ops t)) s = Some (CurrentAt g) \<and>
       (s \<in> qt_protected t \<longrightarrow> (\<forall>k. hget (qt_sources (fold table_op (take k ops) t)) s = Some (CurrentAt g)))) \<and>
    (\<forall>bound. re_identity (render bound c) = re_identity (render (length (render_body c)) c))"
proof -
  have l: "sl_captured l = sort_key fst selection" "distinct (map fst selection)" "sl_target_epoch l = qt_target_epoch t"
    and cur: "\<forall>(s, g) \<in> set selection. hget (qt_sources t) s = Some (CurrentAt g)"
    using assms(1) by (auto simp: acquire_iff)
  have fin: "cl_captured c = sl_captured l" "stale_source (fold table_op ops t) (sl_captured l) = None"
    "qt_target_epoch (fold table_op ops t) = sl_target_epoch l"
    using assms(2) by (auto simp: finalize_def split: if_splits option.splits)
  have "Retarget \<notin> set ops" using fin(3) l(3) by (auto simp: ops_epoch filter_empty_conv)
  moreover have after: "\<forall>(s, g) \<in> set selection. hget (qt_sources (fold table_op ops t)) s = Some (CurrentAt g)"
    using fin(2) l(1) by (simp add: stale_None)
  moreover have "hget (qt_sources (fold table_op (take k ops) t)) s = Some (CurrentAt g)"
    if "(s, g) \<in> set selection" "s \<in> qt_protected t" for s g k
    by (rule protected_unmoved [OF that(2)]) (use cur after that(1) in auto)
  ultimately show ?thesis using fin(1) l cur by (auto simp: render_def)
qed

theorem finalized_lease_exact_witness:
  "hget (qt_sources (fold table_op (take 1 [MarkNonCurrent 9, PublishCurrent 5 2])
     \<lparr>qt_identity = 1, qt_sources = [(4, CurrentAt 7)], qt_protected = {4}, qt_target_epoch = 0\<rparr>)) 4 = Some (CurrentAt 7)"
  using finalized_lease_exact [of "[(4, 7)]" "\<lparr>qt_identity = 1, qt_sources = [(4, CurrentAt 7)], qt_protected = {4}, qt_target_epoch = 0\<rparr>"
      0 1 "\<lparr>sl_table_identity = 1, sl_captured = [(4, 7)], sl_ranking_snapshot = 0, sl_target_epoch = 0\<rparr>"
      "[MarkNonCurrent 9, PublishCurrent 5 2]" "\<lparr>cl_captured = [(4, 7)]\<rparr>"]
  by (simp add: table_acquire_strict_def finalize_def mark_non_current_def publish_current_def put_state_def)

end
