(* ===== verification/SnapshotSeed.thy ===== *)
theory SnapshotSeed
  imports Prelude
begin

text \<open>
  Restoring an untrusted snapshot seed: \<open>src/index_lifecycle/snapshot.rs\<close>.

  The decoder and the proof of an entry are closures of the caller. The decoder may keep state, so it is
  given the number of the call. A store keeps a quarantined seed for one rollback; nothing else it shows depends on
  the bytes of the seed's note.
\<close>

section \<open>Seeds, outcomes and the store\<close>

type_synonym seed_entry = "u64 \<times> u64"

record snapshot_seed =
  sd_version :: nat
  sd_declared_len :: nat
  sd_root_digest :: u64
  sd_entries :: "seed_entry list"
  sd_opaque_note :: bytes

definition seed_digest :: "seed_entry list \<Rightarrow> u64" where
  "seed_digest entries =
     fold (\<lambda>(source, stamp) acc. (acc * 0x100000001b3 + source) * 0x100000001b3 + stamp) entries 0xcbf29ce484222325"

datatype git_visibility = AlreadyTracked | UntrackedVisible | IgnoredForceAddRequired | VisibilityUnavailable

datatype binding_class = NormalWritable | ExplicitProtected | ReadOnly | UserLocalOnly | MemoryOnly

datatype snapshot_refusal =
    SeedBeyondCapacity nat nat
  | CapacityExceededMidDecode nat nat
  | BindingRefusesExport binding_class
  | GitattributesRequiresMutationPermit

datatype restore_outcome = Promoted nat | SeedRejected nat | Quarantined nat

record quarantine_metadata =
  qm_id :: nat
  qm_declared_digest :: u64
  qm_computed_digest :: u64
  qm_entry_count :: nat
  qm_opaque_len :: nat

record export_receipt =
  xr_visibility :: git_visibility

definition shareability :: "export_receipt \<Rightarrow> bool option" where
  "shareability r =
     (case xr_visibility r of
        AlreadyTracked \<Rightarrow> Some True
      | UntrackedVisible \<Rightarrow> Some True
      | IgnoredForceAddRequired \<Rightarrow> Some False
      | VisibilityUnavailable \<Rightarrow> None)"

record quarantine_entry =
  qe_metadata :: quarantine_metadata
  qe_rollback_payload :: "snapshot_seed option"

definition debug_payload :: "quarantine_entry \<Rightarrow> string option" where
  "debug_payload e = map_option (\<lambda>seed. ''<retained, '' @ decimal (length (sd_opaque_note seed)) @ '' opaque bytes>'') (qe_rollback_payload e)"

record snapshot_store =
  st_v10 :: "bytes list"
  st_current :: "(u64, u64) hmap"
  st_quarantine :: "quarantine_entry list"
  st_next_quarantine :: nat
  st_rebuild_required :: bool
  st_team_artifacts :: "nat list"
  st_diagnostics :: "string list"

definition snapshot_store_new :: snapshot_store where
  "snapshot_store_new = \<lparr>st_v10 = [], st_current = [], st_quarantine = [], st_next_quarantine = 0, st_rebuild_required = False,
     st_team_artifacts = [], st_diagnostics = []\<rparr>"

section \<open>Operations\<close>

definition v10_write :: "bytes \<Rightarrow> snapshot_store \<Rightarrow> snapshot_store" where
  "v10_write b s = s\<lparr>st_v10 := st_v10 s @ [b]\<rparr>"

fun decode_entries ::
  "(nat \<Rightarrow> seed_entry \<Rightarrow> seed_entry) \<Rightarrow> nat \<Rightarrow> nat \<Rightarrow> seed_entry list \<Rightarrow> seed_entry list \<Rightarrow> (snapshot_refusal, seed_entry list) result" where
  "decode_entries decode limit consumed decoded [] = Ok decoded"
| "decode_entries decode limit consumed decoded (entry # rest) =
     (let consumed = consumed + 16
      in if consumed > limit then Err (CapacityExceededMidDecode consumed limit)
         else decode_entries decode limit consumed (decoded @ [decode (length decoded) entry]) rest)"

definition note_diagnostic :: "string \<Rightarrow> snapshot_store \<Rightarrow> snapshot_store" where
  "note_diagnostic line s = s\<lparr>st_diagnostics := st_diagnostics s @ [line]\<rparr>"

definition quarantine_seed :: "snapshot_seed \<Rightarrow> seed_entry list \<Rightarrow> snapshot_store \<Rightarrow> snapshot_store" where
  "quarantine_seed seed decoded s =
     (let i = st_next_quarantine s;
          line = ''seed '' @ decimal i @ '': digest mismatch, '' @ decimal (length decoded) @ '' entries, opaque '' @
            decimal (length (sd_opaque_note seed)) @ '' bytes'';
          entry = \<lparr>qe_metadata = \<lparr>qm_id = i, qm_declared_digest = sd_root_digest seed, qm_computed_digest = seed_digest decoded,
              qm_entry_count = length decoded, qm_opaque_len = length (sd_opaque_note seed)\<rparr>,
            qe_rollback_payload = Some seed\<rparr>
      in (note_diagnostic line s)\<lparr>st_next_quarantine := i + 1, st_quarantine := st_quarantine s @ [entry], st_rebuild_required := True\<rparr>)"

definition restore ::
  "snapshot_seed \<Rightarrow> nat \<Rightarrow> (nat \<Rightarrow> seed_entry \<Rightarrow> seed_entry) \<Rightarrow> (u64 \<Rightarrow> u64 \<Rightarrow> bool) \<Rightarrow> snapshot_store \<Rightarrow>
   snapshot_store \<times> (snapshot_refusal, restore_outcome) result" where
  "restore seed limit decode prove s =
     (if sd_declared_len seed > limit then (s, Err (SeedBeyondCapacity (sd_declared_len seed) limit))
      else case decode_entries decode limit 0 [] (sd_entries seed) of
             Err e \<Rightarrow> (s, Err e)
           | Ok decoded \<Rightarrow>
               if seed_digest decoded \<noteq> sd_root_digest seed
               then (quarantine_seed seed decoded s, Ok (Quarantined (st_next_quarantine s)))
               else
                 let unproven = length (filter (\<lambda>(source, stamp). \<not> prove source stamp) decoded)
                 in if unproven > 0
                    then ((note_diagnostic (''seed rejected: '' @ decimal unproven @ '' of '' @ decimal (length decoded) @
                             '' entries lack current-process proof'') s)\<lparr>st_rebuild_required := True\<rparr>,
                          Ok (SeedRejected unproven))
                    else (note_diagnostic (''seed promoted: '' @ decimal (length decoded) @ '' sources'')
                            (s\<lparr>st_current := fold (\<lambda>(source, stamp). hinsert source stamp) decoded []\<rparr>),
                          Ok (Promoted (length decoded))))"

definition quarantine_rows :: "snapshot_store \<Rightarrow> quarantine_metadata list" where
  "quarantine_rows s = map qe_metadata (st_quarantine s)"

fun take_payload :: "nat \<Rightarrow> quarantine_entry list \<Rightarrow> quarantine_entry list \<times> snapshot_seed option" where
  "take_payload i [] = ([], None)"
| "take_payload i (e # es) =
     (if qm_id (qe_metadata e) = i then (e\<lparr>qe_rollback_payload := None\<rparr> # es, qe_rollback_payload e)
      else let (es, r) = take_payload i es in (e # es, r))"

definition rollback_seed :: "nat \<Rightarrow> snapshot_store \<Rightarrow> snapshot_store \<times> snapshot_seed option" where
  "rollback_seed i s = (let (q, r) = take_payload i (st_quarantine s) in (s\<lparr>st_quarantine := q\<rparr>, r))"

definition export_team_artifact ::
  "binding_class \<Rightarrow> git_visibility \<Rightarrow> bytes \<Rightarrow> snapshot_store \<Rightarrow> snapshot_store \<times> (snapshot_refusal, export_receipt) result" where
  "export_team_artifact binding visibility artifact s =
     (if binding \<noteq> NormalWritable then (s, Err (BindingRefusesExport binding))
      else (s\<lparr>st_team_artifacts := st_team_artifacts s @ [length artifact]\<rparr>, Ok \<lparr>xr_visibility = visibility\<rparr>))"

definition export_with_gitattributes_change :: "binding_class \<Rightarrow> git_visibility \<Rightarrow> snapshot_refusal" where
  "export_with_gitattributes_change binding visibility = GitattributesRequiresMutationPermit"

section \<open>Runs of the store\<close>

datatype store_call =
    V10Write bytes
  | Restore snapshot_seed nat "nat \<Rightarrow> seed_entry \<Rightarrow> seed_entry" "u64 \<Rightarrow> u64 \<Rightarrow> bool"
  | Rollback nat
  | Export binding_class git_visibility bytes

datatype store_reply =
    Wrote
  | Restored "(snapshot_refusal, restore_outcome) result"
  | RolledBack "snapshot_seed option"
  | Exported "(snapshot_refusal, export_receipt) result"

fun store_do :: "store_call \<Rightarrow> snapshot_store \<Rightarrow> snapshot_store \<times> store_reply" where
  "store_do (V10Write b) s = (v10_write b s, Wrote)"
| "store_do (Restore seed limit decode prove) s = (let (s, r) = restore seed limit decode prove s in (s, Restored r))"
| "store_do (Rollback i) s = (let (s, r) = rollback_seed i s in (s, RolledBack r))"
| "store_do (Export binding visibility artifact) s = (let (s, r) = export_team_artifact binding visibility artifact s in (s, Exported r))"

fun store_run :: "store_call list \<Rightarrow> snapshot_store \<Rightarrow> snapshot_store \<times> store_reply list" where
  "store_run [] s = (s, [])"
| "store_run (c # cs) s = (let (s, r) = store_do c s; (s, rs) = store_run cs s in (s, r # rs))"

text \<open>
  Blanking the notes: two seeds that agree up to the bytes of a note of the same length blank alike. What is left
  of a store is all it shows, apart from the note of a seed handed back by a rollback.
\<close>

definition blank :: "snapshot_seed \<Rightarrow> snapshot_seed" where
  "blank seed = seed\<lparr>sd_opaque_note := replicate (length (sd_opaque_note seed)) 0\<rparr>"

definition blank_entry :: "quarantine_entry \<Rightarrow> quarantine_entry" where
  "blank_entry e = e\<lparr>qe_rollback_payload := map_option blank (qe_rollback_payload e)\<rparr>"

definition blank_store :: "snapshot_store \<Rightarrow> snapshot_store" where
  "blank_store s = s\<lparr>st_quarantine := map blank_entry (st_quarantine s)\<rparr>"

fun blank_call :: "store_call \<Rightarrow> store_call" where
  "blank_call (Restore seed limit decode prove) = Restore (blank seed) limit decode prove"
| "blank_call c = c"

fun blank_reply :: "store_reply \<Rightarrow> store_reply" where
  "blank_reply (RolledBack r) = RolledBack (map_option blank r)"
| "blank_reply r = r"

section \<open>Lemmas\<close>

lemma decode_Ok:
  assumes "decode_entries decode limit consumed decoded entries = Inr out" and "16 * length decoded \<le> consumed"
  shows "out = decoded @ map2 decode [length decoded..<length decoded + length entries] entries \<and> 16 * length entries + consumed \<le> max limit consumed"
  using assms
proof (induction decode limit consumed decoded entries rule: decode_entries.induct)
  case (2 decode limit consumed decoded entry rest)
  then show ?case by (auto simp: Let_def upt_conv_Cons split: if_splits simp del: upt_Suc)
qed simp

lemma blank_simps [simp]:
  "sd_declared_len (blank seed) = sd_declared_len seed" "sd_root_digest (blank seed) = sd_root_digest seed"
  "sd_entries (blank seed) = sd_entries seed" "length (sd_opaque_note (blank seed)) = length (sd_opaque_note seed)"
  "sd_version (blank seed) = sd_version seed" "blank (blank seed) = blank seed"
  by (simp_all add: blank_def)

lemma take_payload_blank:
  "take_payload i (map blank_entry es) = (let (es, r) = take_payload i es in (map blank_entry es, map_option blank r))"
  by (induction es) (auto simp: Let_def blank_entry_def split: prod.splits)

lemma store_do_blank:
  "store_do (blank_call c) (blank_store s) = (let (s, r) = store_do c s in (blank_store s, blank_reply r))"
proof (cases c)
  case (Restore seed limit decode prove)
  then show ?thesis
    by (simp add: restore_def quarantine_seed_def note_diagnostic_def blank_store_def blank_entry_def Let_def split: sum.splits prod.splits)
next
  case (Rollback i)
  then show ?thesis by (simp add: rollback_seed_def blank_store_def take_payload_blank Let_def split: prod.splits)
qed (simp_all add: v10_write_def export_team_artifact_def blank_store_def)

lemma store_run_blank:
  "store_run (map blank_call cs) (blank_store s) = (let (s, rs) = store_run cs s in (blank_store s, map blank_reply rs))"
  by (induction cs arbitrary: s) (auto simp: store_do_blank Let_def split: prod.splits)

text \<open>The identifiers of the quarantine are its positions.\<close>

definition store_wf :: "snapshot_store \<Rightarrow> bool" where
  "store_wf s \<longleftrightarrow> map (qm_id \<circ> qe_metadata) (st_quarantine s) = [0..<st_next_quarantine s]"

lemma store_wf_new [simp]: "store_wf snapshot_store_new"
  by (simp add: store_wf_def snapshot_store_new_def)

lemma store_wfD:
  assumes "store_wf s"
  shows "length (st_quarantine s) = st_next_quarantine s" and "k < st_next_quarantine s \<Longrightarrow> qm_id (qe_metadata (st_quarantine s ! k)) = k"
proof -
  show len: "length (st_quarantine s) = st_next_quarantine s" using assms by (metis store_wf_def diff_zero length_map length_upt)
  assume "k < st_next_quarantine s"
  then show "qm_id (qe_metadata (st_quarantine s ! k)) = k" using assms len
    by (metis add_0 comp_apply nth_map nth_upt store_wf_def)
qed

lemma take_payload_at:
  "k < length es \<Longrightarrow> qm_id (qe_metadata (es ! k)) = i \<Longrightarrow> (\<forall>m < k. qm_id (qe_metadata (es ! m)) \<noteq> i) \<Longrightarrow>
   take_payload i es = (es[k := (es ! k)\<lparr>qe_rollback_payload := None\<rparr>], qe_rollback_payload (es ! k))"
proof (induction es arbitrary: k)
  case (Cons e es)
  show ?case
  proof (cases k)
    case (Suc k')
    then have "qm_id (qe_metadata e) \<noteq> i" "\<forall>m < k'. qm_id (qe_metadata (es ! m)) \<noteq> i" using Cons.prems(3) by force+
    then show ?thesis using Cons.IH [of k'] Cons.prems Suc by simp
  qed (use Cons.prems in simp)
qed simp

lemma take_payload_none: "i \<notin> (qm_id \<circ> qe_metadata) ` set es \<Longrightarrow> take_payload i es = (es, None)"
  by (induction es) auto

lemma rollback_at:
  assumes "store_wf s"
  shows "rollback_seed i s =
    (if i < st_next_quarantine s
     then (s\<lparr>st_quarantine := (st_quarantine s)[i := (st_quarantine s ! i)\<lparr>qe_rollback_payload := None\<rparr>]\<rparr>, qe_rollback_payload (st_quarantine s ! i))
     else (s, None))"
proof (cases "i < st_next_quarantine s")
  case True
  then show ?thesis using store_wfD [OF assms] take_payload_at [of i "st_quarantine s" i] by (simp add: rollback_seed_def)
next
  case False
  then have "i \<notin> (qm_id \<circ> qe_metadata) ` set (st_quarantine s)" using assms by (metis atLeastLessThan_iff list.set_map set_upt store_wf_def)
  then show ?thesis using False by (simp add: rollback_seed_def take_payload_none)
qed

lemma restore_shape:
  assumes "restore seed limit decode prove s = (t, r)"
  shows "st_quarantine t = st_quarantine s \<and> st_next_quarantine t = st_next_quarantine s \<or>
    (\<exists>e. st_quarantine t = st_quarantine s @ [e] \<and> qm_id (qe_metadata e) = st_next_quarantine s \<and> st_next_quarantine t = Suc (st_next_quarantine s))"
proof (cases "decode_entries decode limit 0 [] (sd_entries seed)")
  case (Inr decoded)
  then show ?thesis using assms by (auto simp: restore_def quarantine_seed_def note_diagnostic_def Let_def split: if_splits)
qed (use assms in \<open>simp add: restore_def split: if_splits\<close>)

lemma store_do_wf:
  assumes "store_wf s" "store_do c s = (t, r)"
  shows "store_wf t" and "st_next_quarantine s \<le> st_next_quarantine t"
    and "i < st_next_quarantine s \<Longrightarrow> c \<noteq> Rollback i \<Longrightarrow> st_quarantine t ! i = st_quarantine s ! i"
    and "i < st_next_quarantine s \<Longrightarrow> qe_rollback_payload (st_quarantine s ! i) = None \<Longrightarrow> qe_rollback_payload (st_quarantine t ! i) = None"
proof -
  have "store_wf t \<and> st_next_quarantine s \<le> st_next_quarantine t \<and>
    (i < st_next_quarantine s \<longrightarrow> c \<noteq> Rollback i \<longrightarrow> st_quarantine t ! i = st_quarantine s ! i) \<and>
    (i < st_next_quarantine s \<longrightarrow> qe_rollback_payload (st_quarantine s ! i) = None \<longrightarrow> qe_rollback_payload (st_quarantine t ! i) = None)"
  proof (cases c)
    case (Restore seed limit decode prove)
    then obtain r' where "restore seed limit decode prove s = (t, r')" using assms(2) by (auto split: prod.splits)
    then show ?thesis using assms(1) store_wfD(1) [OF assms(1)] restore_shape by (fastforce simp: store_wf_def nth_append)
  next
    case (Rollback k)
    let ?q = "(st_quarantine s)[k := (st_quarantine s ! k)\<lparr>qe_rollback_payload := None\<rparr>]"
    have t: "t = (if k < st_next_quarantine s then s\<lparr>st_quarantine := ?q\<rparr> else s)"
      using assms Rollback by (simp add: rollback_at split: if_splits)
    have "map (qm_id \<circ> qe_metadata) ?q = map (qm_id \<circ> qe_metadata) (st_quarantine s)"
      by (simp add: map_update) (cases "k < length (st_quarantine s)"; simp add: list_update_same_conv list_update_beyond)
    then have "store_wf t" using assms(1) t by (simp add: store_wf_def)
    moreover have "st_quarantine t ! i = st_quarantine s ! i" if "k \<noteq> i" using that t by simp
    moreover have "qe_rollback_payload (st_quarantine t ! i) = None" if "qe_rollback_payload (st_quarantine s ! i) = None"
      using that t by (cases "k = i"; cases "i < length (st_quarantine s)") (simp_all add: list_update_beyond)
    moreover have "st_next_quarantine t = st_next_quarantine s" using t by simp
    ultimately show ?thesis using Rollback by auto
  qed (use assms in \<open>auto simp: v10_write_def export_team_artifact_def store_wf_def split: if_splits\<close>)
  then show "store_wf t" and "st_next_quarantine s \<le> st_next_quarantine t"
    and "i < st_next_quarantine s \<Longrightarrow> c \<noteq> Rollback i \<Longrightarrow> st_quarantine t ! i = st_quarantine s ! i"
    and "i < st_next_quarantine s \<Longrightarrow> qe_rollback_payload (st_quarantine s ! i) = None \<Longrightarrow> qe_rollback_payload (st_quarantine t ! i) = None"
    by auto
qed

lemma store_run_wf:
  assumes "store_wf s" "store_run cs s = (t, rs)" "i < st_next_quarantine s"
  shows "store_wf t \<and> i < st_next_quarantine t \<and> (Rollback i \<notin> set cs \<longrightarrow> st_quarantine t ! i = st_quarantine s ! i) \<and>
    (qe_rollback_payload (st_quarantine s ! i) = None \<longrightarrow> qe_rollback_payload (st_quarantine t ! i) = None)"
  using assms
proof (induction cs arbitrary: s rs)
  case (Cons c cs)
  obtain u r us where u: "store_do c s = (u, r)" "store_run cs u = (t, us)" using Cons.prems(2) by (auto split: prod.splits)
  note step = store_do_wf [OF Cons.prems(1) u(1)]
  have "store_wf t \<and> i < st_next_quarantine t \<and> (Rollback i \<notin> set cs \<longrightarrow> st_quarantine t ! i = st_quarantine u ! i) \<and>
    (qe_rollback_payload (st_quarantine u ! i) = None \<longrightarrow> qe_rollback_payload (st_quarantine t ! i) = None)"
    using Cons.IH [OF step(1) u(2)] step(2) Cons.prems(3) by simp
  then show ?case using step(3,4) [OF Cons.prems(3)] by auto
qed simp

lemma store_reached: "store_run cs snapshot_store_new = (s, rs) \<Longrightarrow> store_wf s"
proof -
  have "store_wf u \<Longrightarrow> store_run cs u = (s, rs) \<Longrightarrow> store_wf s" for u
    by (induction cs arbitrary: u rs) (auto split: prod.splits dest: store_do_wf(1))
  then show "store_run cs snapshot_store_new = (s, rs) \<Longrightarrow> store_wf s" using store_wf_new by blast
qed

lemma restore_quarantined:
  assumes "restore seed limit decode prove s = (t, Inr (Quarantined i))"
  shows "i = st_next_quarantine s" "st_next_quarantine t = Suc i" "\<exists>m. st_quarantine t = st_quarantine s @ [\<lparr>qe_metadata = m, qe_rollback_payload = Some seed\<rparr>] \<and> qm_id m = i"
  using assms by (auto simp: restore_def quarantine_seed_def note_diagnostic_def Let_def split: if_splits sum.splits)

lemma decode_total:
  "consumed + 16 * length entries \<le> limit \<Longrightarrow> \<exists>out. decode_entries decode limit consumed decoded entries = Inr out"
  by (induction entries arbitrary: consumed decoded) (auto simp: Let_def)

lemma blank_store_shows:
  "st_current (blank_store s) = st_current s" "quarantine_rows (blank_store s) = quarantine_rows s" "st_diagnostics (blank_store s) = st_diagnostics s"
  "map debug_payload (st_quarantine (blank_store s)) = map debug_payload (st_quarantine s)" "st_v10 (blank_store s) = st_v10 s"
  "st_rebuild_required (blank_store s) = st_rebuild_required s" "st_team_artifacts (blank_store s) = st_team_artifacts s"
  by (simp_all add: blank_store_def quarantine_rows_def blank_entry_def debug_payload_def option.map_comp comp_def)

section \<open>Properties\<close>

text \<open>
  C36: restoring is all or nothing. The current state changes only when the seed's declared length and its decoded
  entries are within the limit, the digest of the decoded entries is the declared one and every decoded entry is proved; then it
  is exactly the map of the decoded entries. In every other case the state is kept, and unless the call was refused a rebuild
  is required. The earlier namespace is never touched.
\<close>

theorem restore_all_or_nothing:
  assumes "restore seed limit decode prove s = (t, r)"
  defines "decoded \<equiv> map2 decode [0..<length (sd_entries seed)] (sd_entries seed)"
  shows "st_v10 t = st_v10 s \<and> (\<exists>n. r = Inr (Promoted n)) =
      (sd_declared_len seed \<le> limit \<and> 16 * length (sd_entries seed) \<le> limit \<and> seed_digest decoded = sd_root_digest seed \<and>
       (\<forall>(source, stamp) \<in> set decoded. prove source stamp)) \<and>
    st_current t = (if \<exists>n. r = Inr (Promoted n) then fold (\<lambda>(source, stamp). hinsert source stamp) decoded [] else st_current s) \<and>
    ((\<exists>n. r = Inr (SeedRejected n)) \<or> (\<exists>i. r = Inr (Quarantined i)) \<longrightarrow> st_rebuild_required t)"
proof (cases "decode_entries decode limit 0 [] (sd_entries seed)")
  case (Inl e)
  then have "\<not> 16 * length (sd_entries seed) \<le> limit" using decode_total [of 0 "sd_entries seed" limit decode "[]"] by auto
  then show ?thesis using assms(1) Inl by (auto simp: restore_def split: if_splits)
next
  case (Inr out)
  then have out: "out = decoded" "16 * length (sd_entries seed) \<le> limit" using decode_Ok [OF Inr] by (auto simp: decoded_def)
  show ?thesis using assms(1) Inr out
    by (auto simp: restore_def quarantine_seed_def note_diagnostic_def Let_def filter_empty_conv split: if_splits)
qed

theorem restore_all_or_nothing_witness:
  "st_current (fst (restore \<lparr>sd_version = 10, sd_declared_len = 16, sd_root_digest = seed_digest [(1, 2)], sd_entries = [(1, 2)], sd_opaque_note = []\<rparr>
     16 (\<lambda>_ e. e) (\<lambda>_ _. True) snapshot_store_new)) = [(1, 2)]"
proof -
  let ?seed = "\<lparr>sd_version = 10, sd_declared_len = 16, sd_root_digest = seed_digest [(1, 2)], sd_entries = [(1, 2)], sd_opaque_note = []\<rparr>"
  obtain t r where t: "restore ?seed 16 (\<lambda>_ e. e) (\<lambda>_ _. True) snapshot_store_new = (t, r)" by force
  from restore_all_or_nothing [OF this] show ?thesis unfolding t by simp
qed

text \<open>
  C26: two runs of the store on seeds that differ only in the bytes of their notes, notes of the same lengths, are
  indistinguishable: the current state, quarantine rows, diagnostics, the debug form of the quarantine, the earlier namespace and every
  reply are the same, except that a rollback hands out the seed with its own note.
\<close>

theorem notes_never_show:
  assumes "map blank_call cs = map blank_call ds"
    and "store_run cs snapshot_store_new = (s, rs)" and "store_run ds snapshot_store_new = (t, us)"
  shows "map blank_reply rs = map blank_reply us \<and> st_current s = st_current t \<and> quarantine_rows s = quarantine_rows t \<and>
    st_diagnostics s = st_diagnostics t \<and> map debug_payload (st_quarantine s) = map debug_payload (st_quarantine t) \<and>
    st_v10 s = st_v10 t \<and> st_rebuild_required s = st_rebuild_required t \<and> st_team_artifacts s = st_team_artifacts t"
proof -
  have new: "blank_store snapshot_store_new = snapshot_store_new" by (simp add: blank_store_def snapshot_store_new_def)
  have "(blank_store s, map blank_reply rs) = (blank_store t, map blank_reply us)"
    using store_run_blank [of cs snapshot_store_new] store_run_blank [of ds snapshot_store_new] assms by (simp add: new)
  then have "blank_store s = blank_store t" and replies: "map blank_reply rs = map blank_reply us" by auto
  from this(1) show ?thesis using blank_store_shows [of s] blank_store_shows [of t] replies by simp
qed

theorem notes_never_show_witness:
  "let seed = \<lparr>sd_version = 10, sd_declared_len = 0, sd_root_digest = 0, sd_entries = [], sd_opaque_note = [7]\<rparr>;
       call = (\<lambda>note. [Restore (seed\<lparr>sd_opaque_note := note\<rparr>) 0 (\<lambda>_ e. e) (\<lambda>_ _. True)])
   in st_diagnostics (fst (store_run (call [7]) snapshot_store_new)) = st_diagnostics (fst (store_run (call [9]) snapshot_store_new))"
proof -
  let ?seed = "\<lparr>sd_version = 10, sd_declared_len = 0, sd_root_digest = 0, sd_entries = [], sd_opaque_note = [7]\<rparr>"
  let ?call = "\<lambda>note. [Restore (?seed\<lparr>sd_opaque_note := note\<rparr>) 0 (\<lambda>_ e. e) (\<lambda>_ _. True)]"
  obtain s rs t us where "store_run (?call [7]) snapshot_store_new = (s, rs)" "store_run (?call [9]) snapshot_store_new = (t, us)" by (metis surj_pair)
  with notes_never_show [OF _ this] show ?thesis unfolding Let_def by (simp add: blank_def)
qed

text \<open>
  A quarantined seed comes back exactly as it was, after any calls that do not roll it back, and only once: after the
  rollback and any further calls another one of the same identifier gives nothing.
\<close>

lemma quarantine_rollback_once:
  assumes "store_run before snapshot_store_new = (s, rs)" and "restore seed limit decode prove s = (t, Inr (Quarantined i))"
    and "store_run between t = (u, us)" and "Rollback i \<notin> set between"
    and "rollback_seed i u = (v, first)" and "store_run after v = (w, ws)"
  shows "first = Some seed \<and> snd (rollback_seed i w) = None"
proof -
  have s: "store_wf s" by (rule store_reached [OF assms(1)])
  note q = restore_quarantined [OF assms(2)]
  have t: "store_wf t" using store_do_wf(1) [OF s, of "Restore seed limit decode prove" t] assms(2) by simp
  have "st_quarantine t ! i = last (st_quarantine t)" using q store_wfD(1) [OF s] by (auto simp: nth_append)
  then have pay: "qe_rollback_payload (st_quarantine t ! i) = Some seed" using q(3) by auto
  have u: "store_wf u" "i < st_next_quarantine u" "st_quarantine u ! i = st_quarantine t ! i"
    using store_run_wf [OF t assms(3), of i] q(2) assms(4) by auto
  have len: "length (st_quarantine u) = st_next_quarantine u" by (rule store_wfD(1) [OF u(1)])
  have v: "first = Some seed" "st_next_quarantine v = st_next_quarantine u" "qe_rollback_payload (st_quarantine v ! i) = None"
    using assms(5) u pay len by (auto simp: rollback_at)
  have "store_wf v" using store_do_wf(1) [OF u(1), of "Rollback i" v] assms(5) by simp
  then have "store_wf w" "i < st_next_quarantine w" "qe_rollback_payload (st_quarantine w ! i) = None"
    using store_run_wf [OF _ assms(6), of i] v(2,3) u(2) by auto
  then show ?thesis using v(1) by (simp add: rollback_at)
qed

theorem quarantine_rollback_once_witness:
  "snd (rollback_seed 0 (fst (restore \<lparr>sd_version = 10, sd_declared_len = 0, sd_root_digest = 0, sd_entries = [], sd_opaque_note = [7]\<rparr>
     0 (\<lambda>_ e. e) (\<lambda>_ _. True) snapshot_store_new))) =
   Some \<lparr>sd_version = 10, sd_declared_len = 0, sd_root_digest = 0, sd_entries = [], sd_opaque_note = [7]\<rparr>"
proof -
  let ?seed = "\<lparr>sd_version = 10, sd_declared_len = 0, sd_root_digest = 0, sd_entries = [], sd_opaque_note = [7]\<rparr>"
  obtain t r where t: "restore ?seed 0 (\<lambda>_ e. e) (\<lambda>_ _. True) snapshot_store_new = (t, r)" by force
  then have r: "r = Inr (Quarantined 0)" by (auto simp: restore_def seed_digest_def snapshot_store_new_def)
  obtain v first where v: "rollback_seed 0 t = (v, first)" by force
  from quarantine_rollback_once [of "[]" snapshot_store_new "[]" ?seed 0 _ _ t 0 "[]" t "[]" v first "[]" v "[]", OF _ t [unfolded r] _ _ v]
  show ?thesis using t v by simp
qed

end
