(* ===== verification/Enclosing.thy ===== *)
theory Enclosing
  imports Domain "HOL-Library.Product_Lexorder"
begin

text \<open>
  The innermost symbol around a line: \<open>find_enclosing_symbol\<close> and the sweep \<open>find_enclosing_symbols\<close> of
  \<open>src/domain/index.rs\<close>.

  The heap of the sweep is a list sorted by what the heap orders: latest start first, then lowest index; its top is
  the head. Indices and lines are \<open>nat\<close>: a file has fewer than \<open>2^32\<close> symbols, so the casts to \<open>u32\<close> are exact.
\<close>

section \<open>One line at a time\<close>

definition better :: "nat \<Rightarrow> nat \<times> symbol_row \<Rightarrow> (nat \<times> nat) option \<Rightarrow> (nat \<times> nat) option" where
  "better ref_line entry best =
     (case entry of (idx, symb) \<Rightarrow>
        let (start, stop) = sy_line_range symb
        in if start \<le> ref_line \<and> ref_line \<le> stop
           then (case best of
                   None \<Rightarrow> Some (start, idx)
                 | Some (best_start, _) \<Rightarrow> if start > best_start then Some (start, idx) else best)
           else best)"

definition find_enclosing_symbol :: "symbol_row list \<Rightarrow> nat \<Rightarrow> nat option" where
  "find_enclosing_symbol symbols ref_line = map_option snd (fold (better ref_line) (enumerate 0 symbols) None)"

section \<open>The sweep\<close>

type_synonym started = "nat \<times> nat \<times> nat"

text \<open>An entry of the heap is its start, its index and its end.\<close>

fun started_key :: "started \<Rightarrow> int \<times> nat" where
  "started_key (start, idx, stop) = (- int start, idx)"

definition started_of :: "symbol_row list \<Rightarrow> nat \<Rightarrow> started" where
  "started_of symbols idx = (fst (sy_line_range (symbols ! idx)), idx, snd (sy_line_range (symbols ! idx)))"

fun push_started :: "symbol_row list \<Rightarrow> nat \<Rightarrow> started list \<Rightarrow> nat list \<Rightarrow> started list \<times> nat list" where
  "push_started symbols line heap [] = (heap, [])"
| "push_started symbols line heap (idx # rest) =
     (if fst (sy_line_range (symbols ! idx)) \<le> line
      then push_started symbols line (insort_key started_key (started_of symbols idx) heap) rest
      else (heap, idx # rest))"

fun pop_ended :: "nat \<Rightarrow> started list \<Rightarrow> started list" where
  "pop_ended line [] = []"
| "pop_ended line ((start, idx, stop) # heap) = (if stop < line then pop_ended line heap else (start, idx, stop) # heap)"

fun sweep :: "symbol_row list \<Rightarrow> nat list \<Rightarrow> started list \<Rightarrow> nat list \<Rightarrow> nat list \<Rightarrow> nat option list \<Rightarrow> nat option list" where
  "sweep symbols lines heap by_start [] enclosing = enclosing"
| "sweep symbols lines heap by_start (at # by_line) enclosing =
     (let line = lines ! at;
          (heap, by_start) = push_started symbols line heap by_start;
          heap = pop_ended line heap
      in sweep symbols lines heap by_start by_line
           (enclosing[at := (case heap of [] \<Rightarrow> None | (_, idx, _) # _ \<Rightarrow> Some idx)]))"

definition find_enclosing_symbols :: "symbol_row list \<Rightarrow> nat list \<Rightarrow> nat option list" where
  "find_enclosing_symbols symbols lines =
     sweep symbols lines []
       (sort_key (\<lambda>idx. fst (sy_line_range (symbols ! idx))) [0..<length symbols])
       (sort_key (\<lambda>at. lines ! at) [0..<length lines])
       (replicate (length lines) None)"

section \<open>Lemmas\<close>

definition encloses :: "symbol_row list \<Rightarrow> nat \<Rightarrow> nat \<Rightarrow> bool" where
  "encloses symbols line i \<longleftrightarrow> i < length symbols \<and> fst (sy_line_range (symbols ! i)) \<le> line \<and> line \<le> snd (sy_line_range (symbols ! i))"

definition innermost :: "symbol_row list \<Rightarrow> nat \<Rightarrow> nat option \<Rightarrow> bool" where
  "innermost symbols line r \<longleftrightarrow>
     (case r of
        None \<Rightarrow> \<forall>i. \<not> encloses symbols line i
      | Some i \<Rightarrow> encloses symbols line i \<and>
          (\<forall>j. encloses symbols line j \<longrightarrow> started_key (started_of symbols i) \<le> started_key (started_of symbols j)))"

lemma innermost_unique:
  assumes "innermost symbols line r" "innermost symbols line r'"
  shows "r = r'"
proof (cases r; cases r')
  fix i j assume "r = Some i" "r' = Some j"
  then have "started_key (started_of symbols i) = started_key (started_of symbols j)"
    using assms by (intro order.antisym) (auto simp: innermost_def)
  then show ?thesis using \<open>r = Some i\<close> \<open>r' = Some j\<close> by (simp add: started_of_def)
qed (use assms in \<open>auto simp: innermost_def\<close>)

lemma started_key_le:
  "started_key (started_of symbols i) \<le> started_key (started_of symbols j) \<longleftrightarrow>
   fst (sy_line_range (symbols ! j)) < fst (sy_line_range (symbols ! i)) \<or>
   fst (sy_line_range (symbols ! i)) = fst (sy_line_range (symbols ! j)) \<and> i \<le> j"
  by (auto simp: started_of_def)

lemma better_eq:
  assumes "n < length symbols"
  shows "better line (n, symbols ! n) best =
    (if encloses symbols line n
     then (case best of
             None \<Rightarrow> Some (fst (sy_line_range (symbols ! n)), n)
           | Some (s, i) \<Rightarrow> if s < fst (sy_line_range (symbols ! n)) then Some (fst (sy_line_range (symbols ! n)), n) else best)
     else best)"
  using assms by (auto simp: better_def encloses_def split: prod.splits option.splits)

lemma best_prefix:
  assumes "n \<le> length symbols"
  shows "case fold (better line) (enumerate 0 (take n symbols)) None of
      None \<Rightarrow> \<forall>i < n. \<not> encloses symbols line i
    | Some (s, i) \<Rightarrow> i < n \<and> encloses symbols line i \<and> s = fst (sy_line_range (symbols ! i)) \<and>
        (\<forall>j < n. encloses symbols line j \<longrightarrow> started_key (started_of symbols i) \<le> started_key (started_of symbols j))"
  using assms
proof (induction n)
  case (Suc n)
  define r where "r = fold (better line) (enumerate 0 (take n symbols)) None"
  have IH: "case r of None \<Rightarrow> \<forall>i < n. \<not> encloses symbols line i
    | Some (s, i) \<Rightarrow> i < n \<and> encloses symbols line i \<and> s = fst (sy_line_range (symbols ! i)) \<and>
        (\<forall>j < n. encloses symbols line j \<longrightarrow> started_key (started_of symbols i) \<le> started_key (started_of symbols j))"
    using Suc unfolding r_def by simp
  have "take (Suc n) symbols = take n symbols @ [symbols ! n]" using Suc.prems by (simp add: take_Suc_conv_app_nth)
  then have step: "fold (better line) (enumerate 0 (take (Suc n) symbols)) None = better line (n, symbols ! n) r"
    using Suc.prems by (simp add: enumerate_append_eq r_def)
  show ?case
  proof (cases r)
    case None
    then show ?thesis using IH Suc.prems unfolding step by (auto simp: better_eq less_Suc_eq started_key_le)
  next
    case (Some p)
    then show ?thesis using IH Suc.prems unfolding step
      by (cases p) (auto simp: better_eq less_Suc_eq started_key_le split: if_splits)
  qed
qed simp

lemma find_enclosing_symbol_innermost: "innermost symbols line (find_enclosing_symbol symbols line)"
  using best_prefix [OF order_refl, of symbols line]
  by (auto simp: innermost_def find_enclosing_symbol_def encloses_def split: option.splits)

abbreviation start_of :: "symbol_row list \<Rightarrow> nat \<Rightarrow> nat" where
  "start_of symbols i \<equiv> fst (sy_line_range (symbols ! i))"

abbreviation stop_of :: "symbol_row list \<Rightarrow> nat \<Rightarrow> nat" where
  "stop_of symbols i \<equiv> snd (sy_line_range (symbols ! i))"

text \<open>
  The state of the sweep before a line not below \<open>floor\<close>: every symbol is still to start, in the heap, or ended
  before \<open>floor\<close>.
\<close>

definition sweep_ok :: "symbol_row list \<Rightarrow> nat \<Rightarrow> started list \<Rightarrow> nat list \<Rightarrow> bool" where
  "sweep_ok symbols floor heap by_start \<longleftrightarrow>
     sorted (map started_key heap) \<and> sorted (map (start_of symbols) by_start) \<and> set by_start \<subseteq> {..<length symbols} \<and>
     (\<forall>h \<in> set heap. \<exists>i < length symbols. h = started_of symbols i \<and> start_of symbols i \<le> floor) \<and>
     (\<forall>i < length symbols. i \<in> set by_start \<or> started_of symbols i \<in> set heap \<or> stop_of symbols i < floor)"

lemma sweep_okD:
  assumes "sweep_ok symbols floor heap by_start"
  shows "sorted (map started_key heap)" "sorted (map (start_of symbols) by_start)" "i \<in> set by_start \<Longrightarrow> i < length symbols"
    "h \<in> set heap \<Longrightarrow> \<exists>i < length symbols. h = started_of symbols i \<and> start_of symbols i \<le> floor"
    "i < length symbols \<Longrightarrow> i \<in> set by_start \<or> started_of symbols i \<in> set heap \<or> stop_of symbols i < floor"
  using assms by (auto simp: sweep_ok_def)

lemma push_started_spec:
  assumes "push_started symbols line heap by_start = (heap', by_start')" "sorted (map started_key heap)" "sorted (map (start_of symbols) by_start)"
  shows "sorted (map started_key heap') \<and> sorted (map (start_of symbols) by_start') \<and>
    set heap' = set heap \<union> started_of symbols ` {i \<in> set by_start. start_of symbols i \<le> line} \<and>
    set by_start' = {i \<in> set by_start. line < start_of symbols i}"
  using assms
proof (induction symbols line heap by_start rule: push_started.induct)
  case (2 symbols line heap idx rest)
  show ?case
  proof (cases "start_of symbols idx \<le> line")
    case True
    then show ?thesis using 2 by (auto simp: sorted_insort_key set_insort_key)
  next
    case False
    then show ?thesis using 2(2-4) by fastforce
  qed
qed auto

lemma pop_ended_eq: "pop_ended line heap = dropWhile (\<lambda>(start, idx, stop). stop < line) heap"
  by (induction line heap rule: pop_ended.induct) auto

lemma in_dropWhile: "h \<in> set xs \<Longrightarrow> \<not> P h \<Longrightarrow> h \<in> set (dropWhile P xs)"
  by (induction xs) auto

lemma sorted_map_dropWhile: "sorted (map f xs) \<Longrightarrow> sorted (map f (dropWhile P xs))"
  by (induction xs) auto

lemma sweep_line:
  assumes ok: "sweep_ok symbols floor heap by_start" and "floor \<le> line"
    and push: "push_started symbols line heap by_start = (heap', by_start')"
  shows "sweep_ok symbols line (pop_ended line heap') by_start'"
    and "innermost symbols line (case pop_ended line heap' of [] \<Rightarrow> None | (_, idx, _) # _ \<Rightarrow> Some idx)"
proof -
  note okD = sweep_okD [OF ok]
  have p: "sorted (map started_key heap')" "sorted (map (start_of symbols) by_start')"
    "set heap' = set heap \<union> started_of symbols ` {i \<in> set by_start. start_of symbols i \<le> line}"
    "set by_start' = {i \<in> set by_start. line < start_of symbols i}"
    using push_started_spec [OF push okD(1,2)] by blast+
  let ?h = "pop_ended line heap'"
  have kept: "h \<in> set ?h" if "h \<in> set heap'" "line \<le> snd (snd h)" for h
    unfolding pop_ended_eq by (rule in_dropWhile [OF that(1)]) (use that(2) in \<open>simp add: case_prod_unfold\<close>)
  have sub: "set ?h \<subseteq> set heap'" by (auto simp: pop_ended_eq dest: set_dropWhileD)
  have sorted_h: "sorted (map started_key ?h)" using p(1) by (simp add: pop_ended_eq sorted_map_dropWhile)
  have entry: "\<exists>i < length symbols. h = started_of symbols i \<and> start_of symbols i \<le> line" if "h \<in> set heap'" for h
  proof -
    from that consider "h \<in> set heap" | i where "i \<in> set by_start" "start_of symbols i \<le> line" "h = started_of symbols i" using p(3) by auto
    then show ?thesis
    proof cases
      case 1
      then show ?thesis using okD(4) [OF 1] assms(2) le_trans by blast
    next
      case (2 i)
      then show ?thesis using okD(3) by blast
    qed
  qed
  have cover: "i \<in> set by_start' \<or> started_of symbols i \<in> set heap' \<or> stop_of symbols i < line" if "i < length symbols" for i
  proof -
    have "i \<in> set by_start \<or> started_of symbols i \<in> set heap \<or> stop_of symbols i < floor" by (rule okD(5) [OF that])
    then consider "i \<in> set by_start" | "started_of symbols i \<in> set heap" | "stop_of symbols i < floor" by blast
    then show ?thesis
    proof cases
      case 1
      then show ?thesis unfolding p(3,4) by (cases "start_of symbols i \<le> line") simp_all
    next
      case 2
      then show ?thesis unfolding p(3) by simp
    next
      case 3
      then show ?thesis using assms(2) by simp
    qed
  qed
  have covered: "i \<in> set by_start' \<or> started_of symbols i \<in> set ?h \<or> stop_of symbols i < line" if "i < length symbols" for i
    using cover [OF that] kept [of "started_of symbols i"] by (metis not_le_imp_less snd_conv started_of_def)
  show "sweep_ok symbols line ?h by_start'"
  proof -
    have "set by_start' \<subseteq> {..<length symbols}" using p(4) okD(3) by auto
    moreover have "\<forall>h \<in> set ?h. \<exists>i < length symbols. h = started_of symbols i \<and> start_of symbols i \<le> line" using entry sub by blast
    ultimately show ?thesis unfolding sweep_ok_def using sorted_h p(2) covered by simp
  qed
  have enclosing_in: "started_of symbols j \<in> set ?h" if "encloses symbols line j" for j
    using covered [of j] that p(4) by (auto simp: encloses_def)
  show "innermost symbols line (case ?h of [] \<Rightarrow> None | (_, idx, _) # _ \<Rightarrow> Some idx)"
  proof (cases ?h)
    case Nil
    then show ?thesis using enclosing_in by (auto simp: innermost_def)
  next
    case (Cons t rest)
    obtain i where i: "i < length symbols" "t = started_of symbols i" "start_of symbols i \<le> line" using entry [of t] sub Cons by (metis list.set_intros(1) subsetD)
    have "\<not> snd (snd t) < line" using Cons hd_dropWhile [of "\<lambda>h. snd (snd h) < line" heap'] by (simp add: pop_ended_eq case_prod_unfold)
    then have "encloses symbols line i" using i by (auto simp: encloses_def started_of_def)
    moreover have "started_key t \<le> started_key (started_of symbols j)" if "encloses symbols line j" for j
      using enclosing_in [OF that] sorted_h Cons by auto
    ultimately show ?thesis using Cons i by (auto simp: innermost_def started_of_def)
  qed
qed

lemma sweep_eq:
  assumes "sweep_ok symbols floor heap by_start" "sorted (map ((!) lines) by_line)" "\<forall>at \<in> set by_line. floor \<le> lines ! at"
  shows "sweep symbols lines heap by_start by_line enclosing =
    fold (\<lambda>at enc. enc[at := find_enclosing_symbol symbols (lines ! at)]) by_line enclosing"
  using assms
proof (induction by_line arbitrary: floor heap by_start enclosing)
  case (Cons at by_line)
  obtain heap' by_start' where push: "push_started symbols (lines ! at) heap by_start = (heap', by_start')" by force
  have le: "floor \<le> lines ! at" using Cons.prems(3) by simp
  note step = sweep_line [OF Cons.prems(1) le push]
  have "(case pop_ended (lines ! at) heap' of [] \<Rightarrow> None | (_, idx, _) # _ \<Rightarrow> Some idx) = find_enclosing_symbol symbols (lines ! at)"
    by (rule innermost_unique [OF step(2) find_enclosing_symbol_innermost])
  then show ?case using Cons.IH [OF step(1)] Cons.prems(2) push by simp
qed simp

lemma fold_update_nth:
  "distinct ks \<Longrightarrow> i < length enc \<Longrightarrow> fold (\<lambda>k enc. enc[k := f k]) ks enc ! i = (if i \<in> set ks then f i else enc ! i)"
  by (induction ks arbitrary: enc) auto

lemma fold_update_length: "length (fold (\<lambda>k enc. enc[k := f k]) ks enc) = length enc"
  by (induction ks arbitrary: enc) auto

section \<open>Properties\<close>

text \<open>
  C21: the sweep over sorted symbols and lines gives for every line, in the order of the lines, exactly the symbol the
  search over all symbols gives.
\<close>

theorem find_enclosing_symbols_correct: "find_enclosing_symbols symbols lines = map (find_enclosing_symbol symbols) lines"
proof -
  let ?s = "sort_key (start_of symbols) [0..<length symbols]" and ?l = "sort_key ((!) lines) [0..<length lines]"
  have "sweep_ok symbols 0 [] ?s" by (auto simp: sweep_ok_def)
  then have eq: "find_enclosing_symbols symbols lines =
      fold (\<lambda>at enc. enc[at := find_enclosing_symbol symbols (lines ! at)]) ?l (replicate (length lines) None)"
    unfolding find_enclosing_symbols_def by (intro sweep_eq) auto
  show ?thesis unfolding eq by (rule nth_equalityI) (auto simp: fold_update_length fold_update_nth)
qed

end
