(* ===== verification/LiveIndex.thy ===== *)
theory LiveIndex
  imports Enclosing Trigram "HOL-Library.Char_ord" "HOL-Library.List_Lexorder" "HOL-Library.Multiset"
begin

text \<open>
  The in-memory index and its derived indices: \<open>LiveIndex\<close> of \<open>src/live_index/store.rs\<close>.

  A row is an \<open>Arc\<close> of an indexed file: \<open>ro_arc\<close> is the identity of the allocation, which \<open>Arc::ptr_eq\<close> compares, and the
  caller of an update supplies a fresh one. \<open>lc\<close> is \<open>str::to_lowercase\<close>, which decides the order of the manifest only.
  Paths are those of a Unix host. Timestamps, the circuit breaker, the ignore matcher and the co-change
  store are left out: no operation here reads them.
\<close>

section \<open>Rows and reports\<close>

datatype row_status = Parsed | PartialParse string | FailedParse string

record indexed_file =
  if_relative_path :: string
  if_language :: language_id
  if_classification :: file_classification
  if_content :: bytes
  if_symbols :: "symbol_row list"
  if_parse_status :: row_status
  if_byte_len :: nat
  if_content_hash :: string
  if_references :: "reference_record list"
  if_alias_map :: "(string, string) hmap"
  if_mtime_secs :: nat

record row =
  ro_arc :: nat
  ro_file :: indexed_file

record reference_location =
  rl_file_path :: string
  rl_reference_idx :: nat

record file_processing_result =
  pr_relative_path :: string
  pr_language :: language_id
  pr_classification :: file_classification
  pr_outcome :: file_outcome
  pr_symbols :: "symbol_row list"
  pr_byte_len :: nat
  pr_content_hash :: string
  pr_references :: "reference_record list"
  pr_alias_map :: "(string, string) hmap"

definition from_parse_result :: "file_processing_result \<Rightarrow> bytes \<Rightarrow> indexed_file" where
  "from_parse_result result content =
     (let ranges = set (map sy_byte_range (pr_symbols result));
          refs = filter (\<lambda>r. rf_byte_range r \<notin> ranges) (pr_references result);
          enclosing = find_enclosing_symbols (pr_symbols result) (map (\<lambda>r. fst (rf_line_range r)) refs)
      in \<lparr>if_relative_path = pr_relative_path result, if_language = pr_language result,
          if_classification = pr_classification result, if_content = content, if_symbols = pr_symbols result,
          if_parse_status = (case pr_outcome result of
             Processed \<Rightarrow> Parsed | OutcomePartialParse w \<Rightarrow> PartialParse w | OutcomeFailed e \<Rightarrow> FailedParse e),
          if_byte_len = pr_byte_len result, if_content_hash = pr_content_hash result,
          if_references = map2 (\<lambda>r idx. if rf_enclosing_symbol_index r = None then r\<lparr>rf_enclosing_symbol_index := idx\<rparr> else r) refs enclosing,
          if_alias_map = pr_alias_map result, if_mtime_secs = 0\<rparr>)"

definition SNAPSHOT_VERIFY_MISMATCH_PATH_LIMIT :: nat where
  "SNAPSHOT_VERIFY_MISMATCH_PATH_LIMIT = 10"

record verify_report =
  vr_mismatch_count :: nat
  vr_mismatched_paths :: "string list"
  vr_reason :: "string option"
  vr_unverified :: "(string, string) hmap"
  vr_discovery_error :: "string option"

definition from_mismatched_paths :: "string list \<Rightarrow> verify_report" where
  "from_mismatched_paths paths =
     (let paths = remdups_adj (sort paths)
      in \<lparr>vr_mismatch_count = length paths, vr_mismatched_paths = take SNAPSHOT_VERIFY_MISMATCH_PATH_LIMIT paths,
          vr_reason = None, vr_unverified = [], vr_discovery_error = None\<rparr>)"

definition with_reason :: "string \<Rightarrow> verify_report \<Rightarrow> verify_report" where
  "with_reason reason r = (if reason = [] then r else r\<lparr>vr_reason := Some reason\<rparr>)"


definition with_discovery_error :: "string option \<Rightarrow> verify_report \<Rightarrow> verify_report" where
  "with_discovery_error e r = r\<lparr>vr_discovery_error := e\<rparr>"

definition empty_report :: verify_report where
  "empty_report = \<lparr>vr_mismatch_count = 0, vr_mismatched_paths = [], vr_reason = None, vr_unverified = [], vr_discovery_error = None\<rparr>"

definition has_mismatches :: "verify_report \<Rightarrow> bool" where
  "has_mismatches r \<longleftrightarrow> vr_mismatch_count r > 0 \<or> vr_discovery_error r \<noteq> None"

definition drop_unverified :: "string \<Rightarrow> verify_report \<Rightarrow> verify_report \<times> bool" where
  "drop_unverified path r =
     (if hget (vr_unverified r) path = None then (r, False)
      else (r\<lparr>vr_unverified := hremove path (vr_unverified r), vr_mismatch_count := vr_mismatch_count r - 1,
              vr_mismatched_paths := filter (\<lambda>p. p \<noteq> path) (vr_mismatched_paths r)\<rparr>, True))"

definition omitted_path_count :: "verify_report \<Rightarrow> nat" where
  "omitted_path_count r = vr_mismatch_count r - length (vr_mismatched_paths r)"

text \<open>The progress of a running verification is shared by its clones; it is named by a number.\<close>

datatype verify_state = NotNeeded | VerifyPending | VerifyRunning nat | VerifyCompleted verify_report | VerifyFailed verify_report

record verify_completion =
  vc_report :: verify_report
  vc_restored_rows :: "(string \<times> row option) list"

fun verify_in_flight :: "verify_state \<Rightarrow> bool" where
  "verify_in_flight VerifyPending = True"
| "verify_in_flight (VerifyRunning _) = True"
| "verify_in_flight _ = False"

datatype load_source = EmptyBootstrap | FreshLoad | SnapshotRestore

definition load_source_label :: "load_source \<Rightarrow> string" where
  "load_source_label s = (case s of EmptyBootstrap \<Rightarrow> ''empty_bootstrap'' | FreshLoad \<Rightarrow> ''fresh_load'' | SnapshotRestore \<Rightarrow> ''snapshot_restore'')"

section \<open>The index\<close>

record live_index =
  li_files :: "(string, row) hmap"
  li_is_empty :: bool
  li_load_source :: load_source
  li_verify_state :: verify_state
  li_reverse_index :: "(string, reference_location list) hmap"
  li_files_by_basename :: "(string, string list) hmap"
  li_files_by_dir_component :: "(string, string list) hmap"
  li_trigram_index :: trigram_index
  li_manifest_entries :: "catalog_entry list"
  li_local_empty_reason :: "string option"
  li_indexed_root :: "string option"

definition empty_live_index :: live_index where
  "empty_live_index = \<lparr>li_files = [], li_is_empty = True, li_load_source = EmptyBootstrap, li_verify_state = NotNeeded,
     li_reverse_index = [], li_files_by_basename = [], li_files_by_dir_component = [], li_trigram_index = new_index,
     li_manifest_entries = [], li_local_empty_reason = None, li_indexed_root = None\<rparr>"

text \<open>What the text index sees of the rows.\<close>

definition contents_of :: "(string, row) hmap \<Rightarrow> contents" where
  "contents_of files = map (\<lambda>(p, r). (p, if_content (ro_file r))) files"

subsection \<open>Manifest entries\<close>

definition scouted_catalog_path :: "catalog_path \<Rightarrow> string" where
  "scouted_catalog_path p = (case normalized_utf8 p of Some s \<Rightarrow> s | None \<Rightarrow> public_id p)"

definition catalog_entry_from_scout :: "scouted_entry \<Rightarrow> file_disposition \<Rightarrow> string option \<Rightarrow> catalog_entry" where
  "catalog_entry_from_scout scouted disposition content_hash =
     \<lparr>ce_path = se_path scouted, ce_size = fs_size (se_stamp scouted), ce_language = se_language scouted,
      ce_classification = se_classification scouted, ce_disposition = disposition, ce_content_hash = content_hash\<rparr>"

fun degrades_coverage :: "file_disposition \<Rightarrow> bool" where
  "degrades_coverage (Unreadable _ _) = True"
| "degrades_coverage UnstableDuringRead = True"
| "degrades_coverage AbortedCircuitBreaker = True"
| "degrades_coverage _ = False"

definition manifest_requires_degraded_coverage :: "live_index \<Rightarrow> bool" where
  "manifest_requires_degraded_coverage live = list_ex (\<lambda>e. degrades_coverage (ce_disposition e)) (li_manifest_entries live)"

definition sort_manifest_entries :: "(string \<Rightarrow> string) \<Rightarrow> live_index \<Rightarrow> live_index" where
  "sort_manifest_entries lc live =
     live\<lparr>li_manifest_entries := sort_key (\<lambda>e. (lc (scouted_catalog_path (ce_path e)), scouted_catalog_path (ce_path e))) (li_manifest_entries live)\<rparr>"

definition upsert_manifest_entry_with_sort :: "(string \<Rightarrow> string) \<Rightarrow> catalog_entry \<Rightarrow> bool \<Rightarrow> live_index \<Rightarrow> live_index" where
  "upsert_manifest_entry_with_sort lc entry srt live =
     (let path = scouted_catalog_path (ce_path entry);
          live = live\<lparr>li_manifest_entries := filter (\<lambda>e. scouted_catalog_path (ce_path e) \<noteq> path) (li_manifest_entries live) @ [entry]\<rparr>
      in if srt then sort_manifest_entries lc live else live)"

definition upsert_manifest_entry :: "(string \<Rightarrow> string) \<Rightarrow> catalog_entry \<Rightarrow> live_index \<Rightarrow> live_index" where
  "upsert_manifest_entry lc entry live = upsert_manifest_entry_with_sort lc entry True live"

definition remove_manifest_entry :: "string \<Rightarrow> live_index \<Rightarrow> live_index \<times> bool" where
  "remove_manifest_entry path live =
     (let kept = filter (\<lambda>e. scouted_catalog_path (ce_path e) \<noteq> path) (li_manifest_entries live)
      in (live\<lparr>li_manifest_entries := kept\<rparr>, length kept \<noteq> length (li_manifest_entries live)))"

fun status_of_row :: "row_status \<Rightarrow> parse_status" where
  "status_of_row Parsed = StatusParsed"
| "status_of_row (PartialParse _) = StatusPartialParse"
| "status_of_row (FailedParse _) = StatusFailed"

definition derived_manifest_entry :: "string \<Rightarrow> indexed_file \<Rightarrow> live_index \<Rightarrow> catalog_entry" where
  "derived_manifest_entry path file live =
     (let by_language = (if is_code_language (if_language file) then CodeTarget else KnowledgeTarget);
          (catalog_path, targets) =
            (case find (\<lambda>e. scouted_catalog_path (ce_path e) = path) (li_manifest_entries live) of
               Some e \<Rightarrow> (ce_path e, case ce_disposition e of DispIndexed targets _ \<Rightarrow> targets | _ \<Rightarrow> by_language)
             | None \<Rightarrow> (\<lparr>public_id = path, normalized_utf8 = Some path\<rparr>, by_language))
      in \<lparr>ce_path = catalog_path, ce_size = if_byte_len file, ce_language = Some (if_language file),
          ce_classification = if_classification file,
          ce_disposition = DispIndexed targets (status_of_row (if_parse_status file)),
          ce_content_hash = Some (if_content_hash file)\<rparr>)"

definition tier_counts :: "live_index \<Rightarrow> nat \<times> nat \<times> nat" where
  "tier_counts live =
     (let entries = map ce_disposition (li_manifest_entries live);
          tier1 = length (filter (\<lambda>d. case d of DispIndexed _ _ \<Rightarrow> True | _ \<Rightarrow> False) entries);
          tier3 = length (filter (\<lambda>d. case d of DispHardSkip _ \<Rightarrow> True | _ \<Rightarrow> False) entries)
      in (if entries = [] then length (li_files live) else tier1, length entries - tier1 - tier3, tier3))"

subsection \<open>Derived indices\<close>

definition path_file_name :: "string \<Rightarrow> string option" where
  "path_file_name path =
     (let parts = filter (\<lambda>c. c \<noteq> [] \<and> c \<noteq> ''.'') (split_at (\<lambda>c. c = CHR ''/'') path)
      in if parts = [] \<or> last parts = ''..'' then None else Some (last parts))"

definition basename_key :: "string \<Rightarrow> string option" where
  "basename_key path = map_option to_ascii_lower (path_file_name path)"

definition dir_component_keys :: "string \<Rightarrow> string list" where
  "dir_component_keys path =
     (let components = filter (\<lambda>c. c \<noteq> []) (split_at (\<lambda>c. c = CHR ''/'' \<or> c = CHR 0x5C) path)
      in if length components \<le> 1 then [] else sort (remdups (map to_ascii_lower (butlast components))))"

definition insert_sorted_unique :: "string list \<Rightarrow> string \<Rightarrow> string list" where
  "insert_sorted_unique paths path =
     (case binary_search paths path of Ok _ \<Rightarrow> paths | Err pos \<Rightarrow> take pos paths @ path # drop pos paths)"

definition remove_sorted_path :: "string list \<Rightarrow> string \<Rightarrow> string list" where
  "remove_sorted_path paths path =
     (case binary_search paths path of Ok pos \<Rightarrow> take pos paths @ drop (Suc pos) paths | Err _ \<Rightarrow> paths)"

definition listed :: "('k, 'v list) hmap \<Rightarrow> 'k \<Rightarrow> 'v list" where
  "listed m k = (case hget m k of Some l \<Rightarrow> l | None \<Rightarrow> [])"

definition insert_path_key :: "string \<Rightarrow> string \<Rightarrow> (string, string list) hmap \<Rightarrow> (string, string list) hmap" where
  "insert_path_key path key m = hinsert key (insert_sorted_unique (listed m key) path) m"

definition remove_path_key :: "string \<Rightarrow> string \<Rightarrow> (string, string list) hmap \<Rightarrow> (string, string list) hmap" where
  "remove_path_key path key m =
     (case hget m key of
        None \<Rightarrow> m
      | Some paths \<Rightarrow>
          (let paths = remove_sorted_path paths path
           in if paths = [] then hremove key m else hinsert key paths m))"

definition basename_keys :: "string \<Rightarrow> string list" where
  "basename_keys path = (case basename_key path of Some b \<Rightarrow> [b] | None \<Rightarrow> [])"

definition insert_path_indices_for_path :: "string \<Rightarrow> live_index \<Rightarrow> live_index" where
  "insert_path_indices_for_path path live =
     live\<lparr>li_files_by_basename := fold (insert_path_key path) (basename_keys path) (li_files_by_basename live),
          li_files_by_dir_component := fold (insert_path_key path) (dir_component_keys path) (li_files_by_dir_component live)\<rparr>"

definition remove_path_indices_for_path :: "string \<Rightarrow> live_index \<Rightarrow> live_index" where
  "remove_path_indices_for_path path live =
     live\<lparr>li_files_by_basename := fold (remove_path_key path) (basename_keys path) (li_files_by_basename live),
          li_files_by_dir_component := fold (remove_path_key path) (dir_component_keys path) (li_files_by_dir_component live)\<rparr>"

definition push_location ::
  "string \<Rightarrow> nat \<times> reference_record \<Rightarrow> (string, reference_location list) hmap \<Rightarrow> (string, reference_location list) hmap" where
  "push_location path entry m =
     (case entry of (idx, reference) \<Rightarrow>
        hinsert (rf_name reference) (listed m (rf_name reference) @ [\<lparr>rl_file_path = path, rl_reference_idx = idx\<rparr>]) m)"

definition retain_other_paths ::
  "string \<Rightarrow> string \<Rightarrow> (string, reference_location list) hmap \<Rightarrow> (string, reference_location list) hmap" where
  "retain_other_paths path name m =
     (case hget m name of
        None \<Rightarrow> m
      | Some locs \<Rightarrow>
          (let locs = filter (\<lambda>loc. rl_file_path loc \<noteq> path) locs
           in if locs = [] then hremove name m else hinsert name locs m))"

definition row_references :: "(string, row) hmap \<Rightarrow> string \<Rightarrow> reference_record list" where
  "row_references files path = (case hget files path of Some r \<Rightarrow> if_references (ro_file r) | None \<Rightarrow> [])"

definition remove_reverse_index_for_path :: "string \<Rightarrow> live_index \<Rightarrow> live_index" where
  "remove_reverse_index_for_path path live =
     live\<lparr>li_reverse_index := fold (retain_other_paths path) (map rf_name (row_references (li_files live) path)) (li_reverse_index live)\<rparr>"

definition insert_reverse_index_for_path :: "string \<Rightarrow> live_index \<Rightarrow> live_index" where
  "insert_reverse_index_for_path path live =
     live\<lparr>li_reverse_index := fold (push_location path) (enumerate 0 (row_references (li_files live) path)) (li_reverse_index live)\<rparr>"

definition build_reverse_index_from_files :: "(string, row) hmap \<Rightarrow> (string, reference_location list) hmap" where
  "build_reverse_index_from_files files =
     fold (\<lambda>(path, r). fold (push_location path) (enumerate 0 (if_references (ro_file r)))) files []"

definition build_path_indices_from_files :: "(string, row) hmap \<Rightarrow> (string, string list) hmap \<times> (string, string list) hmap" where
  "build_path_indices_from_files files =
     (fold (\<lambda>path. fold (insert_path_key path) (basename_keys path)) (hkeys files) [],
      fold (\<lambda>path. fold (insert_path_key path) (dir_component_keys path)) (hkeys files) [])"

definition rebuild_reverse_index :: "live_index \<Rightarrow> live_index" where
  "rebuild_reverse_index live = live\<lparr>li_reverse_index := build_reverse_index_from_files (li_files live)\<rparr>"

definition rebuild_path_indices :: "live_index \<Rightarrow> live_index" where
  "rebuild_path_indices live =
     (let (by_basename, by_dir) = build_path_indices_from_files (li_files live)
      in live\<lparr>li_files_by_basename := by_basename, li_files_by_dir_component := by_dir\<rparr>)"

subsection \<open>Operations on one file\<close>

definition release_unverified :: "string \<Rightarrow> live_index \<Rightarrow> live_index \<times> bool" where
  "release_unverified path live =
     (case li_verify_state live of
        VerifyCompleted report \<Rightarrow>
          (let (report, released) = drop_unverified path report in (live\<lparr>li_verify_state := VerifyCompleted report\<rparr>, released))
      | _ \<Rightarrow> (live, False))"

definition update_file_with_manifest ::
  "(string \<Rightarrow> string) \<Rightarrow> nat \<Rightarrow> string \<Rightarrow> indexed_file \<Rightarrow> bool \<Rightarrow> live_index \<Rightarrow> live_index" where
  "update_file_with_manifest lc arc path file manifest live =
     (let live = fst (release_unverified path live);
          old_row = hget (li_files live) path;
          old_ref_names = map rf_name (row_references (li_files live) path);
          had_existing = (old_ref_names \<noteq> [] \<or> old_row \<noteq> None);
          entry = derived_manifest_entry path file live;
          live = live\<lparr>li_files := hinsert path \<lparr>ro_arc = arc, ro_file = file\<rparr> (li_files live)\<rparr>;
          live = (if manifest then upsert_manifest_entry_with_sort lc entry True live else live);
          live = (if had_existing then remove_path_indices_for_path path live else live);
          live = live\<lparr>li_reverse_index := fold (retain_other_paths path) old_ref_names (li_reverse_index live)\<rparr>;
          live = live\<lparr>li_trigram_index := update_file path (map_option (\<lambda>r. if_content (ro_file r)) old_row) (if_content file) (li_trigram_index live)\<rparr>;
          live = insert_reverse_index_for_path path live;
          live = insert_path_indices_for_path path live
      in live\<lparr>li_is_empty := False\<rparr>)"

definition live_update_file :: "(string \<Rightarrow> string) \<Rightarrow> nat \<Rightarrow> string \<Rightarrow> indexed_file \<Rightarrow> live_index \<Rightarrow> live_index" where
  "live_update_file lc arc path file live = update_file_with_manifest lc arc path file True live"

definition remove_row :: "string \<Rightarrow> live_index \<Rightarrow> live_index \<times> bool" where
  "remove_row path live =
     (let live = remove_reverse_index_for_path path live
      in case hget (li_files live) path of
           None \<Rightarrow> (live, False)
         | Some r \<Rightarrow>
             (let live = live\<lparr>li_files := hremove path (li_files live)\<rparr>;
                  live = live\<lparr>li_trigram_index := remove_file path (Some (if_content (ro_file r))) (li_trigram_index live)\<rparr>
              in (remove_path_indices_for_path path live, True)))"

definition live_remove_file :: "string \<Rightarrow> live_index \<Rightarrow> live_index \<times> bool" where
  "live_remove_file path live =
     (let (live, released) = release_unverified path live;
          (live, removed_file) = remove_row path live;
          (live, removed_manifest) = remove_manifest_entry path live
      in (live, released \<or> removed_file \<or> removed_manifest))"

definition unverified_since_restore :: "string \<Rightarrow> live_index \<Rightarrow> string option" where
  "unverified_since_restore path live =
     (case li_verify_state live of VerifyCompleted report \<Rightarrow> hget (vr_unverified report) path | _ \<Rightarrow> None)"

fun withhold_rows :: "(string \<times> row option) list \<Rightarrow> verify_report \<Rightarrow> live_index \<Rightarrow> bool \<Rightarrow> verify_report \<times> live_index \<times> bool" where
  "withhold_rows [] report live withheld = (report, live, withheld)"
| "withhold_rows ((path, restored) # rest) report live withheld =
     (case hget (li_files live) path of
        None \<Rightarrow> withhold_rows rest report live withheld
      | Some current \<Rightarrow>
          if (case restored of Some r \<Rightarrow> ro_arc r = ro_arc current | None \<Rightarrow> False)
          then (let (live, removed) = remove_row path live in withhold_rows rest report live (withheld \<or> removed))
          else withhold_rows rest (fst (drop_unverified path report)) live withheld)"

definition resolve_snapshot_verify :: "verify_completion \<Rightarrow> live_index \<Rightarrow> live_index \<times> bool" where
  "resolve_snapshot_verify completion live =
     (let (report, live, withheld) = withhold_rows (vc_restored_rows completion) (vc_report completion) live False
      in (live\<lparr>li_verify_state := VerifyCompleted report\<rparr>, withheld))"


definition live_mark_verify_running :: "nat \<Rightarrow> live_index \<Rightarrow> live_index" where
  "live_mark_verify_running progress live =
     (if li_load_source live = SnapshotRestore then live\<lparr>li_verify_state := VerifyRunning progress\<rparr> else live)"

definition live_mark_verify_completed :: "string list \<Rightarrow> live_index \<Rightarrow> live_index" where
  "live_mark_verify_completed mismatched live =
     (if li_load_source live = SnapshotRestore then live\<lparr>li_verify_state := VerifyCompleted (from_mismatched_paths mismatched)\<rparr> else live)"

definition refuses_watcher_observed_admission :: "live_index \<Rightarrow> bool" where
  "refuses_watcher_observed_admission live \<longleftrightarrow>
     li_load_source live = EmptyBootstrap \<and> li_indexed_root live = None \<and> li_local_empty_reason live = None"

subsection \<open>Bulk load\<close>

record scout_plan =
  sp_coverage :: coverage_status
  sp_entries :: "scouted_entry list"
  sp_issues :: "scout_issue list"
  sp_usage :: manifest_resource_usage

datatype manifest_error = DispositionMissing string | IndexedContentMissing string | UnexpectedDispositions "string list"

fun manifest_entries_of ::
  "scouted_entry list \<Rightarrow> (string, file_disposition) hmap \<Rightarrow> (string, row) hmap \<Rightarrow>
     (manifest_error, catalog_entry list \<times> (string, file_disposition) hmap) result" where
  "manifest_entries_of [] dispositions files = Ok ([], dispositions)"
| "manifest_entries_of (scouted # rest) dispositions files =
     (let path = scouted_catalog_path (se_path scouted)
      in case hget dispositions path of
           None \<Rightarrow> Err (DispositionMissing path)
         | Some disposition \<Rightarrow>
             (let content_hash = (case disposition of
                    DispIndexed _ _ \<Rightarrow> (case hget files path of
                        None \<Rightarrow> Err (IndexedContentMissing path)
                      | Some r \<Rightarrow> Ok (Some (if_content_hash (ro_file r))))
                  | _ \<Rightarrow> Ok None)
              in case content_hash of
                   Inl e \<Rightarrow> Err e
                 | Inr h \<Rightarrow>
                     (case manifest_entries_of rest (hremove path dispositions) files of
                        Inl e \<Rightarrow> Err e
                      | Inr (entries, left) \<Rightarrow> Ok (catalog_entry_from_scout scouted disposition h # entries, left))))"

definition manifest_entries_from_scout ::
  "(string \<Rightarrow> string) \<Rightarrow> scout_plan \<Rightarrow> (string \<times> file_disposition) list \<Rightarrow> (string, row) hmap \<Rightarrow> (manifest_error, catalog_entry list) result" where
  "manifest_entries_from_scout lc plan terminal files =
     (let dispositions = fold (\<lambda>(path, d). hinsert path d) terminal []
      in case manifest_entries_of (sp_entries plan) dispositions files of
           Inl e \<Rightarrow> Err e
         | Inr (entries, left) \<Rightarrow>
             if left \<noteq> [] then Err (UnexpectedDispositions (sort (hkeys left)))
             else Ok (sort_key (\<lambda>e. (lc (scouted_catalog_path (ce_path e)), scouted_catalog_path (ce_path e))) entries))"

record derived_indices =
  di_trigram_index :: trigram_index
  di_reverse_index :: "(string, reference_location list) hmap"
  di_files_by_basename :: "(string, string list) hmap"
  di_files_by_dir_component :: "(string, string list) hmap"

text \<open>The build is abandoned between stages when the reload is cancelled; what it returns otherwise is this.\<close>

definition build_derived_indices :: "(string, row) hmap \<Rightarrow> derived_indices" where
  "build_derived_indices files =
     (let (by_basename, by_dir) = build_path_indices_from_files files
      in \<lparr>di_trigram_index = build_from_files (contents_of files), di_reverse_index = build_reverse_index_from_files files,
          di_files_by_basename = by_basename, di_files_by_dir_component = by_dir\<rparr>)"

record reload_data =
  rd_files :: "(string, row) hmap"
  rd_scout_plan :: scout_plan
  rd_manifest_entries :: "catalog_entry list"
  rd_derived :: derived_indices
  rd_indexed_root :: string

text \<open>The end of \<open>build_reload_data\<close>: the manifest of the scouted files and the indices derived from the rows.\<close>

definition reload_data_of ::
  "(string \<Rightarrow> string) \<Rightarrow> scout_plan \<Rightarrow> (string \<times> file_disposition) list \<Rightarrow> (string, row) hmap \<Rightarrow> string \<Rightarrow> (manifest_error, reload_data) result" where
  "reload_data_of lc plan terminal files root =
     (case manifest_entries_from_scout lc plan terminal files of
        Inl e \<Rightarrow> Err e
      | Inr entries \<Rightarrow>
          Ok \<lparr>rd_files = files, rd_scout_plan = plan, rd_manifest_entries = entries,
              rd_derived = build_derived_indices files, rd_indexed_root = root\<rparr>)"

definition apply_reload_data :: "reload_data \<Rightarrow> live_index \<Rightarrow> live_index" where
  "apply_reload_data data live =
     live\<lparr>li_files := rd_files data, li_is_empty := False, li_local_empty_reason := None, li_load_source := FreshLoad,
          li_verify_state := NotNeeded, li_trigram_index := di_trigram_index (rd_derived data),
          li_reverse_index := di_reverse_index (rd_derived data),
          li_files_by_basename := di_files_by_basename (rd_derived data),
          li_files_by_dir_component := di_files_by_dir_component (rd_derived data),
          li_manifest_entries := rd_manifest_entries data, li_indexed_root := Some (rd_indexed_root data)\<rparr>"

definition from_reload_data :: "reload_data \<Rightarrow> live_index" where
  "from_reload_data data = apply_reload_data data empty_live_index"

definition from_source_files :: "(string, row) hmap \<Rightarrow> live_index" where
  "from_source_files files =
     rebuild_path_indices (rebuild_reverse_index
       (empty_live_index\<lparr>li_files := files, li_is_empty := (files = []), li_load_source := FreshLoad,
          li_trigram_index := build_from_files (contents_of files)\<rparr>))"

section \<open>Tables of lists\<close>

text \<open>
  The derived indices are all maps from a key to a list that is dropped once it is empty. \<open>tabulates ok m S\<close>: \<open>m\<close> holds
  the members of \<open>S k\<close> under every key \<open>k\<close>, in a list that is \<open>ok\<close>, and no empty list.
\<close>

definition tabulates :: "('v list \<Rightarrow> bool) \<Rightarrow> ('k, 'v list) hmap \<Rightarrow> ('k \<Rightarrow> 'v set) \<Rightarrow> bool" where
  "tabulates ok m S \<longleftrightarrow> hok m \<and> (\<forall>k l. hget m k = Some l \<longrightarrow> l \<noteq> [] \<and> ok l) \<and> (\<forall>k. set (listed m k) = S k)"

lemma tabulates_hok: "tabulates ok m S \<Longrightarrow> hok m"
  by (simp add: tabulates_def)

lemma tabulates_set: "tabulates ok m S \<Longrightarrow> set (listed m k) = S k"
  by (simp add: tabulates_def)

lemma tabulates_empty: "tabulates ok [] (\<lambda>_. {})"
  by (simp add: tabulates_def listed_def)

lemma tabulates_hinsert:
  assumes "tabulates ok m S" and "l \<noteq> []" and "ok l"
  shows "tabulates ok (hinsert k l m) (S(k := set l))"
  using assms by (auto simp: tabulates_def listed_def hmap_simps)

lemma tabulates_hremove:
  assumes "tabulates ok m S"
  shows "tabulates ok (hremove k m) (S(k := {}))"
  using assms by (auto simp: tabulates_def listed_def hmap_simps split: if_splits)

text \<open>What a table asks of the lists it keeps: how a value is added and how the values of an owner are dropped.\<close>

locale value_list =
  fixes ok :: "'v list \<Rightarrow> bool"
    and ins :: "'v list \<Rightarrow> 'v \<Rightarrow> 'v list"
    and fresh :: "'v list \<Rightarrow> 'v \<Rightarrow> bool"
    and del :: "'o \<Rightarrow> 'v list \<Rightarrow> 'v list"
    and owned :: "'o \<Rightarrow> 'v \<Rightarrow> bool"
  assumes ok_Nil: "ok []"
    and ins_law: "ok l \<Longrightarrow> fresh l x \<Longrightarrow> ok (ins l x) \<and> set (ins l x) = insert x (set l)"
    and del_law: "ok l \<Longrightarrow> ok (del q l) \<and> set (del q l) = {v \<in> set l. \<not> owned q v}"
begin

lemma listed_ok: "tabulates ok m S \<Longrightarrow> ok (listed m k)"
  using ok_Nil by (auto simp: tabulates_def listed_def split: option.splits)

lemma put_law:
  assumes t: "tabulates ok m S" and f: "fresh (listed m k) x"
  shows "tabulates ok (hinsert k (ins (listed m k) x) m) (S(k := insert x (S k)))"
proof -
  have l: "ok (ins (listed m k) x)" "set (ins (listed m k) x) = insert x (S k)"
    using ins_law [OF listed_ok [OF t] f] tabulates_set [OF t] by simp_all
  then have "ins (listed m k) x \<noteq> []" by auto
  from tabulates_hinsert [OF t this l(1), of k] l(2) show ?thesis by simp
qed

lemma drop_law:
  assumes t: "tabulates ok m S"
  shows "tabulates ok (case hget m k of None \<Rightarrow> m | Some l \<Rightarrow> (let l = del q l in if l = [] then hremove k m else hinsert k l m))
           (S(k := {v \<in> S k. \<not> owned q v}))"
proof (cases "hget m k")
  case None
  then have "S k = {}" using tabulates_set [OF t, of k] by (simp add: listed_def)
  then have "S(k := {v \<in> S k. \<not> owned q v}) = S" by (simp add: fun_upd_idem)
  then show ?thesis using t None by simp
next
  case (Some l)
  then have l: "listed m k = l" by (simp add: listed_def)
  have d: "ok (del q l)" "set (del q l) = {v \<in> S k. \<not> owned q v}"
    using del_law [OF listed_ok [OF t]] tabulates_set [OF t, of k] unfolding l [symmetric] by simp_all
  show ?thesis
  proof (cases "del q l = []")
    case True
    then have e: "{v \<in> S k. \<not> owned q v} = {}" using d(2) by simp
    show ?thesis unfolding e using tabulates_hremove [OF t, of k] Some True by simp
  next
    case False
    then show ?thesis using tabulates_hinsert [OF t False d(1), of k] Some d(2) by (simp add: Let_def)
  qed
qed

lemma drop_all:
  assumes "tabulates ok m S"
  shows "tabulates ok
           (fold (\<lambda>k m. case hget m k of None \<Rightarrow> m | Some l \<Rightarrow> (let l = del q l in if l = [] then hremove k m else hinsert k l m)) ks m)
           (\<lambda>k. if k \<in> set ks then {v \<in> S k. \<not> owned q v} else S k)"
  using assms
proof (induction ks arbitrary: m S)
  case (Cons k ks)
  have e: "(\<lambda>j. if j \<in> set ks then {v \<in> (S(k := {v \<in> S k. \<not> owned q v})) j. \<not> owned q v} else (S(k := {v \<in> S k. \<not> owned q v})) j)
    = (\<lambda>j. if j \<in> set (k # ks) then {v \<in> S j. \<not> owned q v} else S j)" by (rule ext) auto
  show ?case using Cons.IH [OF drop_law [OF Cons.prems, where k = k and q = q]] unfolding e by simp
qed simp

lemma put_all:
  assumes "tabulates ok m S" and "\<And>l. fresh l x"
  shows "tabulates ok (fold (\<lambda>k m. hinsert k (ins (listed m k) x) m) ks m) (\<lambda>k. if k \<in> set ks then insert x (S k) else S k)"
  using assms(1)
proof (induction ks arbitrary: m S)
  case (Cons k ks)
  have e: "(\<lambda>j. if j \<in> set ks then insert x ((S(k := insert x (S k))) j) else (S(k := insert x (S k))) j)
    = (\<lambda>j. if j \<in> set (k # ks) then insert x (S j) else S j)" by (rule ext) auto
  show ?case using Cons.IH [OF put_law [OF Cons.prems assms(2), where k = k]] unfolding e by simp
qed simp

end

lemma insert_sorted_unique_law:
  assumes "sorted_wrt (<) l"
  shows "sorted_wrt (<) (insert_sorted_unique l p) \<and> set (insert_sorted_unique l p) = insert p (set l)"
proof (cases "binary_search l p")
  case (Inl i)
  then show ?thesis using bs.insert_at [OF assms Inl] by (simp add: insert_sorted_unique_def)
next
  case (Inr i)
  then have "p \<in> set l" using bs.found_iff [OF assms] by blast
  then show ?thesis using assms Inr by (simp add: insert_sorted_unique_def insert_absorb)
qed

lemma remove_sorted_path_law:
  assumes "sorted_wrt (<) l"
  shows "sorted_wrt (<) (remove_sorted_path l p) \<and> set (remove_sorted_path l p) = {q \<in> set l. p \<noteq> q}"
proof (cases "binary_search l p")
  case (Inl i)
  then have "p \<notin> set l" using bs.found_iff [OF assms] by force
  then show ?thesis using assms Inl by (auto simp: remove_sorted_path_def)
next
  case (Inr i)
  then show ?thesis using bs.remove_at [OF assms Inr] by (auto simp: remove_sorted_path_def)
qed

interpretation pt: value_list "sorted_wrt (<)" insert_sorted_unique "\<lambda>_ _. True" "\<lambda>p l. remove_sorted_path l p" "(=)"
  by unfold_locales (simp_all add: insert_sorted_unique_law remove_sorted_path_law)

interpretation rt: value_list distinct "\<lambda>l x. l @ [x]" "\<lambda>l x. x \<notin> set l"
  "\<lambda>p. filter (\<lambda>loc. rl_file_path loc \<noteq> p)" "\<lambda>p loc. rl_file_path (loc :: reference_location) = p"
  by unfold_locales auto

lemma insert_path_keys_fold:
  "fold (insert_path_key p) ks m = fold (\<lambda>k m. hinsert k (insert_sorted_unique (listed m k) p) m) ks m"
  by (induction ks arbitrary: m) (simp_all add: insert_path_key_def)

lemma remove_path_keys_fold:
  "fold (remove_path_key p) ks m =
     fold (\<lambda>k m. case hget m k of None \<Rightarrow> m | Some l \<Rightarrow> (let l = remove_sorted_path l p in if l = [] then hremove k m else hinsert k l m)) ks m"
  by (induction ks arbitrary: m) (simp_all add: remove_path_key_def)

lemma retain_fold:
  "fold (retain_other_paths p) ks m =
     fold (\<lambda>k m. case hget m k of None \<Rightarrow> m
        | Some l \<Rightarrow> (let l = filter (\<lambda>loc. rl_file_path loc \<noteq> p) l in if l = [] then hremove k m else hinsert k l m)) ks m"
  by (induction ks arbitrary: m) (simp_all add: retain_other_paths_def)

section \<open>The derived indices follow the rows\<close>

definition paths_with :: "(string \<Rightarrow> string list) \<Rightarrow> (string, row) hmap \<Rightarrow> string \<Rightarrow> string set" where
  "paths_with keys files k = {p. hget files p \<noteq> None \<and> k \<in> set (keys p)}"

definition ref_sites :: "(string, row) hmap \<Rightarrow> string \<Rightarrow> reference_location set" where
  "ref_sites files name =
     {loc. rl_reference_idx loc < length (row_references files (rl_file_path loc)) \<and>
           rf_name (row_references files (rl_file_path loc) ! rl_reference_idx loc) = name}"

definition derived_ok :: "live_index \<Rightarrow> bool" where
  "derived_ok live \<longleftrightarrow>
     hok (li_files live) \<and> coherent (li_trigram_index live) (contents_of (li_files live)) \<and>
     tabulates distinct (li_reverse_index live) (ref_sites (li_files live)) \<and>
     tabulates (sorted_wrt (<)) (li_files_by_basename live) (paths_with basename_keys (li_files live)) \<and>
     tabulates (sorted_wrt (<)) (li_files_by_dir_component live) (paths_with dir_component_keys (li_files live))"

lemma contents_of_hinsert: "contents_of (hinsert p r files) = hinsert p (if_content (ro_file r)) (contents_of files)"
  by (induction files) (auto simp: contents_of_def)

lemma contents_of_hremove: "contents_of (hremove p files) = hremove p (contents_of files)"
  by (induction files) (auto simp: contents_of_def AList.delete_eq)

lemma hget_contents_of: "hget (contents_of files) p = map_option (\<lambda>r. if_content (ro_file r)) (hget files p)"
  by (induction files) (auto simp: contents_of_def)

lemma hok_contents_of [simp]: "hok (contents_of files) \<longleftrightarrow> hok files"
  by (simp add: contents_of_def hok_def case_prod_unfold comp_def)

lemma tabulates_paths_insert:
  assumes "tabulates (sorted_wrt (<)) m (paths_with keys files)"
  shows "tabulates (sorted_wrt (<)) (fold (insert_path_key p) (keys p) m) (paths_with keys (hinsert p r files))"
proof -
  have e: "(\<lambda>k. if k \<in> set (keys p) then insert p (paths_with keys files k) else paths_with keys files k) = paths_with keys (hinsert p r files)"
    by (rule ext) (auto simp: paths_with_def hget_hinsert split: if_splits)
  show ?thesis using pt.put_all [OF assms, of p "keys p"] unfolding e insert_path_keys_fold by simp
qed

lemma tabulates_paths_remove:
  assumes "tabulates (sorted_wrt (<)) m (paths_with keys files)"
  shows "tabulates (sorted_wrt (<)) (fold (remove_path_key p) (keys p) m) (paths_with keys (hremove p files))"
proof -
  have e: "(\<lambda>k. if k \<in> set (keys p) then {v \<in> paths_with keys files k. p \<noteq> v} else paths_with keys files k) = paths_with keys (hremove p files)"
    by (rule ext) (auto simp: paths_with_def hget_hremove split: if_splits)
  show ?thesis using pt.drop_all [OF assms, of p "keys p"] unfolding e remove_path_keys_fold by simp
qed

lemma row_references_hremove: "row_references (hremove p files) q = (if q = p then [] else row_references files q)"
  by (simp add: row_references_def hget_hremove)

lemma row_references_hinsert:
  "row_references (hinsert p r files) q = (if q = p then if_references (ro_file r) else row_references files q)"
  by (simp add: row_references_def hget_hinsert)

lemma tabulates_refs_remove:
  assumes "tabulates distinct m (ref_sites files)"
  shows "tabulates distinct (fold (retain_other_paths p) (map rf_name (row_references files p)) m) (ref_sites (hremove p files))"
proof -
  let ?names = "map rf_name (row_references files p)"
  have e: "(\<lambda>k. if k \<in> set ?names then {v \<in> ref_sites files k. rl_file_path v \<noteq> p} else ref_sites files k) = ref_sites (hremove p files)"
    by (rule ext) (auto simp: ref_sites_def row_references_hremove split: if_splits)
  show ?thesis using rt.drop_all [OF assms, of p ?names] unfolding e retain_fold by simp
qed

text \<open>The locations pushed for a file whose references from position \<open>n\<close> on are \<open>refs\<close>.\<close>

definition pushed_sites :: "string \<Rightarrow> nat \<Rightarrow> reference_record list \<Rightarrow> string \<Rightarrow> reference_location set" where
  "pushed_sites p n refs name = {loc. rl_file_path loc = p \<and> n \<le> rl_reference_idx loc \<and> rl_reference_idx loc < n + length refs \<and>
     rf_name (refs ! (rl_reference_idx loc - n)) = name}"

lemma pushed_sites_Cons:
  "pushed_sites p n (r # refs) name =
     (if rf_name r = name then insert \<lparr>rl_file_path = p, rl_reference_idx = n\<rparr> (pushed_sites p (Suc n) refs name)
      else pushed_sites p (Suc n) refs name)"
proof (rule set_eqI)
  fix loc :: reference_location
  obtain q i where l: "loc = \<lparr>rl_file_path = q, rl_reference_idx = i\<rparr>" by (cases loc) simp
  consider "i < n" | "i = n" | j where "i = Suc (n + j)" by (metis add_Suc_right less_imp_Suc_add linorder_neqE_nat)
  then show "loc \<in> pushed_sites p n (r # refs) name \<longleftrightarrow>
     loc \<in> (if rf_name r = name then insert \<lparr>rl_file_path = p, rl_reference_idx = n\<rparr> (pushed_sites p (Suc n) refs name)
      else pushed_sites p (Suc n) refs name)"
    by cases (auto simp: pushed_sites_def l)
qed

lemma push_locations:
  assumes "tabulates distinct m S" and "\<And>k loc. loc \<in> S k \<Longrightarrow> rl_file_path loc = p \<Longrightarrow> rl_reference_idx loc < n"
  shows "tabulates distinct (fold (push_location p) (enumerate n refs) m) (\<lambda>k. S k \<union> pushed_sites p n refs k)"
  using assms
proof (induction refs arbitrary: m S n)
  case Nil
  have "pushed_sites p n [] k = {}" for k by (auto simp: pushed_sites_def)
  then show ?case using Nil by simp
next
  case (Cons r refs)
  let ?x = "\<lparr>rl_file_path = p, rl_reference_idx = n\<rparr>"
  let ?S = "S(rf_name r := insert ?x (S (rf_name r)))"
  have f: "?x \<notin> set (listed m (rf_name r))" using Cons.prems(2) [of ?x] tabulates_set [OF Cons.prems(1)] by auto
  have t: "tabulates distinct (push_location p (n, r) m) ?S"
    using rt.put_law [OF Cons.prems(1) f] by (simp add: push_location_def)
  have b: "rl_reference_idx loc < Suc n" if "loc \<in> ?S k" "rl_file_path loc = p" for k loc
    using that Cons.prems(2) [of loc k] Cons.prems(2) [of loc "rf_name r"] by (cases loc; cases "k = rf_name r") auto
  have e: "(\<lambda>k. ?S k \<union> pushed_sites p (Suc n) refs k) = (\<lambda>k. S k \<union> pushed_sites p n (r # refs) k)"
    by (rule ext) (simp add: pushed_sites_Cons)
  show ?case using Cons.IH [OF t b] unfolding e by simp
qed

lemma tabulates_refs_insert:
  assumes "tabulates distinct m (ref_sites files)" and "row_references files p = []"
  shows "tabulates distinct (fold (push_location p) (enumerate 0 (if_references (ro_file r))) m) (ref_sites (hinsert p r files))"
proof -
  have e: "(\<lambda>k. ref_sites files k \<union> pushed_sites p 0 (if_references (ro_file r)) k) = ref_sites (hinsert p r files)"
    by (rule ext) (use assms(2) in \<open>auto simp: ref_sites_def pushed_sites_def row_references_hinsert split: if_splits\<close>)
  have b: "rl_reference_idx loc < 0" if "loc \<in> ref_sites files k" "rl_file_path loc = p" for k loc
    using that assms(2) by (simp add: ref_sites_def)
  show ?thesis using push_locations [OF assms(1), of p 0 "if_references (ro_file r)"] b unfolding e by blast
qed

lemma derived_okD:
  assumes "derived_ok live"
  shows "hok (li_files live)" and "coherent (li_trigram_index live) (contents_of (li_files live))"
    and "tabulates distinct (li_reverse_index live) (ref_sites (li_files live))"
    and "tabulates (sorted_wrt (<)) (li_files_by_basename live) (paths_with basename_keys (li_files live))"
    and "tabulates (sorted_wrt (<)) (li_files_by_dir_component live) (paths_with dir_component_keys (li_files live))"
  using assms by (simp_all add: derived_ok_def)

lemma derived_ok_cong:
  assumes "derived_ok live" and "li_files live' = li_files live" and "li_trigram_index live' = li_trigram_index live"
    and "li_reverse_index live' = li_reverse_index live" and "li_files_by_basename live' = li_files_by_basename live"
    and "li_files_by_dir_component live' = li_files_by_dir_component live"
  shows "derived_ok live'"
  using assms by (simp add: derived_ok_def)

lemma derived_ok_empty: "derived_ok empty_live_index"
proof -
  have "paths_with keys [] = (\<lambda>_. {})" for keys by (simp add: paths_with_def fun_eq_iff)
  moreover have "ref_sites [] = (\<lambda>_. {})" by (simp add: ref_sites_def row_references_def fun_eq_iff)
  ultimately show ?thesis by (simp add: derived_ok_def empty_live_index_def tabulates_empty contents_of_def coherent_new)
qed

lemma release_unverified_keeps:
  assumes "release_unverified p live = (live', b)"
  shows "li_files live' = li_files live" "li_trigram_index live' = li_trigram_index live" "li_reverse_index live' = li_reverse_index live"
    "li_files_by_basename live' = li_files_by_basename live" "li_files_by_dir_component live' = li_files_by_dir_component live"
    "li_manifest_entries live' = li_manifest_entries live" "li_load_source live' = li_load_source live"
  using assms by (auto simp: release_unverified_def split: verify_state.splits prod.splits)

lemma derived_ok_release: "derived_ok live \<Longrightarrow> derived_ok (fst (release_unverified p live))"
  by (rule derived_ok_cong) (simp_all add: release_unverified_keeps [OF prod.collapse [symmetric]])

lemma derived_ok_upsert: "derived_ok live \<Longrightarrow> derived_ok (upsert_manifest_entry_with_sort lc e srt live)"
  unfolding upsert_manifest_entry_with_sort_def sort_manifest_entries_def Let_def
  by (erule derived_ok_cong) simp_all

lemma derived_ok_remove_manifest: "derived_ok live \<Longrightarrow> derived_ok (fst (remove_manifest_entry p live))"
  by (rule derived_ok_cong) (simp_all add: remove_manifest_entry_def Let_def)

lemma remove_row_absent: "hget (li_files live) p = None \<Longrightarrow> remove_row p live = (live, False)"
  by (simp add: remove_row_def remove_reverse_index_for_path_def row_references_def)

lemma remove_row_present:
  assumes "hget (li_files live) p = Some r"
  shows "remove_row p live =
    (live\<lparr>li_files := hremove p (li_files live),
      li_reverse_index := fold (retain_other_paths p) (map rf_name (row_references (li_files live) p)) (li_reverse_index live),
      li_trigram_index := remove_file p (Some (if_content (ro_file r))) (li_trigram_index live),
      li_files_by_basename := fold (remove_path_key p) (basename_keys p) (li_files_by_basename live),
      li_files_by_dir_component := fold (remove_path_key p) (dir_component_keys p) (li_files_by_dir_component live)\<rparr>, True)"
  using assms by (cases live) (simp add: remove_row_def remove_reverse_index_for_path_def remove_path_indices_for_path_def Let_def)

lemma derived_ok_remove_row:
  assumes "derived_ok live"
  shows "derived_ok (fst (remove_row p live))"
proof (cases "hget (li_files live) p")
  case None
  then show ?thesis using assms by (simp add: remove_row_absent)
next
  case (Some r)
  note D = derived_okD [OF assms]
  have "coherent (remove_file p (Some (if_content (ro_file r))) (li_trigram_index live)) (contents_of (hremove p (li_files live)))"
    unfolding contents_of_hremove by (rule remove_file_coherent_aux [OF D(2)]) (simp add: hget_contents_of Some)
  then show ?thesis unfolding remove_row_present [OF Some]
    by (simp add: derived_ok_def D(1) tabulates_refs_remove [OF D(3)] tabulates_paths_remove [OF D(4)] tabulates_paths_remove [OF D(5)])
qed

lemma derived_ok_remove_file: "derived_ok live \<Longrightarrow> derived_ok (fst (live_remove_file p live))"
  using derived_ok_remove_manifest [OF derived_ok_remove_row [OF derived_ok_release]]
  by (simp add: live_remove_file_def case_prod_unfold Let_def)

lemma update_file_shape:
  fixes live p
  defines "f \<equiv> li_files live"
  assumes "live' = update_file_with_manifest lc arc p fl man live"
  shows "li_files live' = hinsert p \<lparr>ro_arc = arc, ro_file = fl\<rparr> f"
    and "li_reverse_index live' = fold (push_location p) (enumerate 0 (if_references fl))
           (fold (retain_other_paths p) (map rf_name (row_references f p)) (li_reverse_index live))"
    and "li_trigram_index live' = update_file p (map_option (\<lambda>r. if_content (ro_file r)) (hget f p)) (if_content fl) (li_trigram_index live)"
    and "li_files_by_basename live' = fold (insert_path_key p) (basename_keys p)
           (if hget f p \<noteq> None then fold (remove_path_key p) (basename_keys p) (li_files_by_basename live) else li_files_by_basename live)"
    and "li_files_by_dir_component live' = fold (insert_path_key p) (dir_component_keys p)
           (if hget f p \<noteq> None then fold (remove_path_key p) (dir_component_keys p) (li_files_by_dir_component live) else li_files_by_dir_component live)"
proof -
  have h: "row_references f p \<noteq> [] \<or> hget f p \<noteq> None \<longleftrightarrow> hget f p \<noteq> None" by (cases "hget f p") (auto simp: row_references_def)
  note keeps = release_unverified_keeps [OF prod.collapse [symmetric, of "release_unverified p live"]]
  note defs = assms(2) update_file_with_manifest_def Let_def insert_reverse_index_for_path_def insert_path_indices_for_path_def
    remove_path_indices_for_path_def upsert_manifest_entry_with_sort_def sort_manifest_entries_def
  show "li_files live' = hinsert p \<lparr>ro_arc = arc, ro_file = fl\<rparr> f" by (simp add: defs keeps f_def)
  show "li_reverse_index live' = fold (push_location p) (enumerate 0 (if_references fl))
           (fold (retain_other_paths p) (map rf_name (row_references f p)) (li_reverse_index live))"
    by (simp add: defs keeps f_def row_references_hinsert)
  show "li_trigram_index live' = update_file p (map_option (\<lambda>r. if_content (ro_file r)) (hget f p)) (if_content fl) (li_trigram_index live)"
    by (simp add: defs keeps f_def)
  show "li_files_by_basename live' = fold (insert_path_key p) (basename_keys p)
           (if hget f p \<noteq> None then fold (remove_path_key p) (basename_keys p) (li_files_by_basename live) else li_files_by_basename live)"
    using h by (simp add: defs keeps f_def)
  show "li_files_by_dir_component live' = fold (insert_path_key p) (dir_component_keys p)
           (if hget f p \<noteq> None then fold (remove_path_key p) (dir_component_keys p) (li_files_by_dir_component live) else li_files_by_dir_component live)"
    using h by (simp add: defs keeps f_def)
qed

lemma hinsert_after_hremove: "paths_with keys (hinsert p r (hremove p files)) = paths_with keys (hinsert p r files)"
  "ref_sites (hinsert p r (hremove p files)) = ref_sites (hinsert p r files)"
  by (auto simp: paths_with_def ref_sites_def row_references_def hmap_simps fun_eq_iff)

lemma tabulates_paths_update:
  assumes "tabulates (sorted_wrt (<)) m (paths_with keys files)"
  shows "tabulates (sorted_wrt (<))
    (fold (insert_path_key p) (keys p) (if hget files p \<noteq> None then fold (remove_path_key p) (keys p) m else m)) (paths_with keys (hinsert p r files))"
  using tabulates_paths_insert [OF assms, of p r] tabulates_paths_insert [OF tabulates_paths_remove [OF assms, of p], of p r]
  by (simp add: hinsert_after_hremove)

lemma derived_ok_update:
  assumes "derived_ok live"
  shows "derived_ok (update_file_with_manifest lc arc p fl man live)"
proof -
  note D = derived_okD [OF assms]
  note U = update_file_shape [OF refl, where lc = lc and arc = arc and p = p and fl = fl and man = man and live = live]
  have "coherent (update_file p (map_option (\<lambda>r. if_content (ro_file r)) (hget (li_files live) p)) (if_content fl) (li_trigram_index live))
      (contents_of (hinsert p \<lparr>ro_arc = arc, ro_file = fl\<rparr> (li_files live)))"
    unfolding contents_of_hinsert indexed_file.simps row.simps by (rule update_file_coherent_aux [OF D(2)]) (simp add: hget_contents_of)
  moreover have "row_references (hremove p (li_files live)) p = []" by (simp add: row_references_hremove)
  then have "tabulates distinct (fold (push_location p) (enumerate 0 (if_references fl))
           (fold (retain_other_paths p) (map rf_name (row_references (li_files live) p)) (li_reverse_index live)))
      (ref_sites (hinsert p \<lparr>ro_arc = arc, ro_file = fl\<rparr> (li_files live)))"
    using tabulates_refs_insert [OF tabulates_refs_remove [OF D(3), of p], where p = p and r = "\<lparr>ro_arc = arc, ro_file = fl\<rparr>"]
    by (simp add: hinsert_after_hremove)
  ultimately show ?thesis
    unfolding derived_ok_def U using tabulates_paths_update [OF D(4)] tabulates_paths_update [OF D(5)] D(1) by (simp only: hok_hinsert simp_thms)
qed

lemma derived_ok_withhold: "derived_ok live \<Longrightarrow> derived_ok (fst (snd (withhold_rows rows report live w)))"
proof (induction rows arbitrary: report live w)
  case (Cons x rows)
  then show ?case by (cases x) (simp add: Let_def case_prod_unfold derived_ok_remove_row split: option.split)
qed simp

lemma derived_ok_resolve: "derived_ok live \<Longrightarrow> derived_ok (fst (resolve_snapshot_verify c live))"
  by (rule derived_ok_cong [OF derived_ok_withhold]) (simp_all add: resolve_snapshot_verify_def case_prod_unfold Let_def)

lemma build_paths:
  "tabulates (sorted_wrt (<)) m S \<Longrightarrow>
   tabulates (sorted_wrt (<)) (fold (\<lambda>p. fold (insert_path_key p) (keys p)) ps m) (\<lambda>k. S k \<union> {p \<in> set ps. k \<in> set (keys p)})"
proof (induction ps arbitrary: m S)
  case (Cons p ps)
  have t: "tabulates (sorted_wrt (<)) (fold (insert_path_key p) (keys p) m) (\<lambda>k. if k \<in> set (keys p) then insert p (S k) else S k)"
    using pt.put_all [OF Cons.prems] by (simp add: insert_path_keys_fold)
  have e: "(\<lambda>k. (if k \<in> set (keys p) then insert p (S k) else S k) \<union> {q \<in> set ps. k \<in> set (keys q)}) =
      (\<lambda>k. S k \<union> {q \<in> set (p # ps). k \<in> set (keys q)})"
    by (rule ext) auto
  show ?case using Cons.IH [OF t] unfolding e by simp
qed simp

lemma build_refs:
  "tabulates distinct m S \<Longrightarrow> hok fs \<Longrightarrow> (\<And>k loc. loc \<in> S k \<Longrightarrow> rl_file_path loc \<notin> fst ` set fs) \<Longrightarrow>
   tabulates distinct (fold (\<lambda>(path, r). fold (push_location path) (enumerate 0 (if_references (ro_file r)))) fs m)
     (\<lambda>k. S k \<union> ref_sites fs k)"
proof (induction fs arbitrary: m S)
  case Nil
  have "ref_sites [] k = {}" for k by (simp add: ref_sites_def row_references_def)
  then show ?case using Nil by simp
next
  case (Cons x fs)
  obtain p r where x: "x = (p, r)" by force
  have p: "p \<notin> fst ` set fs" and ok: "hok fs" using Cons.prems(2) by (simp_all add: x hok_Cons)
  let ?S = "\<lambda>k. S k \<union> pushed_sites p 0 (if_references (ro_file r)) k"
  have b: "rl_reference_idx loc < 0" if "loc \<in> S k" "rl_file_path loc = p" for k loc
    using Cons.prems(3) [OF that(1)] that(2) by (auto simp: x)
  have t: "tabulates distinct (fold (push_location p) (enumerate 0 (if_references (ro_file r))) m) ?S"
    using push_locations [OF Cons.prems(1), of p 0] b by blast
  have f: "rl_file_path loc \<notin> fst ` set fs" if "loc \<in> ?S k" for k loc
    using that Cons.prems(3) [of loc k] p by (auto simp: pushed_sites_def x)
  have e: "ref_sites ((p, r) # fs) k = pushed_sites p 0 (if_references (ro_file r)) k \<union> ref_sites fs k" for k
    using p by (auto simp: ref_sites_def pushed_sites_def row_references_def hget_None_iff split: if_splits option.splits)
  show ?case using Cons.IH [OF t ok f] by (simp add: x e Un_assoc)
qed

lemma build_derived_tables:
  assumes "hok files"
  shows "tabulates distinct (build_reverse_index_from_files files) (ref_sites files)"
    and "tabulates (sorted_wrt (<)) (fst (build_path_indices_from_files files)) (paths_with basename_keys files)"
    and "tabulates (sorted_wrt (<)) (snd (build_path_indices_from_files files)) (paths_with dir_component_keys files)"
proof -
  have e: "(\<lambda>k. {} \<union> {p \<in> set (hkeys files). k \<in> set (keys p)}) = paths_with keys files" for keys
    by (rule ext) (simp add: paths_with_def hget_None_iff)
  show "tabulates distinct (build_reverse_index_from_files files) (ref_sites files)"
    using build_refs [OF tabulates_empty assms] by (simp add: build_reverse_index_from_files_def)
  show "tabulates (sorted_wrt (<)) (fst (build_path_indices_from_files files)) (paths_with basename_keys files)"
    using build_paths [OF tabulates_empty, of "basename_keys" "hkeys files"] unfolding e build_path_indices_from_files_def by simp
  show "tabulates (sorted_wrt (<)) (snd (build_path_indices_from_files files)) (paths_with dir_component_keys files)"
    using build_paths [OF tabulates_empty, of "dir_component_keys" "hkeys files"] unfolding e build_path_indices_from_files_def by simp
qed

lemma derived_ok_reload:
  assumes "reload_data_of lc plan terminal files root = Ok data" and "hok files"
  shows "derived_ok (apply_reload_data data live)"
  using assms build_derived_tables [OF assms(2)] build_coherent [of "contents_of files"]
  by (auto simp: reload_data_of_def apply_reload_data_def derived_ok_def build_derived_indices_def case_prod_unfold Let_def split: sum.splits)

lemma derived_ok_source_files: "hok files \<Longrightarrow> derived_ok (from_source_files files)"
  using build_derived_tables [of files] build_coherent [of "contents_of files"]
  by (simp add: from_source_files_def derived_ok_def rebuild_path_indices_def rebuild_reverse_index_def case_prod_unfold Let_def)

text \<open>A table of strictly sorted lists is determined by what it tabulates; one of distinct lists up to their order.\<close>

lemma tabulates_sorted_unique:
  fixes m m' :: "('k, string list) hmap"
  assumes "tabulates (sorted_wrt (<)) m S" and "tabulates (sorted_wrt (<)) m' S"
  shows "hget m k = hget m' k \<and> listed m k = listed m' k"
proof -
  have l: "listed m k = listed m' k"
    using pt.listed_ok [OF assms(1), of k] pt.listed_ok [OF assms(2), of k] tabulates_set [OF assms(1), of k] tabulates_set [OF assms(2), of k]
    by (metis strict_sorted_equal)
  then show ?thesis using assms unfolding tabulates_def listed_def by (metis option.case_eq_if option.collapse)
qed

lemma tabulates_distinct_mset:
  fixes m m' :: "('k, reference_location list) hmap"
  assumes "tabulates distinct m S" and "tabulates distinct m' S"
  shows "mset (listed m k) = mset (listed m' k)"
  using rt.listed_ok [OF assms(1), of k] rt.listed_ok [OF assms(2), of k] tabulates_set [OF assms(1), of k] tabulates_set [OF assms(2), of k]
  by (metis set_eq_iff_mset_eq_distinct)

section \<open>Withheld rows\<close>

definition withheld_ok :: "live_index \<Rightarrow> bool" where
  "withheld_ok live \<longleftrightarrow> (\<forall>p. unverified_since_restore p live \<noteq> None \<longrightarrow> hget (li_files live) p = None)"

text \<open>A completion names the restored row, if any, of every path it leaves unverified.\<close>

definition completion_ok :: "verify_completion \<Rightarrow> bool" where
  "completion_ok c \<longleftrightarrow> fst ` set (vr_unverified (vc_report c)) \<subseteq> fst ` set (vc_restored_rows c)"

lemma drop_unverified_get: "hget (vr_unverified (fst (drop_unverified p r))) q = (if q = p then None else hget (vr_unverified r) q)"
  by (auto simp: drop_unverified_def hget_hremove)

lemma release_unverified_get: "unverified_since_restore q (fst (release_unverified p live)) = (if q = p then None else unverified_since_restore q live)"
  by (cases "li_verify_state live") (simp_all add: release_unverified_def unverified_since_restore_def case_prod_unfold drop_unverified_get Let_def)

lemma remove_row_files: "li_files (fst (remove_row p live)) = hremove p (li_files live)"
proof (cases "hget (li_files live) p")
  case None
  then show ?thesis by (simp add: remove_row_absent delete_idem hget_None_iff)
qed (simp add: remove_row_present)

lemma remove_row_state: "li_verify_state (fst (remove_row p live)) = li_verify_state live"
  by (cases "hget (li_files live) p") (simp_all add: remove_row_absent remove_row_present)

lemma hremove_map_le: "hget (hremove q m) \<subseteq>\<^sub>m hget m"
  by (auto simp: map_le_def hget_hremove)

lemma withhold_files: "hget (li_files (fst (snd (withhold_rows rows report live w)))) \<subseteq>\<^sub>m hget (li_files live)"
proof (induction rows arbitrary: report live w)
  case (Cons x rows)
  have "hget (li_files (fst (snd (withhold_rows rows rep (fst (remove_row q live)) v)))) \<subseteq>\<^sub>m hget (li_files live)" for q v rep
    using Cons.IH [of rep "fst (remove_row q live)" v] hremove_map_le [of q "li_files live"] unfolding remove_row_files by (rule map_le_trans)
  then show ?case using Cons.IH by (cases x) (simp add: Let_def case_prod_unfold split: option.split)
qed simp

lemma withhold_report:
  "dom (hget (vr_unverified (fst (withhold_rows rows report live w)))) \<subseteq> dom (hget (vr_unverified report))"
proof (induction rows arbitrary: report live w)
  case (Cons x rows)
  have "dom (hget (vr_unverified (fst (withhold_rows rows (fst (drop_unverified q report)) l v)))) \<subseteq> dom (hget (vr_unverified report))" for q v l
    using Cons.IH [of "fst (drop_unverified q report)" l v] by (auto simp: drop_unverified_get dom_def split: if_splits)
  then show ?case using Cons.IH by (cases x) (simp add: Let_def case_prod_unfold split: option.split)
qed simp

lemma withhold_shrinks:
  assumes "withhold_rows rows report live w = (report', live', w')"
  shows "hget (li_files live) p = None \<Longrightarrow> hget (li_files live') p = None"
    and "hget (vr_unverified report) p = None \<Longrightarrow> hget (vr_unverified report') p = None"
  using withhold_files [of rows report live w] withhold_report [of rows report live w] assms by (auto simp: map_le_def dom_def)

lemma withhold_hides:
  assumes "withhold_rows rows report live w = (report', live', w')" and "p \<in> fst ` set rows"
    and "hget (vr_unverified report') p \<noteq> None"
  shows "hget (li_files live') p = None"
  using assms
proof (induction rows arbitrary: report live w)
  case (Cons x rows)
  obtain q r where x: "x = (q, r)" by force
  show ?case
  proof (cases "p \<in> fst ` set rows")
    case True
    then show ?thesis using Cons.prems Cons.IH unfolding x by (simp add: Let_def case_prod_unfold split: option.splits if_splits)
  next
    case False
    then have p: "p = q" using Cons.prems(2) by (simp add: x)
    show ?thesis
    proof (cases "hget (li_files live) q")
      case None
      then have "withhold_rows rows report live w = (report', live', w')" using Cons.prems(1) by (simp add: x)
      then show ?thesis using withhold_shrinks(1) None p by simp
    next
      case (Some cur)
      show ?thesis
      proof (cases "case r of Some r \<Rightarrow> ro_arc r = ro_arc cur | None \<Rightarrow> False")
        case True
        let ?l = "fst (remove_row q live)"
        have "withhold_rows rows report ?l (w \<or> snd (remove_row q live)) = (report', live', w')"
          using Cons.prems(1) Some True by (simp add: x Let_def case_prod_unfold)
        moreover have "hget (li_files ?l) p = None" by (simp add: remove_row_files hget_hremove p)
        ultimately show ?thesis using withhold_shrinks(1) by metis
      next
        case False
        then have "withhold_rows rows (fst (drop_unverified q report)) live w = (report', live', w')"
          using Cons.prems(1) Some by (simp add: x)
        moreover have "hget (vr_unverified (fst (drop_unverified q report))) p = None" by (simp add: drop_unverified_get p)
        ultimately show ?thesis using withhold_shrinks(2) Cons.prems(3) by metis
      qed
    qed
  qed
qed simp

lemma withheld_ok_resolve:
  assumes "completion_ok c"
  shows "withheld_ok (fst (resolve_snapshot_verify c live))"
proof -
  obtain report' live' w' where w: "withhold_rows (vc_restored_rows c) (vc_report c) live False = (report', live', w')" by (metis prod_cases3)
  have "hget (li_files live') p = None" if h: "hget (vr_unverified report') p \<noteq> None" for p
  proof -
    have "hget (vr_unverified (vc_report c)) p \<noteq> None" using withhold_shrinks(2) [OF w, of p] h by blast
    then have "p \<in> fst ` set (vc_restored_rows c)" using assms by (auto simp: completion_ok_def hget_None_iff)
    then show ?thesis using withhold_hides [OF w _ h] by simp
  qed
  then show ?thesis by (simp add: resolve_snapshot_verify_def w withheld_ok_def unverified_since_restore_def)
qed

section \<open>Histories\<close>

datatype live_op =
    UpdateFile nat string indexed_file bool
  | RemoveFile string
  | UpsertEntry catalog_entry
  | MarkRunning nat
  | MarkCompleted "string list"
  | ResolveVerify verify_completion
  | ReloadFrom scout_plan "(string \<times> file_disposition) list" "(string, row) hmap" string

fun live_step :: "(string \<Rightarrow> string) \<Rightarrow> live_op \<Rightarrow> live_index \<Rightarrow> live_index" where
  "live_step lc (UpdateFile arc path fl manifest) live = update_file_with_manifest lc arc path fl manifest live"
| "live_step lc (RemoveFile path) live = fst (live_remove_file path live)"
| "live_step lc (UpsertEntry entry) live = upsert_manifest_entry lc entry live"
| "live_step lc (MarkRunning progress) live = live_mark_verify_running progress live"
| "live_step lc (MarkCompleted paths) live = live_mark_verify_completed paths live"
| "live_step lc (ResolveVerify c) live = fst (resolve_snapshot_verify c live)"
| "live_step lc (ReloadFrom plan terminal files root) live =
     (case reload_data_of lc plan terminal files root of Inl _ \<Rightarrow> live | Inr data \<Rightarrow> apply_reload_data data live)"

text \<open>What the caller guarantees: a file map has each path once, and a completion names the rows it withholds.\<close>

fun live_op_ok :: "live_op \<Rightarrow> bool" where
  "live_op_ok (ResolveVerify c) = completion_ok c"
| "live_op_ok (ReloadFrom _ _ files _) = hok files"
| "live_op_ok _ = True"

lemma derived_ok_step: "live_op_ok op \<Longrightarrow> derived_ok live \<Longrightarrow> derived_ok (live_step lc op live)"
proof (cases op)
  case (MarkRunning progress)
  assume "derived_ok live"
  then show ?thesis unfolding MarkRunning live_step.simps by (rule derived_ok_cong) (simp_all add: live_mark_verify_running_def)
next
  case (MarkCompleted paths)
  assume "derived_ok live"
  then show ?thesis unfolding MarkCompleted live_step.simps by (rule derived_ok_cong) (simp_all add: live_mark_verify_completed_def)
next
  case (ReloadFrom plan terminal files root)
  assume "live_op_ok op" "derived_ok live"
  then show ?thesis using derived_ok_reload [of lc plan terminal files root] by (simp add: ReloadFrom split: sum.split)
qed (simp_all add: derived_ok_update derived_ok_remove_file derived_ok_upsert upsert_manifest_entry_def derived_ok_resolve)

lemma withheld_ok_update:
  assumes "withheld_ok live"
  shows "withheld_ok (update_file_with_manifest lc arc p fl man live)"
proof -
  let ?u = "update_file_with_manifest lc arc p fl man live"
  have "li_verify_state ?u = li_verify_state (fst (release_unverified p live))"
    by (simp add: update_file_with_manifest_def Let_def insert_reverse_index_for_path_def insert_path_indices_for_path_def
        remove_path_indices_for_path_def upsert_manifest_entry_with_sort_def sort_manifest_entries_def)
  then have "unverified_since_restore q ?u = (if q = p then None else unverified_since_restore q live)" for q
    using release_unverified_get [of q p live] by (simp add: unverified_since_restore_def)
  then show ?thesis using assms by (simp add: withheld_ok_def update_file_shape(1) [OF refl] hget_hinsert)
qed

lemma withheld_ok_remove: "withheld_ok live \<Longrightarrow> withheld_ok (fst (live_remove_file p live))"
proof -
  assume w: "withheld_ok live"
  let ?r = "fst (live_remove_file p live)"
  have "li_verify_state ?r = li_verify_state (fst (release_unverified p live))"
    by (simp add: live_remove_file_def case_prod_unfold Let_def remove_manifest_entry_def remove_row_state)
  then have "unverified_since_restore q ?r = (if q = p then None else unverified_since_restore q live)" for q
    using release_unverified_get [of q p live] by (simp add: unverified_since_restore_def)
  moreover have "li_files ?r = hremove p (li_files live)"
    by (simp add: live_remove_file_def case_prod_unfold Let_def remove_manifest_entry_def remove_row_files
        release_unverified_keeps [OF prod.collapse [symmetric]])
  ultimately show ?thesis using w by (simp add: withheld_ok_def hget_hremove)
qed

lemma withheld_ok_step: "live_op_ok op \<Longrightarrow> withheld_ok live \<Longrightarrow> withheld_ok (live_step lc op live)"
proof (cases op)
  case (UpsertEntry entry)
  assume "withheld_ok live"
  then show ?thesis
    by (simp add: UpsertEntry withheld_ok_def unverified_since_restore_def upsert_manifest_entry_def upsert_manifest_entry_with_sort_def
        sort_manifest_entries_def Let_def)
next
  case (ReloadFrom plan terminal files root)
  assume "withheld_ok live"
  then show ?thesis
    by (simp add: ReloadFrom withheld_ok_def unverified_since_restore_def apply_reload_data_def split: sum.split)
next
  case (MarkRunning progress)
  assume "withheld_ok live"
  then show ?thesis by (simp add: MarkRunning live_mark_verify_running_def withheld_ok_def unverified_since_restore_def)
next
  case (MarkCompleted paths)
  assume "withheld_ok live"
  then show ?thesis
    by (simp add: MarkCompleted live_mark_verify_completed_def withheld_ok_def unverified_since_restore_def from_mismatched_paths_def Let_def)
qed (simp_all add: withheld_ok_update withheld_ok_remove withheld_ok_resolve)

lemma live_history:
  "list_all live_op_ok ops \<Longrightarrow> derived_ok live \<Longrightarrow> withheld_ok live \<Longrightarrow>
   derived_ok (fold (live_step lc) ops live) \<and> withheld_ok (fold (live_step lc) ops live)"
  by (induction ops arbitrary: live) (simp_all add: derived_ok_step withheld_ok_step)

lemma withheld_ok_empty: "withheld_ok empty_live_index"
  by (simp add: withheld_ok_def empty_live_index_def unverified_since_restore_def)

section \<open>Properties\<close>

text \<open>
  C8: the derived indices never drift from the rows. After any sequence of updates, removals, catalog writes, verification
  outcomes and reloads, the basename and directory indices are entry for entry those a rebuild from the current rows
  gives, the reverse index holds the same reference sites under every name, and the text index answers every
  search exactly.
\<close>

theorem incremental_equals_rebuild:
  assumes "list_all live_op_ok ops" and "live = fold (live_step lc) ops empty_live_index"
  shows "(\<forall>k. hget (li_files_by_basename live) k = hget (fst (build_path_indices_from_files (li_files live))) k) \<and>
    (\<forall>k. hget (li_files_by_dir_component live) k = hget (snd (build_path_indices_from_files (li_files live))) k) \<and>
    (\<forall>name. mset (listed (li_reverse_index live) name) = mset (listed (build_reverse_index_from_files (li_files live)) name)) \<and>
    (\<forall>query. query \<noteq> [] \<longrightarrow>
       set (search (li_trigram_index live) query (contents_of (li_files live))) = matching_paths (contents_of (li_files live)) query)"
proof -
  have d: "derived_ok live" using live_history [OF assms(1) derived_ok_empty withheld_ok_empty] assms(2) by simp
  note D = derived_okD [OF d] and B = build_derived_tables [OF derived_okD(1) [OF d]]
  show ?thesis
    using tabulates_sorted_unique [OF D(4) B(2)] tabulates_sorted_unique [OF D(5) B(3)] tabulates_distinct_mset [OF D(3) B(1)] search_set [OF D(2)]
    by simp
qed

definition wit_indexed :: "string \<Rightarrow> bytes \<Rightarrow> indexed_file" where
  "wit_indexed path content =
     from_parse_result \<lparr>pr_relative_path = path, pr_language = LangRust,
       pr_classification = \<lparr>fc_class = CodeClass, fc_is_generated = False, fc_is_test = False, fc_is_vendor = False, fc_is_config = False\<rparr>,
       pr_outcome = Processed, pr_symbols = [], pr_byte_len = length content, pr_content_hash = ''h'',
       pr_references = [\<lparr>rf_name = ''f'', rf_qualified_name = None, rf_kind = RefCall, rf_byte_range = (0, 1), rf_line_range = (0, 0),
         rf_enclosing_symbol_index = None\<rparr>], pr_alias_map = []\<rparr> content"


theorem incremental_equals_rebuild_witness:
  "hget (li_files_by_basename (fold (live_step id)
      [UpdateFile 1 ''a/b.rs'' (wit_indexed ''a/b.rs'' [1, 2, 3]) True, UpdateFile 2 ''c/B.rs'' (wit_indexed ''c/B.rs'' [1]) True, RemoveFile ''a/b.rs'']
      empty_live_index)) ''b.rs'' = Some [''c/B.rs'']"
proof -
  let ?ops = "[UpdateFile 1 ''a/b.rs'' (wit_indexed ''a/b.rs'' [1, 2, 3]) True, UpdateFile 2 ''c/B.rs'' (wit_indexed ''c/B.rs'' [1]) True, RemoveFile ''a/b.rs'']"
  have "hget (fst (build_path_indices_from_files (li_files (fold (live_step id) ?ops empty_live_index)))) ''b.rs'' = Some [''c/B.rs'']"
    by code_simp
  then show ?thesis using incremental_equals_rebuild [of ?ops _ id, OF _ refl] by simp
qed



end
