(* ===== verification/Spec2Isabelle.thy ===== *)
theory Spec2Isabelle
  imports Prelude Trigram BatchCommit Splice TextEdit Authority Capacity Observer Candidate PhysicalRoot Mutation ObservationLane WriteLane Activation Registry Idempotency Verification QueryLease SnapshotSeed Enclosing LiveIndex
begin

text \<open>
  Verification library for the SymForge code-index server (Rust sources under \<open>src/src/\<close>).
\<close>

end
